(* ===== verification/Prelude.thy ===== *)
theory Prelude
  imports Main "HOL-Library.Word" "HOL-Library.Monad_Syntax"
begin

text \<open>
  Shared vocabulary of the development: names for Rust's machine integers, the
  outcome type of code that may panic, the parts of \<^verbatim>\<open>Vec\<close> the kernel uses, and
  the generic lemmas on lists, options and words that several components need.

  A Rust function that may panic (a failing \<^verbatim>\<open>assert!\<close>, \<^verbatim>\<open>unwrap\<close> of \<^verbatim>\<open>None\<close>, an index
  out of range, an explicit \<^verbatim>\<open>panic!\<close>) is modelled by a function into the type
  \<^verbatim>\<open>'a run\<close>: \<^verbatim>\<open>None\<close> is the panic and \<^verbatim>\<open>Some x\<close> a normal return of \<open>x\<close>.
  Rust's \<^verbatim>\<open>Result<T, isize>\<close> is \<^verbatim>\<open>int + 'a\<close> with \<^verbatim>\<open>Inl\<close> the error number.  The
  kernel is built with \<^verbatim>\<open>MODE := release\<close>, so integer overflow wraps.
\<close>

section \<open>Types\<close>

type_synonym u8 = "8 word"
type_synonym u16 = "16 word"
type_synonym u32 = "32 word"
type_synonym u64 = "64 word"
type_synonym usize = "64 word"

type_synonym 'a run = "'a option"
type_synonym 'a result = "int + 'a"

abbreviation panic :: "'a run" where
  "panic \<equiv> None"

abbreviation ret :: "'a \<Rightarrow> 'a run" where
  "ret x \<equiv> Some x"

definition rust_assert :: "bool \<Rightarrow> unit run" where
  "rust_assert b = (if b then ret () else panic)"

named_theorems config_defs \<open>constants of the kernel configuration\<close>
named_theorems run_simps \<open>symbolic execution of code that may panic\<close>

section \<open>The panic monad\<close>

lemma rust_assert_simps [simp]:
  "rust_assert True = Some ()"
  "rust_assert False = None"
  by (simp_all add: rust_assert_def)

lemma rust_assert_eq_Some [simp]: "rust_assert b = Some u \<longleftrightarrow> b"
  by (simp add: rust_assert_def)

lemma rust_assert_eq_None [simp]: "rust_assert b = None \<longleftrightarrow> \<not> b"
  by (simp add: rust_assert_def)

lemma bind_eq_SomeE:
  assumes "Option.bind m f = Some y"
  obtains x where "m = Some x" "f x = Some y"
  using assms by (cases m) auto

lemma rust_assert_bind [run_simps]:
  "Option.bind (rust_assert b) f = (if b then f () else None)"
  by (simp add: rust_assert_def)

section \<open>Vectors\<close>

definition vec_pop :: "'a list \<Rightarrow> ('a \<times> 'a list) option" where
  "vec_pop xs = (if xs = [] then None else Some (last xs, butlast xs))"

definition vec_push :: "'a list \<Rightarrow> 'a \<Rightarrow> 'a list" where
  "vec_push xs x = xs @ [x]"

definition vec_get :: "'a list \<Rightarrow> nat \<Rightarrow> 'a option" where
  "vec_get xs i = (if i < length xs then Some (xs ! i) else None)"

lemma vec_pop_Nil [simp]: "vec_pop [] = None"
  by (simp add: vec_pop_def)

lemma vec_pop_None_iff [simp]: "vec_pop xs = None \<longleftrightarrow> xs = []"
  by (simp add: vec_pop_def)

lemma vec_pop_push [simp]: "vec_pop (vec_push xs x) = Some (x, xs)"
  by (simp add: vec_pop_def vec_push_def)

lemma vec_pop_snoc [simp]: "vec_pop (xs @ [x]) = Some (x, xs)"
  by (simp add: vec_pop_def)

lemma vec_pop_Some_iff: "vec_pop xs = Some (x, ys) \<longleftrightarrow> xs = ys @ [x]"
  by (auto simp: vec_pop_def)

lemma vec_get_Some_iff: "vec_get xs i = Some x \<longleftrightarrow> i < length xs \<and> xs ! i = x"
  by (auto simp: vec_get_def)

lemma vec_get_None_iff [simp]: "vec_get xs i = None \<longleftrightarrow> length xs \<le> i"
  by (auto simp: vec_get_def)

lemma vec_get_lt [simp]: "i < length xs \<Longrightarrow> vec_get xs i = Some (xs ! i)"
  by (simp add: vec_get_def)

lemma set_vec_push [simp]: "set (vec_push xs x) = insert x (set xs)"
  by (auto simp: vec_push_def)

lemma length_vec_push [simp]: "length (vec_push xs x) = Suc (length xs)"
  by (simp add: vec_push_def)

lemma distinct_vec_push [simp]: "distinct (vec_push xs x) \<longleftrightarrow> distinct xs \<and> x \<notin> set xs"
  by (auto simp: vec_push_def)

definition vec_slice :: "'a list \<Rightarrow> nat \<Rightarrow> nat \<Rightarrow> 'a list run" where
  "vec_slice xs lo hi = (if lo \<le> hi \<and> hi \<le> length xs then ret (take (hi - lo) (drop lo xs)) else panic)"

section \<open>Ordered maps\<close>

text \<open>A \<^verbatim>\<open>BTreeMap\<close> is the list of its entries in key order, the order of its iterators.\<close>

type_synonym ('k, 'v) btmap = "('k \<times> 'v) list"

fun btm_insert :: "'k :: linorder \<Rightarrow> 'v \<Rightarrow> ('k, 'v) btmap \<Rightarrow> ('k, 'v) btmap" where
  "btm_insert k v [] = [(k, v)]"
| "btm_insert k v ((k', v') # m) =
    (if k < k' then (k, v) # (k', v') # m
     else if k = k' then (k, v) # m
     else (k', v') # btm_insert k v m)"

definition btm_remove :: "'k \<Rightarrow> ('k, 'v) btmap \<Rightarrow> ('k, 'v) btmap" where
  "btm_remove k m = filter (\<lambda>(k', _). k' \<noteq> k) m"

lemma map_of_btm_insert [simp]: "map_of (btm_insert k v m) = (map_of m)(k \<mapsto> v)"
  by (induction m) (auto simp: fun_eq_iff)

lemma map_of_btm_remove [simp]: "map_of (btm_remove k m) = (map_of m)(k := None)"
  by (induction m) (auto simp: btm_remove_def fun_eq_iff)

lemma set_btm_insert_subset: "set (btm_insert k v m) \<subseteq> insert (k, v) (set m)"
  by (induction m) (auto split: if_splits)

lemma btm_insert_fresh: "map_of m k = None \<Longrightarrow> set (btm_insert k v m) = insert (k, v) (set m)"
  by (induction m) (auto split: if_splits)

lemma sorted_btm_insert:
  "sorted_wrt (<) (map fst m) \<Longrightarrow> sorted_wrt (<) (map fst (btm_insert k v m))"
proof (induction m)
  case (Cons e m)
  obtain k' v' where e: "e = (k', v')" by (cases e)
  have "x = (k, v) \<or> x \<in> set m" if "x \<in> set (btm_insert k v m)" for x
    using set_btm_insert_subset [of k v m] that by blast
  then show ?case using Cons by (fastforce simp: e)
qed simp

lemma sorted_btm_remove:
  "sorted_wrt (<) (map fst m) \<Longrightarrow> sorted_wrt (<) (map fst (btm_remove k m))"
  by (induction m) (auto simp: btm_remove_def)

section \<open>Words\<close>

lemma unat_lt_size64: "unat (x :: 64 word) < 2 ^ 64"
  using unsigned_less [of x] by simp

lemma unat_eqD: "unat (x :: 'a :: len word) = unat y \<Longrightarrow> x = y"
  by (simp add: word_unat_eq_iff)

lemma inj_on_unat: "inj_on (unat :: 'a :: len word \<Rightarrow> nat) A"
  by (rule inj_onI) (rule unat_eqD)

lemma unat_of_nat64: "n < 2 ^ 64 \<Longrightarrow> unat (of_nat n :: 64 word) = n"
  by (simp add: unat_of_nat)

lemma unat_inc_no_wrap:
  fixes x y :: "'a :: len word"
  assumes "x < y"
  shows "unat (x + 1) = unat x + 1"
proof -
  have "unat x + 1 \<le> unat y" using assms by (simp add: word_less_nat_alt)
  also have "unat y < 2 ^ LENGTH('a)" by (rule unsigned_less)
  finally show ?thesis by (simp add: unat_word_ariths(1))
qed

lemma inc_le_of_less:
  fixes x y :: "'a :: len word"
  assumes "x < y"
  shows "x + 1 \<le> y"
  using assms unat_inc_no_wrap [OF assms] by (simp add: word_le_nat_alt word_less_nat_alt)

lemma less_inc_cases:
  fixes x y z :: "'a :: len word"
  assumes "x < y"
  shows "z < x + 1 \<longleftrightarrow> z < x \<or> z = x"
  using assms unat_inc_no_wrap [OF assms]
  by (auto simp: word_less_nat_alt less_Suc_eq word_unat_eq_iff)

lemma unat_take_bit: "unat (take_bit n (x :: 'a :: len word)) = unat x mod 2 ^ n"
  by (simp only: unsigned_take_bit_eq take_bit_nat_def)

lemma unat_drop_bit: "unat (drop_bit n (x :: 'a :: len word)) = unat x div 2 ^ n"
  by (simp only: unsigned_drop_bit_eq drop_bit_nat_def take_bit_nat_def mod_less unsigned_less)

lemma unat_push_bit: "unat (push_bit n (x :: 'a :: len word)) = unat x * 2 ^ n mod 2 ^ LENGTH('a)"
  by (simp only: unsigned_push_bit_eq push_bit_nat_def take_bit_nat_def)

lemma unat_push_bit_small:
  "unat (x :: 'a :: len word) * 2 ^ n < 2 ^ LENGTH('a) \<Longrightarrow> unat (push_bit n x) = unat x * 2 ^ n"
  by (simp add: unat_push_bit)

lemma take_bit_word_id:
  fixes x :: "'a :: len word"
  assumes "unat x < 2 ^ n"
  shows "take_bit n x = x"
  using assms by (simp add: word_unat_eq_iff unat_take_bit)

end
