(* ===== verification/Block_Cache.thy ===== *)
theory Block_Cache
  imports Prelude
begin

text \<open>
  \<^verbatim>\<open>kernel/src/fs/cache.rs\<close>, the pool of block buffers in front of the block device
  (\<^verbatim>\<open>BufferCache\<close>, \<^verbatim>\<open>BlockCacheManager\<close>).  The contents of a block are the type variable
  \<open>'b\<close>, the device a function from block numbers to contents.  \<open>bc_refs\<close> counts the
  references to a buffer that are held outside the pool.  Looking for an unused buffer is a
  loop that need not end; not returning is the value \<open>None\<close>.
\<close>

section \<open>Buffers and the pool\<close>

definition USIZE_MAX :: nat where
  "USIZE_MAX = 2 ^ 64 - 1"

definition PRIORITY_UPPERBOUND :: nat where
  "PRIORITY_UPPERBOUND = 1"

definition CACHEPOOLSIZE :: nat where
  "CACHEPOOLSIZE = 16"

definition PAGE_BUFFERS :: nat where
  "PAGE_BUFFERS = 8"

definition BUFFER_SIZE :: nat where
  "BUFFER_SIZE = 512"

type_synonym 'b disk = "nat \<Rightarrow> 'b"

record 'b BufferCache =
  bc_priority :: nat
  bc_block_id :: nat
  bc_buffer :: 'b
  bc_refs :: nat

type_synonym 'b cache_state = "'b BufferCache list \<times> 'b disk"

definition BufferCache_new :: "'b \<Rightarrow> 'b BufferCache" where
  "BufferCache_new ptr = \<lparr>bc_priority = 0, bc_block_id = USIZE_MAX, bc_buffer = ptr, bc_refs = 0\<rparr>"

definition bc_read_block :: "nat \<Rightarrow> 'b disk \<Rightarrow> 'b BufferCache \<Rightarrow> 'b BufferCache" where
  "bc_read_block block_id d bc = bc\<lparr>bc_block_id := block_id, bc_buffer := d block_id\<rparr>"

text \<open>The pool of a new manager, with whatever the fresh frames hold.\<close>

definition BlockCacheManager_new :: "(nat \<Rightarrow> 'b) \<Rightarrow> 'b BufferCache list" where
  "BlockCacheManager_new mem = map (\<lambda>i. BufferCache_new (mem i)) [0 ..< CACHEPOOLSIZE div 8 * PAGE_BUFFERS]"

definition oom_one :: "'b BufferCache \<Rightarrow> 'b disk \<Rightarrow> 'b BufferCache \<times> 'b disk" where
  "oom_one bc d =
    (if 0 < bc_refs bc then (bc, d)
     else if 0 < bc_priority bc then (bc\<lparr>bc_priority := bc_priority bc - 1\<rparr>, d)
     else (bc\<lparr>bc_block_id := USIZE_MAX\<rparr>, d(bc_block_id bc := bc_buffer bc)))"

fun bcm_oom :: "'b BufferCache list \<Rightarrow> 'b disk \<Rightarrow> 'b cache_state" where
  "bcm_oom [] d = ([], d)"
| "bcm_oom (bc # bcs) d =
    (let (bc', d1) = oom_one bc d; (bcs', d2) = bcm_oom bcs d1 in (bc' # bcs', d2))"

text \<open>The index of the first buffer that holds a block.\<close>

fun find_block :: "nat \<Rightarrow> 'b BufferCache list \<Rightarrow> nat option" where
  "find_block b [] = None"
| "find_block b (bc # bcs) = (if bc_block_id bc = b then Some 0 else map_option Suc (find_block b bcs))"

partial_function (option) alloc_buffer_cache :: "'b cache_state \<Rightarrow> (nat \<times> 'b cache_state) option" where
  "alloc_buffer_cache s =
    (case find_block USIZE_MAX (fst s) of
       Some i \<Rightarrow> Some (i, s)
     | None \<Rightarrow> alloc_buffer_cache (bcm_oom (fst s) (snd s)))"

definition bump :: "'b BufferCache \<Rightarrow> 'b BufferCache" where
  "bump bc = (if bc_priority bc < PRIORITY_UPPERBOUND then bc\<lparr>bc_priority := bc_priority bc + 1\<rparr> else bc)"

definition try_get_block_cache :: "nat \<Rightarrow> 'b BufferCache list \<Rightarrow> (nat \<times> 'b BufferCache list) option" where
  "try_get_block_cache block_id pool =
    (case find_block block_id pool of
       Some i \<Rightarrow> Some (i, pool[i := bump (pool ! i)])
     | None \<Rightarrow> None)"

definition get_block_cache :: "nat \<Rightarrow> 'b cache_state \<Rightarrow> (nat \<times> 'b cache_state) option" where
  "get_block_cache block_id s =
    (case try_get_block_cache block_id (fst s) of
       Some (i, pool) \<Rightarrow> Some (i, (pool, snd s))
     | None \<Rightarrow> do {
         (i, pool, d) \<leftarrow> alloc_buffer_cache s;
         Some (i, (pool[i := bump (bc_read_block block_id d (pool ! i))], d)) })"

text \<open>A read or a modification of a block as the users of the cache do it: get the buffer, apply
  the closure to it and drop the reference.\<close>

definition cache_read :: "nat \<Rightarrow> ('b \<Rightarrow> 'v) \<Rightarrow> 'b cache_state \<Rightarrow> ('v \<times> 'b cache_state) option" where
  "cache_read block_id f s = do {
     (i, s') \<leftarrow> get_block_cache block_id s;
     Some (f (bc_buffer (fst s' ! i)), s') }"

definition cache_modify :: "nat \<Rightarrow> ('b \<Rightarrow> 'b) \<Rightarrow> 'b cache_state \<Rightarrow> 'b cache_state option" where
  "cache_modify block_id f s = do {
     (i, pool, d) \<leftarrow> get_block_cache block_id s;
     Some (pool[i := (pool ! i)\<lparr>bc_buffer := f (bc_buffer (pool ! i))\<rparr>], d) }"

section \<open>A store of blocks\<close>

datatype 'b blk_op = BlkRead nat | BlkModify nat "'b \<Rightarrow> 'b"

fun blk_ids :: "'b blk_op \<Rightarrow> nat" where
  "blk_ids (BlkRead b) = b"
| "blk_ids (BlkModify b f) = b"

text \<open>The reference: blocks in memory.\<close>

fun plain_step :: "'b blk_op \<Rightarrow> 'b disk \<Rightarrow> 'b list \<times> 'b disk" where
  "plain_step (BlkRead b) d = ([d b], d)"
| "plain_step (BlkModify b f) d = ([], d(b := f (d b)))"

fun plain_run :: "'b blk_op list \<Rightarrow> 'b disk \<Rightarrow> 'b list \<times> 'b disk" where
  "plain_run [] d = ([], d)"
| "plain_run (op # ops) d =
    (let (r, d1) = plain_step op d; (rs, d2) = plain_run ops d1 in (r @ rs, d2))"

fun store_run :: "('b blk_op \<Rightarrow> 's \<Rightarrow> ('b list \<times> 's) option) \<Rightarrow> 'b blk_op list \<Rightarrow> 's \<Rightarrow> ('b list \<times> 's) option" where
  "store_run step [] s = Some ([], s)"
| "store_run step (op # ops) s = do {
     (r, s1) \<leftarrow> step op s;
     (rs, s2) \<leftarrow> store_run step ops s1;
     Some (r @ rs, s2) }"

locale block_store =
  fixes invar :: "'s \<Rightarrow> bool"
    and blocks :: "'s \<Rightarrow> nat \<Rightarrow> 'b"
    and step :: "'b blk_op \<Rightarrow> 's \<Rightarrow> ('b list \<times> 's) option"
    and valid :: "nat set"
  assumes step_ok: "invar s \<Longrightarrow> blk_ids op \<in> valid \<Longrightarrow>
      \<exists>s'. step op s = Some (fst (plain_step op (blocks s)), s') \<and> invar s'
        \<and> (\<forall>b \<in> valid. blocks s' b = snd (plain_step op (blocks s)) b)"
begin

lemma plain_step_cong:
  assumes "blk_ids op \<in> valid" and "\<forall>b \<in> valid. d b = e b"
  shows "fst (plain_step op d) = fst (plain_step op e)"
    and "\<forall>b \<in> valid. snd (plain_step op d) b = snd (plain_step op e) b"
  using assms by (cases op; simp)+

lemma plain_run_cong:
  assumes "blk_ids ` set ops \<subseteq> valid" and "\<forall>b \<in> valid. d b = e b"
  shows "fst (plain_run ops d) = fst (plain_run ops e)"
    and "\<forall>b \<in> valid. snd (plain_run ops d) b = snd (plain_run ops e) b"
proof -
  have "fst (plain_run ops d) = fst (plain_run ops e) \<and> (\<forall>b \<in> valid. snd (plain_run ops d) b = snd (plain_run ops e) b)"
    using assms
  proof (induction ops arbitrary: d e)
    case (Cons op ops)
    have "blk_ids op \<in> valid" "blk_ids ` set ops \<subseteq> valid" using Cons.prems(1) by auto
    then show ?case using plain_step_cong [of op d e] Cons.prems(2)
        Cons.IH [of "snd (plain_step op d)" "snd (plain_step op e)"] by (simp add: split_beta)
  qed simp
  then show "fst (plain_run ops d) = fst (plain_run ops e)"
    "\<forall>b \<in> valid. snd (plain_run ops d) b = snd (plain_run ops e) b" by blast+
qed

lemma run_transparent:
  assumes "invar s" and "blk_ids ` set ops \<subseteq> valid"
  shows "\<exists>s'. store_run step ops s = Some (fst (plain_run ops (blocks s)), s') \<and> invar s'
    \<and> (\<forall>b \<in> valid. blocks s' b = snd (plain_run ops (blocks s)) b)"
  using assms
proof (induction ops arbitrary: s)
  case Nil
  then show ?case by simp
next
  case (Cons op ops)
  have v: "blk_ids op \<in> valid" "blk_ids ` set ops \<subseteq> valid" using Cons.prems(2) by auto
  obtain s1 where s1: "step op s = Some (fst (plain_step op (blocks s)), s1)" "invar s1"
    "\<forall>b \<in> valid. blocks s1 b = snd (plain_step op (blocks s)) b" using step_ok [OF Cons.prems(1) v(1)] by blast
  obtain s2 where "store_run step ops s1 = Some (fst (plain_run ops (blocks s1)), s2)" "invar s2"
    "\<forall>b \<in> valid. blocks s2 b = snd (plain_run ops (blocks s1)) b" using Cons.IH [OF s1(2) v(2)] by blast
  then show ?case using s1(1) plain_run_cong [OF v(2) s1(3)] by (simp add: split_beta)
qed

end

section \<open>The pool implements the store\<close>

definition ids_inj :: "'b BufferCache list \<Rightarrow> bool" where
  "ids_inj pool \<longleftrightarrow> (\<forall>i j. i < length pool \<longrightarrow> j < length pool \<longrightarrow> bc_block_id (pool ! i) = bc_block_id (pool ! j)
     \<longrightarrow> bc_block_id (pool ! i) \<noteq> USIZE_MAX \<longrightarrow> i = j)"

definition cache_invar :: "'b cache_state \<Rightarrow> bool" where
  "cache_invar s \<longleftrightarrow> ids_inj (fst s) \<and> (\<exists>bc \<in> set (fst s). bc_refs bc = 0)"

definition cache_blocks :: "'b cache_state \<Rightarrow> nat \<Rightarrow> 'b" where
  "cache_blocks s b = (case find_block b (fst s) of Some i \<Rightarrow> bc_buffer (fst s ! i) | None \<Rightarrow> snd s b)"

text \<open>The blocks the cache holds.\<close>

definition cached_ids :: "'b BufferCache list \<Rightarrow> nat set" where
  "cached_ids pool = bc_block_id ` set pool - {USIZE_MAX}"

definition cache_step :: "'b blk_op \<Rightarrow> 'b cache_state \<Rightarrow> ('b list \<times> 'b cache_state) option" where
  "cache_step op s =
    (case op of
       BlkRead b \<Rightarrow> map_option (\<lambda>(v, s'). ([v], s')) (cache_read b id s)
     | BlkModify b f \<Rightarrow> map_option (Pair []) (cache_modify b f s))"

lemma find_block_SomeD: "find_block b pool = Some i \<Longrightarrow> i < length pool \<and> bc_block_id (pool ! i) = b"
  by (induction pool arbitrary: i) (auto split: if_splits)

lemma find_block_None_iff: "find_block b pool = None \<longleftrightarrow> (\<forall>bc \<in> set pool. bc_block_id bc \<noteq> b)"
  by (induction pool) auto

lemma cache_blocks_cached:
  assumes "ids_inj pool" and "i < length pool" and "bc_block_id (pool ! i) = b" and "b \<noteq> USIZE_MAX"
  shows "find_block b pool = Some i"
proof -
  obtain j where j: "find_block b pool = Some j"
    using assms(2,3) find_block_None_iff [of b pool] by (cases "find_block b pool") auto
  then have "j = i" using find_block_SomeD [OF j] assms unfolding ids_inj_def by metis
  then show ?thesis using j by simp
qed

lemma ids_inj_Cons:
  "ids_inj (bc # bcs) \<longleftrightarrow> ids_inj bcs \<and> (bc_block_id bc = USIZE_MAX \<or> (\<forall>x \<in> set bcs. bc_block_id x \<noteq> bc_block_id bc))"
proof -
  have "ids_inj (bc # bcs) \<longleftrightarrow>
    ids_inj bcs \<and> (\<forall>j < length bcs. bc_block_id (bcs ! j) = bc_block_id bc \<longrightarrow> bc_block_id bc = USIZE_MAX)"
    unfolding ids_inj_def by (simp add: All_less_Suc2 nth_Cons' all_conj_distrib) (auto simp: gr0_conv_Suc)
  then show ?thesis unfolding all_set_conv_all_nth by blast
qed

lemma oom_one_cases:
  obtains (keep) bc' where "oom_one bc d = (bc', d)" "bc_block_id bc' = bc_block_id bc" "bc_buffer bc' = bc_buffer bc"
  | (evict) "oom_one bc d = (bc\<lparr>bc_block_id := USIZE_MAX\<rparr>, d(bc_block_id bc := bc_buffer bc))"
proof -
  consider "0 < bc_refs bc" | "bc_refs bc = 0" "0 < bc_priority bc" | "bc_refs bc = 0" "bc_priority bc = 0" by blast
  then show ?thesis
  proof cases
    case 1
    then show ?thesis by (intro keep [of bc]) (simp_all add: oom_one_def)
  next
    case 2
    then show ?thesis by (intro keep [of "bc\<lparr>bc_priority := bc_priority bc - 1\<rparr>"]) (simp_all add: oom_one_def)
  next
    case 3
    then show ?thesis by (intro evict) (simp add: oom_one_def)
  qed
qed

text \<open>Writing back keeps the blocks, the uniqueness of block numbers and the references; an
  unreferenced buffer becomes unused or loses priority.\<close>

lemma bcm_oom_length: "length (fst (bcm_oom pool d)) = length pool"
  by (induction pool arbitrary: d) (auto simp: split_beta)

lemma bcm_oom_ids:
  "\<forall>x \<in> set (fst (bcm_oom pool d)). bc_block_id x = USIZE_MAX \<or> (\<exists>y \<in> set pool. bc_block_id y = bc_block_id x)"
proof (induction pool arbitrary: d)
  case (Cons bc pool)
  show ?case by (rule oom_one_cases [of bc d]) (use Cons in \<open>auto simp: split_beta\<close>)
qed simp

lemma bcm_oom_inj: "ids_inj pool \<Longrightarrow> ids_inj (fst (bcm_oom pool d))"
proof (induction pool arbitrary: d)
  case (Cons bc pool)
  then have IH: "ids_inj (fst (bcm_oom pool d'))" for d' by (simp add: ids_inj_Cons)
  have ids: "\<forall>x \<in> set (fst (bcm_oom pool d')). bc_block_id x = USIZE_MAX \<or> (\<exists>y \<in> set pool. bc_block_id y = bc_block_id x)" for d'
    by (rule bcm_oom_ids)
  have inj: "bc_block_id bc = USIZE_MAX \<or> (\<forall>x \<in> set pool. bc_block_id x \<noteq> bc_block_id bc)"
    using Cons.prems by (simp add: ids_inj_Cons)
  show ?case
  proof (rule oom_one_cases [of bc d])
    fix bc' assume *: "oom_one bc d = (bc', d)" "bc_block_id bc' = bc_block_id bc"
    have "bc_block_id bc = USIZE_MAX \<or> (\<forall>x \<in> set (fst (bcm_oom pool d)). bc_block_id x \<noteq> bc_block_id bc)"
      using ids [of d] inj by fastforce
    then show ?thesis using * IH by (simp add: split_beta ids_inj_Cons)
  next
    assume "oom_one bc d = (bc\<lparr>bc_block_id := USIZE_MAX\<rparr>, d(bc_block_id bc := bc_buffer bc))"
    then show ?thesis using IH by (simp add: split_beta ids_inj_Cons)
  qed
qed simp

lemma cache_blocks_Cons:
  "cache_blocks (bc # bcs, d) b = (if bc_block_id bc = b then bc_buffer bc else cache_blocks (bcs, d) b)"
  by (auto simp: cache_blocks_def split: option.splits)

lemma cache_blocks_disk:
  assumes "\<forall>x \<in> set bcs. bc_block_id x \<noteq> k"
  shows "cache_blocks (bcs, d(k := v)) b = (if b = k then v else cache_blocks (bcs, d) b)"
  using assms find_block_None_iff [of k bcs] by (auto simp: cache_blocks_def split: option.splits)

lemma bcm_oom_blocks:
  assumes "ids_inj pool" and "b \<noteq> USIZE_MAX"
  shows "cache_blocks (bcm_oom pool d) b = cache_blocks (pool, d) b"
  using assms(1)
proof (induction pool arbitrary: d)
  case (Cons bc pool)
  have IH: "cache_blocks (bcm_oom pool d') b = cache_blocks (pool, d') b" for d' using Cons by (simp add: ids_inj_Cons)
  then have tail: "cache_blocks (fst (bcm_oom pool d'), snd (bcm_oom pool d')) b = cache_blocks (pool, d') b" for d' by simp
  have inj: "bc_block_id bc = USIZE_MAX \<or> (\<forall>x \<in> set pool. bc_block_id x \<noteq> bc_block_id bc)"
    using Cons.prems by (simp add: ids_inj_Cons)
  show ?case
  proof (rule oom_one_cases [of bc d])
    fix bc' assume "oom_one bc d = (bc', d)" "bc_block_id bc' = bc_block_id bc" "bc_buffer bc' = bc_buffer bc"
    then show ?thesis using tail [of d] by (simp add: split_beta cache_blocks_Cons)
  next
    assume o: "oom_one bc d = (bc\<lparr>bc_block_id := USIZE_MAX\<rparr>, d(bc_block_id bc := bc_buffer bc))"
    have "cache_blocks (pool, d(bc_block_id bc := bc_buffer bc)) b =
      (if b = bc_block_id bc then bc_buffer bc else cache_blocks (pool, d) b)"
    proof (cases "bc_block_id bc = USIZE_MAX")
      case True
      then show ?thesis using assms(2) by (simp add: cache_blocks_def split: option.splits)
    next
      case False
      then show ?thesis using inj by (intro cache_blocks_disk) simp
    qed
    then show ?thesis using o tail [of "d(bc_block_id bc := bc_buffer bc)"] assms(2)
      by (auto simp: split_beta cache_blocks_Cons)
  qed
qed simp

lemma bcm_oom_nth:
  assumes "i < length pool" and "bc_refs (pool ! i) = 0"
  shows "bc_refs (fst (bcm_oom pool d) ! i) = 0"
    and "bc_block_id (fst (bcm_oom pool d) ! i) = USIZE_MAX
      \<or> bc_priority (fst (bcm_oom pool d) ! i) < bc_priority (pool ! i)"
proof -
  have "bc_refs (fst (bcm_oom pool d) ! i) = 0 \<and> (bc_block_id (fst (bcm_oom pool d) ! i) = USIZE_MAX
      \<or> bc_priority (fst (bcm_oom pool d) ! i) < bc_priority (pool ! i))"
    using assms
  proof (induction pool arbitrary: d i)
    case (Cons bc pool)
    show ?case
    proof (cases i)
      case 0
      then show ?thesis using Cons.prems(2) by (auto simp: split_beta oom_one_def)
    next
      case (Suc j)
      then show ?thesis using Cons.IH [of j] Cons.prems by (simp add: split_beta)
    qed
  qed simp
  then show "bc_refs (fst (bcm_oom pool d) ! i) = 0" "bc_block_id (fst (bcm_oom pool d) ! i) = USIZE_MAX
      \<or> bc_priority (fst (bcm_oom pool d) ! i) < bc_priority (pool ! i)" by blast+
qed

text \<open>An unreferenced buffer of priority \<open>n\<close> bounds the search to \<open>n + 2\<close> rounds.\<close>

lemma alloc_buffer_cache_ok:
  assumes "ids_inj pool" and "i < length pool" and "bc_refs (pool ! i) = 0"
  shows "\<exists>k pool' d'. alloc_buffer_cache (pool, d) = Some (k, (pool', d')) \<and> k < length pool'
    \<and> bc_block_id (pool' ! k) = USIZE_MAX \<and> ids_inj pool' \<and> i < length pool' \<and> bc_refs (pool' ! i) = 0
    \<and> (\<forall>x \<in> set pool'. bc_block_id x = USIZE_MAX \<or> (\<exists>y \<in> set pool. bc_block_id y = bc_block_id x))
    \<and> (\<forall>b. b \<noteq> USIZE_MAX \<longrightarrow> cache_blocks (pool', d') b = cache_blocks (pool, d) b)"
  using assms
proof (induction "bc_priority (pool ! i)" arbitrary: pool d rule: less_induct)
  case less
  note inj = less.prems(1) and i = less.prems(2,3)
  obtain p d' where oom: "bcm_oom pool d = (p, d')" by (cases "bcm_oom pool d")
  show ?case
  proof (cases "find_block USIZE_MAX pool")
    case (Some k)
    then show ?thesis using find_block_SomeD [OF Some] less.prems
      by (auto simp: alloc_buffer_cache.simps [of "(pool, d)"])
  next
    case None
    then have step: "alloc_buffer_cache (pool, d) = alloc_buffer_cache (p, d')"
      by (simp add: alloc_buffer_cache.simps [of "(pool, d)"] oom)
    have p: "ids_inj p" "i < length p" "bc_refs (p ! i) = 0"
      using bcm_oom_inj [OF inj, of d] i bcm_oom_nth(1) [OF i, of d] bcm_oom_length [of pool d] by (simp_all add: oom)
    have keep: "cache_blocks (p, d') b = cache_blocks (pool, d) b" if "b \<noteq> USIZE_MAX" for b
      using bcm_oom_blocks [OF inj that, of d] by (simp add: oom)
    have ids: "\<forall>x \<in> set p. bc_block_id x = USIZE_MAX \<or> (\<exists>y \<in> set pool. bc_block_id y = bc_block_id x)"
      using bcm_oom_ids [of pool d] by (simp add: oom)
    show ?thesis
    proof (cases "bc_block_id (p ! i) = USIZE_MAX")
      case True
      then obtain k where k: "find_block USIZE_MAX p = Some k"
        using p(2) find_block_None_iff [of USIZE_MAX p] by (cases "find_block USIZE_MAX p") auto
      then have "alloc_buffer_cache (p, d') = Some (k, (p, d'))"
        by (simp add: alloc_buffer_cache.simps [of "(p, d')"])
      then show ?thesis using find_block_SomeD [OF k] p keep step ids by simp
    next
      case False
      then have "bc_priority (p ! i) < bc_priority (pool ! i)" using bcm_oom_nth(2) [OF i, of d] by (simp add: oom)
      from less.hyps [OF this p, of d'] obtain k pool' d'' where a: "alloc_buffer_cache (p, d') = Some (k, (pool', d''))"
        "k < length pool'" "bc_block_id (pool' ! k) = USIZE_MAX" "ids_inj pool'" "i < length pool'" "bc_refs (pool' ! i) = 0"
        "\<forall>x \<in> set pool'. bc_block_id x = USIZE_MAX \<or> (\<exists>y \<in> set p. bc_block_id y = bc_block_id x)"
        "\<And>b. b \<noteq> USIZE_MAX \<Longrightarrow> cache_blocks (pool', d'') b = cache_blocks (p, d') b" by blast
      have "\<forall>x \<in> set pool'. bc_block_id x = USIZE_MAX \<or> (\<exists>y \<in> set pool. bc_block_id y = bc_block_id x)"
        using a(7) ids by metis
      then show ?thesis using a(1-6,8) keep step by simp
    qed
  qed
qed

lemma bump_simps [simp]:
  "bc_block_id (bump bc) = bc_block_id bc" "bc_buffer (bump bc) = bc_buffer bc" "bc_refs (bump bc) = bc_refs bc"
  by (simp_all add: bump_def)

lemma nth_update_lt: "j < length xs \<Longrightarrow> xs[k := x] ! j = (if k = j then x else xs ! j)"
  by (cases "k = j") simp_all

lemma ids_injD:
  "ids_inj pool \<Longrightarrow> i < length pool \<Longrightarrow> j < length pool \<Longrightarrow> bc_block_id (pool ! i) = bc_block_id (pool ! j) \<Longrightarrow>
    bc_block_id (pool ! i) \<noteq> USIZE_MAX \<Longrightarrow> i = j"
  unfolding ids_inj_def by blast

lemma ids_inj_update:
  assumes "ids_inj pool" and "bc_block_id bc = bc_block_id (pool ! k)"
  shows "ids_inj (pool[k := bc])"
proof -
  have "bc_block_id ((pool[k := bc]) ! i) = bc_block_id (pool ! i)" if "i < length pool" for i
    using assms(2) that by (simp add: nth_update_lt)
  then show ?thesis using ids_injD [OF assms(1)] unfolding ids_inj_def length_list_update by simp
qed

lemma ids_inj_load:
  assumes "ids_inj pool" and "\<forall>i < length pool. bc_block_id (pool ! i) \<noteq> bc_block_id bc"
  shows "ids_inj (pool[k := bc])"
  unfolding ids_inj_def length_list_update
proof (intro allI impI)
  fix i j
  assume i: "i < length pool" and j: "j < length pool"
    and eq: "bc_block_id ((pool[k := bc]) ! i) = bc_block_id ((pool[k := bc]) ! j)"
    and max: "bc_block_id ((pool[k := bc]) ! i) \<noteq> USIZE_MAX"
  show "i = j"
  proof (cases "i = k \<or> j = k")
    case True
    then show ?thesis using eq assms(2) i j by (auto simp: nth_update_lt split: if_splits)
  next
    case False
    then show ?thesis using ids_injD [OF assms(1) i j] eq max i j by (simp add: nth_update_lt)
  qed
qed

lemma cache_blocks_update:
  assumes inj: "ids_inj (pool[k := bc])" and k: "k < length pool" and id: "bc_block_id bc \<noteq> USIZE_MAX"
    and old: "bc_block_id (pool ! k) = bc_block_id bc \<or> bc_block_id (pool ! k) = USIZE_MAX"
    and inj0: "ids_inj pool" and b: "b \<noteq> USIZE_MAX"
  shows "cache_blocks (pool[k := bc], d) b = (if b = bc_block_id bc then bc_buffer bc else cache_blocks (pool, d) b)"
proof (cases "b = bc_block_id bc")
  case True
  have "find_block b (pool[k := bc]) = Some k" using inj k id True by (intro cache_blocks_cached) simp_all
  then show ?thesis using True k by (simp add: cache_blocks_def)
next
  case False
  have same: "bc_block_id ((pool[k := bc]) ! j) = b \<longleftrightarrow> bc_block_id (pool ! j) = b" if "j < length pool" for j
    using False old b that by (auto simp: nth_update_lt split: if_splits)
  show ?thesis
  proof (cases "find_block b pool")
    case None
    then have "\<forall>j < length pool. bc_block_id (pool ! j) \<noteq> b" by (simp add: find_block_None_iff)
    then have "find_block b (pool[k := bc]) = None" using same unfolding find_block_None_iff all_set_conv_all_nth by simp
    then show ?thesis using None False by (simp add: cache_blocks_def)
  next
    case (Some j)
    note j = find_block_SomeD [OF Some]
    have "find_block b (pool[k := bc]) = Some j" using inj j same b by (intro cache_blocks_cached) simp_all
    moreover have "j \<noteq> k" using j False old b by auto
    ultimately show ?thesis using Some False by (simp add: cache_blocks_def)
  qed
qed

lemma get_block_cache_ok:
  assumes inv: "cache_invar (pool, d)" and b: "b \<noteq> USIZE_MAX"
  shows "\<exists>i pool' d'. get_block_cache b (pool, d) = Some (i, (pool', d')) \<and> cache_invar (pool', d')
    \<and> i < length pool' \<and> bc_block_id (pool' ! i) = b \<and> bc_buffer (pool' ! i) = cache_blocks (pool, d) b
    \<and> cached_ids pool' \<subseteq> insert b (cached_ids pool)
    \<and> (\<forall>c. c \<noteq> USIZE_MAX \<longrightarrow> cache_blocks (pool', d') c = cache_blocks (pool, d) c)"
proof -
  have inj: "ids_inj pool" using inv by (simp add: cache_invar_def)
  obtain r where r: "r < length pool" "bc_refs (pool ! r) = 0"
    using inv by (auto simp: cache_invar_def in_set_conv_nth)
  show ?thesis
  proof (cases "find_block b pool")
    case (Some i)
    note i = find_block_SomeD [OF Some]
    let ?pool = "pool[i := bump (pool ! i)]"
    have inj': "ids_inj ?pool" using inj by (rule ids_inj_update) simp
    have "bc_refs (?pool ! r) = 0" using r by (cases "i = r") simp_all
    then have "cache_invar (?pool, d)" using inj' r(1) by (auto simp: cache_invar_def in_set_conv_nth intro!: bexI [of _ "?pool ! r"])
    moreover have "cache_blocks (?pool, d) c = cache_blocks (pool, d) c" if "c \<noteq> USIZE_MAX" for c
      using cache_blocks_update [OF inj' _ _ _ inj that] i b Some by (simp add: cache_blocks_def)
    moreover have "cached_ids ?pool \<subseteq> insert b (cached_ids pool)"
      using i set_update_subset_insert [of pool i "bump (pool ! i)"] by (auto simp: cached_ids_def)
    ultimately show ?thesis using i Some by (simp add: get_block_cache_def try_get_block_cache_def cache_blocks_def)
  next
    case None
    obtain k p d' where a: "alloc_buffer_cache (pool, d) = Some (k, (p, d'))" "k < length p"
      "bc_block_id (p ! k) = USIZE_MAX" "ids_inj p" "r < length p" "bc_refs (p ! r) = 0"
      "\<forall>x \<in> set p. bc_block_id x = USIZE_MAX \<or> (\<exists>y \<in> set pool. bc_block_id y = bc_block_id x)"
      "\<And>c. c \<noteq> USIZE_MAX \<Longrightarrow> cache_blocks (p, d') c = cache_blocks (pool, d) c"
      using alloc_buffer_cache_ok [OF inj r] by blast
    let ?bc = "bump (bc_read_block b d' (p ! k))" and ?p = "p[k := bump (bc_read_block b d' (p ! k))]"
    have "\<forall>x \<in> set p. bc_block_id x \<noteq> b"
      using a(7) None b unfolding find_block_None_iff by metis
    then have miss: "\<forall>i < length p. bc_block_id (p ! i) \<noteq> b" and nf: "find_block b p = None"
      by (simp_all add: find_block_None_iff)
    have new: "bc_block_id ?bc = b" "bc_buffer ?bc = d' b" "bc_refs ?bc = bc_refs (p ! k)" by (simp_all add: bc_read_block_def)
    have inj': "ids_inj ?p" using a(4) miss new(1) by (intro ids_inj_load) simp_all
    have "d' b = cache_blocks (pool, d) b" using a(8) [OF b] nf by (simp add: cache_blocks_def)
    moreover have "cache_blocks (?p, d') c = cache_blocks (pool, d) c" if "c \<noteq> USIZE_MAX" for c
      using cache_blocks_update [OF inj' a(2) _ _ a(4) that, of d'] a(3,8) that b new calculation by simp
    moreover have "bc_refs (?p ! r) = 0" using a(2,5,6) new(3) by (cases "k = r") simp_all
    then have "cache_invar (?p, d')"
      using inj' a(5) by (auto simp: cache_invar_def in_set_conv_nth intro!: bexI [of _ "?p ! r"])
    moreover have "get_block_cache b (pool, d) = Some (k, (?p, d'))"
      using None a(1) by (simp add: get_block_cache_def try_get_block_cache_def)
    moreover have "cached_ids ?p \<subseteq> insert b (cached_ids pool)"
    proof -
      have "set ?p \<subseteq> insert ?bc (set p)" by (rule set_update_subset_insert)
      then have "bc_block_id ` set ?p \<subseteq> insert b (bc_block_id ` set p)" using new(1) by auto
      moreover have "bc_block_id ` set p \<subseteq> insert USIZE_MAX (bc_block_id ` set pool)" 
        using a(7) by (metis (no_types, lifting) image_subsetI insertCI imageI)
      ultimately show ?thesis by (auto simp: cached_ids_def)
    qed
    ultimately show ?thesis using a(2) new by (intro exI [of _ k] exI [of _ ?p] exI [of _ d']) simp
  qed
qed

lemma cache_modify_blocks:
  assumes inv: "cache_invar (pool, d)" and i: "i < length pool" "bc_block_id (pool ! i) = b" and b: "b \<noteq> USIZE_MAX"
    and bc_def: "bc = (pool ! i)\<lparr>bc_buffer := x\<rparr>"
  shows "cache_invar (pool[i := bc], d)"
    and "c \<noteq> USIZE_MAX \<Longrightarrow> cache_blocks (pool[i := bc], d) c = (if c = b then x else cache_blocks (pool, d) c)"
proof -
  have inj: "ids_inj pool" using inv by (simp add: cache_invar_def)
  obtain r where r: "r < length pool" "bc_refs (pool ! r) = 0"
    using inv by (auto simp: cache_invar_def in_set_conv_nth)
  have inj': "ids_inj (pool[i := bc])" using inj by (rule ids_inj_update) (simp add: bc_def)
  have "bc_refs (pool[i := bc] ! r) = 0" using r by (cases "i = r") (simp_all add: bc_def)
  then show "cache_invar (pool[i := bc], d)"
    using inj' r(1) by (auto simp: cache_invar_def in_set_conv_nth intro!: bexI [of _ "pool[i := bc] ! r"])
  show "cache_blocks (pool[i := bc], d) c = (if c = b then x else cache_blocks (pool, d) c)" if "c \<noteq> USIZE_MAX"
    using cache_blocks_update [OF inj' i(1) _ _ inj that, of d] i(2) b by (simp add: bc_def)
qed

lemma cache_read_ok:
  assumes "cache_invar s" and "b \<noteq> USIZE_MAX"
  shows "\<exists>s'. cache_read b f s = Some (f (cache_blocks s b), s') \<and> cache_invar s'
    \<and> cached_ids (fst s') \<subseteq> insert b (cached_ids (fst s))
    \<and> (\<forall>c. c \<noteq> USIZE_MAX \<longrightarrow> cache_blocks s' c = cache_blocks s c)"
proof -
  obtain pool d where s: "s = (pool, d)" by (cases s)
  show ?thesis using get_block_cache_ok [of pool d b] assms by (auto simp: s cache_read_def)
qed

lemma cache_modify_ok:
  assumes "cache_invar s" and "b \<noteq> USIZE_MAX"
  shows "\<exists>s'. cache_modify b f s = Some s' \<and> cache_invar s'
    \<and> cached_ids (fst s') \<subseteq> insert b (cached_ids (fst s))
    \<and> (\<forall>c. c \<noteq> USIZE_MAX \<longrightarrow> cache_blocks s' c = (if c = b then f (cache_blocks s b) else cache_blocks s c))"
proof -
  obtain pool d where s: "s = (pool, d)" by (cases s)
  obtain i p d' where g: "get_block_cache b (pool, d) = Some (i, (p, d'))" "cache_invar (p, d')" "i < length p"
    "bc_block_id (p ! i) = b" "bc_buffer (p ! i) = cache_blocks (pool, d) b" "cached_ids p \<subseteq> insert b (cached_ids pool)"
    "\<And>c. c \<noteq> USIZE_MAX \<Longrightarrow> cache_blocks (p, d') c = cache_blocks (pool, d) c"
    using get_block_cache_ok [of pool d b] assms by (auto simp: s)
  let ?bc = "(p ! i)\<lparr>bc_buffer := f (cache_blocks (pool, d) b)\<rparr>"
  have "set (p[i := ?bc]) \<subseteq> insert ?bc (set p)" by (rule set_update_subset_insert)
  then have "bc_block_id ` set (p[i := ?bc]) \<subseteq> insert b (bc_block_id ` set p)" using g(4) by auto
  then have "cached_ids (p[i := ?bc]) \<subseteq> insert b (cached_ids p)" by (auto simp: cached_ids_def)
  then have "cached_ids (p[i := ?bc]) \<subseteq> insert b (cached_ids pool)" using g(6) by blast
  then show ?thesis using cache_modify_blocks [OF g(2-4) assms(2) refl, where x = "f (cache_blocks (pool, d) b)"] g(1,5,7)
    by (simp add: s cache_modify_def)
qed

interpretation bcm: block_store cache_invar cache_blocks cache_step "{b. b \<noteq> USIZE_MAX}"
proof
  fix s :: "'a cache_state" and op :: "'a blk_op"
  assume inv: "cache_invar s" and op: "blk_ids op \<in> {b. b \<noteq> USIZE_MAX}"
  show "\<exists>s'. cache_step op s = Some (fst (plain_step op (cache_blocks s)), s') \<and> cache_invar s'
    \<and> (\<forall>b \<in> {b. b \<noteq> USIZE_MAX}. cache_blocks s' b = snd (plain_step op (cache_blocks s)) b)"
  proof (cases op)
    case (BlkRead b)
    then show ?thesis using cache_read_ok [OF inv, of b id] op by (auto simp: cache_step_def)
  next
    case (BlkModify b f)
    then show ?thesis using cache_modify_ok [OF inv, of b f] op by (auto simp: cache_step_def)
  qed
qed

section \<open>Properties\<close>

text \<open>C22: the block cache is transparent.  As long as one buffer of the pool is not referenced
  from outside, every sequence of reads and modifications of blocks through the cache
  terminates, returns what reading and modifying the blocks in place would return, and
  leaves the same blocks, whatever is evicted and written back in between.\<close>

theorem block_cache_transparent:
  assumes "cache_invar s" and "USIZE_MAX \<notin> blk_ids ` set ops"
  shows "\<exists>s'. store_run cache_step ops s = Some (fst (plain_run ops (cache_blocks s)), s') \<and> cache_invar s'
    \<and> (\<forall>b. b \<noteq> USIZE_MAX \<longrightarrow> cache_blocks s' b = snd (plain_run ops (cache_blocks s)) b)"
  using bcm.run_transparent [OF assms(1), of ops] assms(2) by auto

lemma cache_invar_new: "cache_invar (BlockCacheManager_new mem, d)"
proof -
  have len: "length (BlockCacheManager_new mem) = 16"
    by (simp add: BlockCacheManager_new_def CACHEPOOLSIZE_def PAGE_BUFFERS_def)
  have nth: "BlockCacheManager_new mem ! i = BufferCache_new (mem i)" if "i < 16" for i
    using that by (simp add: BlockCacheManager_new_def CACHEPOOLSIZE_def PAGE_BUFFERS_def)
  have "ids_inj (BlockCacheManager_new mem)" unfolding ids_inj_def len by (simp add: nth BufferCache_new_def)
  moreover have "BufferCache_new (mem 0) \<in> set (BlockCacheManager_new mem)"
    using nth [of 0] len nth_mem [of 0 "BlockCacheManager_new mem"] by simp
  ultimately show "cache_invar (BlockCacheManager_new mem, d)"
    by (auto simp: cache_invar_def BufferCache_new_def intro!: bexI)
qed

theorem block_cache_transparent_witness:
  "\<exists>s'. store_run cache_step [BlkModify 7 (\<lambda>x. x + 1), BlkRead 7] (BlockCacheManager_new (\<lambda>_. 0), \<lambda>b. b) =
      Some (fst (plain_run [BlkModify 7 (\<lambda>x. x + 1), BlkRead 7] (cache_blocks (BlockCacheManager_new (\<lambda>_. 0), \<lambda>b. b))), s')
    \<and> cache_invar s'
    \<and> (\<forall>b. b \<noteq> USIZE_MAX \<longrightarrow> cache_blocks s' b =
      snd (plain_run [BlkModify 7 (\<lambda>x. x + 1), BlkRead 7] (cache_blocks (BlockCacheManager_new (\<lambda>_. 0), \<lambda>b. b))) b)"
  by (rule block_cache_transparent [OF cache_invar_new]) (simp add: USIZE_MAX_def)

end
