(* ===== verification/Fat.thy ===== *)
theory Fat
  imports Block_Cache
begin

unbundle bit_operations_syntax

text \<open>
  \<^verbatim>\<open>kernel/src/fs/fat32/bitmap.rs\<close>, the file allocation table: following chains of clusters,
  allocating and freeing clusters, on top of the block cache.  A block is a list of 512
  bytes; an entry is four bytes, little endian.  \<open>None\<close> is a panic or a chain that never
  ends.  An access beyond the buffer, which a release build does not check, is a panic.
\<close>

section \<open>Words in a block\<close>

definition read_u32 :: "nat \<Rightarrow> u8 list \<Rightarrow> u32" where
  "read_u32 off blk = ucast (blk ! off) OR push_bit 8 (ucast (blk ! (off + 1)))
     OR push_bit 16 (ucast (blk ! (off + 2))) OR push_bit 24 (ucast (blk ! (off + 3)))"

definition write_u32 :: "nat \<Rightarrow> u32 \<Rightarrow> u8 list \<Rightarrow> u8 list" where
  "write_u32 off v blk = blk[off := ucast v, off + 1 := ucast (drop_bit 8 v),
     off + 2 := ucast (drop_bit 16 v), off + 3 := ucast (drop_bit 24 v)]"

lemma length_write_u32 [simp]: "length (write_u32 off v blk) = length blk"
  by (simp add: write_u32_def)

lemma u32_bytes:
  "(ucast (ucast v :: u8) :: u32) OR push_bit 8 (ucast (ucast (drop_bit 8 v) :: u8))
     OR push_bit 16 (ucast (ucast (drop_bit 16 v) :: u8)) OR push_bit 24 (ucast (ucast (drop_bit 24 v) :: u8)) = v"
proof (rule bit_word_eqI)
  fix n assume "n < LENGTH(32)"
  then show "bit ((ucast (ucast v :: u8) :: u32) OR push_bit 8 (ucast (ucast (drop_bit 8 v) :: u8))
     OR push_bit 16 (ucast (ucast (drop_bit 16 v) :: u8)) OR push_bit 24 (ucast (ucast (drop_bit 24 v) :: u8))) n = bit v n"
    by (cases "n < 24"; cases "n < 16") (auto simp: bit_simps)
qed

lemma read_write_u32: "off + 4 \<le> length blk \<Longrightarrow> read_u32 off (write_u32 off v blk) = v"
  by (simp add: read_u32_def write_u32_def u32_bytes)

lemma read_write_u32_other:
  "off' + 4 \<le> off \<or> off + 4 \<le> off' \<Longrightarrow> read_u32 off' (write_u32 off v blk) = read_u32 off' blk"
  by (auto simp: read_u32_def write_u32_def)

section \<open>The table\<close>

definition VACANT_CLUS_CACHE_SIZE :: nat where "VACANT_CLUS_CACHE_SIZE = 64"
definition FAT_ENTRY_FREE :: u32 where "FAT_ENTRY_FREE = 0"
definition FAT_ENTRY_RESERVED_TO_END :: u32 where "FAT_ENTRY_RESERVED_TO_END = 0x0FFFFFF8"
definition EOC :: u32 where "EOC = 0x0FFFFFFF"
definition BAD_BLOCK :: u32 where "BAD_BLOCK = 0x0FFFFFF7"

record Fat =
  start_block_id :: nat
  byts_per_sec :: nat
  tot_ent :: nat
  vacant_clus :: "u32 list"
  hint :: nat

type_synonym fat_disk = "u8 list cache_state"

definition Fat_new :: "nat \<Rightarrow> nat \<Rightarrow> nat \<Rightarrow> Fat" where
  "Fat_new rsvd_sec_cnt bps clus =
    \<lparr>start_block_id = rsvd_sec_cnt, byts_per_sec = bps, tot_ent = clus, vacant_clus = [], hint = 0\<rparr>"

definition this_fat_sec_num :: "Fat \<Rightarrow> u32 \<Rightarrow> nat run" where
  "this_fat_sec_num fat clus_num = do {
     rust_assert ((of_nat (byts_per_sec fat) :: u32) \<noteq> 0);
     ret (unat ((of_nat (start_block_id fat) :: u32) + (clus_num * 4) div of_nat (byts_per_sec fat))) }"

definition this_fat_ent_offset :: "Fat \<Rightarrow> u32 \<Rightarrow> nat run" where
  "this_fat_ent_offset fat clus_num = do {
     rust_assert ((of_nat (byts_per_sec fat) :: u32) \<noteq> 0);
     ret (unat ((clus_num * 4) mod of_nat (byts_per_sec fat))) }"

definition get_next_clus_num :: "Fat \<Rightarrow> u32 \<Rightarrow> fat_disk \<Rightarrow> (u32 \<times> fat_disk) run" where
  "get_next_clus_num fat current_clus_num st = do {
     sec \<leftarrow> this_fat_sec_num fat current_clus_num;
     off \<leftarrow> this_fat_ent_offset fat current_clus_num;
     rust_assert (off + 4 \<le> BUFFER_SIZE);
     (v, st') \<leftarrow> cache_read sec (read_u32 off) st;
     ret (v AND EOC, st') }"

definition chain_end :: "u32 \<Rightarrow> bool" where
  "chain_end next \<longleftrightarrow> next = BAD_BLOCK \<or> next = FAT_ENTRY_FREE \<or> FAT_ENTRY_RESERVED_TO_END \<le> next"

partial_function (option) get_all_clus_num :: "Fat \<Rightarrow> u32 \<Rightarrow> fat_disk \<Rightarrow> (u32 list \<times> fat_disk) run" where
  "get_all_clus_num fat current st = do {
     (next, st') \<leftarrow> get_next_clus_num fat current st;
     if chain_end next then Some ([current], st')
     else do {
       (v, st'') \<leftarrow> get_all_clus_num fat next st';
       Some (current # v, st'') } }"

definition set_next_clus :: "Fat \<Rightarrow> u32 option \<Rightarrow> u32 \<Rightarrow> fat_disk \<Rightarrow> fat_disk run" where
  "set_next_clus fat current next st =
    (case current of
       None \<Rightarrow> ret st
     | Some c \<Rightarrow> do {
         sec \<leftarrow> this_fat_sec_num fat c;
         off \<leftarrow> this_fat_ent_offset fat c;
         rust_assert (off + 4 \<le> BUFFER_SIZE);
         cache_modify sec (write_u32 off next) st })"

fun find_free :: "Fat \<Rightarrow> nat list \<Rightarrow> fat_disk \<Rightarrow> (u32 option \<times> fat_disk) run" where
  "find_free fat [] st = ret (None, st)"
| "find_free fat (clus_id # ids) st = do {
     (v, st') \<leftarrow> get_next_clus_num fat (of_nat clus_id) st;
     if v = FAT_ENTRY_FREE then ret (Some (of_nat clus_id), st') else find_free fat ids st' }"

definition get_next_free_clus :: "Fat \<Rightarrow> u32 \<Rightarrow> fat_disk \<Rightarrow> (u32 option \<times> fat_disk) run" where
  "get_next_free_clus fat start st = do {
     (r, st1) \<leftarrow> find_free fat [unat start ..< unat (of_nat (tot_ent fat) :: u32)] st;
     (case r of
        Some c \<Rightarrow> ret (Some c, st1)
      | None \<Rightarrow> find_free fat [0 ..< unat start] st1) }"

definition alloc_one :: "u32 option \<Rightarrow> Fat \<times> fat_disk \<Rightarrow> (u32 option \<times> Fat \<times> fat_disk) run" where
  "alloc_one prev = (\<lambda>(fat, st). do {
     st0 \<leftarrow> (case prev of None \<Rightarrow> ret st | Some l \<Rightarrow> do { (_, st0) \<leftarrow> get_next_clus_num fat l st; ret st0 });
     (case vec_pop (vacant_clus fat) of
        Some (free_clus_id, rest) \<Rightarrow> do {
          st1 \<leftarrow> set_next_clus fat prev free_clus_id st0;
          ret (Some free_clus_id, fat\<lparr>vacant_clus := rest\<rparr>, st1) }
      | None \<Rightarrow> do {
          (r, st1) \<leftarrow> get_next_free_clus fat (of_nat (hint fat)) st0;
          (case r of
             None \<Rightarrow> ret (None, fat, st1)
           | Some free_clus_id \<Rightarrow> do {
               rust_assert (tot_ent fat \<noteq> 0);
               let fat' = fat\<lparr>hint := unat (free_clus_id + 1) mod tot_ent fat\<rparr>;
               st2 \<leftarrow> set_next_clus fat' prev free_clus_id st1;
               ret (Some free_clus_id, fat', st2) }) }) })"

fun alloc_loop :: "nat \<Rightarrow> u32 option \<Rightarrow> Fat \<times> fat_disk \<Rightarrow> (u32 list \<times> u32 option \<times> Fat \<times> fat_disk) run" where
  "alloc_loop 0 prev s = ret ([], prev, s)"
| "alloc_loop (Suc n) prev s = do {
     (r, s1) \<leftarrow> alloc_one prev s;
     (case r of
        None \<Rightarrow> ret ([], None, s1)
      | Some c \<Rightarrow> do {
          (cs, prev', s2) \<leftarrow> alloc_loop n (Some c) s1;
          ret (c # cs, prev', s2) }) }"

definition fat_alloc :: "nat \<Rightarrow> u32 option \<Rightarrow> Fat \<times> fat_disk \<Rightarrow> (u32 list \<times> Fat \<times> fat_disk) run" where
  "fat_alloc alloc_num prev s = do {
     (allocated, prev', fat, st) \<leftarrow> alloc_loop alloc_num prev s;
     st' \<leftarrow> set_next_clus fat prev' EOC st;
     ret (allocated, fat, st') }"

fun free_loop :: "u32 list \<Rightarrow> Fat \<times> fat_disk \<Rightarrow> (Fat \<times> fat_disk) run" where
  "free_loop [] s = ret s"
| "free_loop (c # cs) (fat, st) = do {
     st1 \<leftarrow> set_next_clus fat (Some c) FAT_ENTRY_FREE st;
     free_loop cs
       (if length (vacant_clus fat) < VACANT_CLUS_CACHE_SIZE then fat\<lparr>vacant_clus := vec_push (vacant_clus fat) c\<rparr> else fat,
        st1) }"

definition fat_free :: "u32 list \<Rightarrow> u32 option \<Rightarrow> Fat \<times> fat_disk \<Rightarrow> (Fat \<times> fat_disk) run" where
  "fat_free cluster_list prev s = do {
     (fat, st) \<leftarrow> free_loop cluster_list s;
     st' \<leftarrow> set_next_clus fat prev EOC st;
     ret (fat, st') }"

section \<open>The table as a function\<close>

text \<open>The geometry of a table: entries do not straddle sectors, a sector fits a buffer, and no
  entry number or sector number overflows 32 bits; \<open>S\<close> is the set of the table's sectors.  Cluster numbers stay below the reserved
  values, so that a link is never taken for the end of a chain.\<close>

definition fat_geom :: "nat set \<Rightarrow> Fat \<Rightarrow> bool" where
  "fat_geom S fat \<longleftrightarrow> 0 < byts_per_sec fat \<and> 4 dvd byts_per_sec fat \<and> byts_per_sec fat \<le> BUFFER_SIZE
    \<and> tot_ent fat \<le> 0x0FFFFFF0 \<and> start_block_id fat + tot_ent fat < 2 ^ 32
    \<and> (\<forall>c < tot_ent fat. start_block_id fat + c * 4 div byts_per_sec fat \<in> S)"

text \<open>The device through the cache: whole blocks, only the table's sectors cached, and what the
  other sectors hold.\<close>

definition fat_ok :: "nat set \<Rightarrow> u8 list disk \<Rightarrow> fat_disk \<Rightarrow> bool" where
  "fat_ok S D st \<longleftrightarrow> cache_invar st \<and> (\<forall>b. b \<noteq> USIZE_MAX \<longrightarrow> length (cache_blocks st b) = BUFFER_SIZE)
    \<and> cached_ids (fst st) \<subseteq> S \<and> (\<forall>b. b \<notin> S \<longrightarrow> b \<noteq> USIZE_MAX \<longrightarrow> snd st b = D b)"

definition fat_sec :: "Fat \<Rightarrow> nat \<Rightarrow> nat" where
  "fat_sec fat c = start_block_id fat + c * 4 div byts_per_sec fat"

definition fat_off :: "Fat \<Rightarrow> nat \<Rightarrow> nat" where
  "fat_off fat c = c * 4 mod byts_per_sec fat"

definition fat_view :: "Fat \<Rightarrow> fat_disk \<Rightarrow> nat \<Rightarrow> u32" where
  "fat_view fat st c =
    (if c < tot_ent fat then read_u32 (fat_off fat c) (cache_blocks st (fat_sec fat c)) AND EOC else 0)"

lemma unat_of_nat32: "n < 2 ^ 32 \<Longrightarrow> unat (of_nat n :: u32) = n"
  by (simp add: unat_of_nat)

lemma four_mod: "c * 4 mod (4 * k) = 4 * (c mod k)" for c k :: nat
  by (simp only: mult_mod_right mult.commute [of c 4])

lemma four_div: "c * 4 div (4 * k) = c div k" for c k :: nat
  by (simp only: mult.commute [of c 4] div_mult_mult1_if) simp

lemma fat_geomD:
  assumes g: "fat_geom S fat" and c: "c < tot_ent fat"
  shows "this_fat_sec_num fat (of_nat c) = Some (fat_sec fat c)" and "this_fat_ent_offset fat (of_nat c) = Some (fat_off fat c)"
    and "fat_off fat c + 4 \<le> BUFFER_SIZE" and "fat_sec fat c \<noteq> USIZE_MAX" and "fat_sec fat c < 2 ^ 32" and "fat_sec fat c \<in> S"
proof -
  let ?b = "byts_per_sec fat" and ?s = "start_block_id fat"
  have b: "0 < ?b" "4 dvd ?b" "?b \<le> 512" and small: "c * 4 < 2 ^ 32" "?s + tot_ent fat < 2 ^ 32"
    using g c by (auto simp: fat_geom_def BUFFER_SIZE_def)
  have ub: "unat (of_nat ?b :: u32) = ?b" using b by (intro unat_of_nat32) simp
  have uc: "unat ((of_nat c :: u32) * 4) = c * 4"
  proof -
    have "(of_nat c :: u32) * 4 = of_nat (c * 4)" by simp
    then show ?thesis using unat_of_nat32 [OF small(1)] by (simp only:)
  qed
  have nz: "(of_nat ?b :: u32) \<noteq> 0" using ub b(1) by (metis not_less_zero unsigned_0)
  have "4 \<le> ?b" using b by (simp add: dvd_imp_le)
  then have "c * 4 div ?b \<le> c * 4 div 4" by (intro div_le_mono2) simp_all
  then have sec: "?s + c * 4 div ?b < 2 ^ 32" using small(2) c by simp
  have us: "unat (of_nat ?s :: u32) = ?s" using small(2) by (intro unat_of_nat32) simp
  have "unat ((of_nat ?s :: u32) + of_nat c * 4 div of_nat ?b) = ?s + c * 4 div ?b"
    using sec by (simp add: unat_word_ariths(1) us unat_div uc ub)
  then show "this_fat_sec_num fat (of_nat c) = Some (fat_sec fat c)"
    using nz by (simp add: this_fat_sec_num_def fat_sec_def rust_assert_def)
  show "this_fat_ent_offset fat (of_nat c) = Some (fat_off fat c)"
    using nz by (simp add: this_fat_ent_offset_def fat_off_def rust_assert_def unat_mod uc ub)
  show "fat_sec fat c < 2 ^ 32" using sec by (simp add: fat_sec_def)
  then show "fat_sec fat c \<noteq> USIZE_MAX" by (simp add: USIZE_MAX_def)
  show "fat_sec fat c \<in> S" using g c by (simp add: fat_geom_def fat_sec_def)
  obtain k where k: "?b = 4 * k" using b(2) by (rule dvdE)
  have "c * 4 mod ?b = 4 * (c mod k)" by (simp only: k four_mod)
  moreover have "c mod k < k" using b(1) k by simp
  ultimately show "fat_off fat c + 4 \<le> BUFFER_SIZE" using b(3) k by (simp add: fat_off_def BUFFER_SIZE_def)
qed

lemma fat_loc_disjoint:
  assumes "fat_geom S fat" and "c \<noteq> c'" and "fat_sec fat c = fat_sec fat c'"
  shows "fat_off fat c + 4 \<le> fat_off fat c' \<or> fat_off fat c' + 4 \<le> fat_off fat c"
proof -
  let ?b = "byts_per_sec fat"
  obtain k where k: "?b = 4 * k" "0 < k" using assms(1) by (auto simp: fat_geom_def elim!: dvdE)
  have off: "fat_off fat x = 4 * (x mod k)" for x
    by (simp only: fat_off_def k four_mod)
  have sec: "fat_sec fat x = start_block_id fat + x div k" for x
    by (simp only: fat_sec_def k four_div)
  have "c mod k \<noteq> c' mod k"
  proof
    assume "c mod k = c' mod k"
    moreover have "c div k = c' div k" using assms(3) by (simp add: sec)
    ultimately show False using assms(2) by (metis div_mult_mod_eq)
  qed
  then show ?thesis by (auto simp: off)
qed

lemma not_cached_blocks: "b \<notin> cached_ids (fst st) \<Longrightarrow> b \<noteq> USIZE_MAX \<Longrightarrow> cache_blocks st b = snd st b"
proof -
  assume "b \<notin> cached_ids (fst st)" "b \<noteq> USIZE_MAX"
  then have "find_block b (fst st) = None" unfolding find_block_None_iff by (auto simp: cached_ids_def)
  then show ?thesis by (simp add: cache_blocks_def)
qed

lemma fat_ok_step:
  assumes "fat_ok S D st" and "cache_invar st'" and "cached_ids (fst st') \<subseteq> insert b (cached_ids (fst st))" and "b \<in> S"
    and same: "\<And>c. c \<noteq> USIZE_MAX \<Longrightarrow> c \<noteq> b \<Longrightarrow> cache_blocks st' c = cache_blocks st c"
    and "length (cache_blocks st' b) = BUFFER_SIZE"
  shows "fat_ok S D st'"
proof -
  have sub: "cached_ids (fst st') \<subseteq> S" using assms(1,3,4) by (auto simp: fat_ok_def)
  have "snd st' c = D c" if "c \<notin> S" "c \<noteq> USIZE_MAX" for c
  proof -
    have "c \<noteq> b" "c \<notin> cached_ids (fst st)" "c \<notin> cached_ids (fst st')" using that assms(1,4) sub by (auto simp: fat_ok_def)
    then have "snd st' c = snd st c" using same [of c] that(2) by (simp add: not_cached_blocks)
    then show ?thesis using assms(1) that by (simp add: fat_ok_def)
  qed
  then show ?thesis using assms(1,2,6) sub same unfolding fat_ok_def by metis
qed

lemma get_next_ok:
  assumes "fat_geom S fat" and "fat_ok S D st" and "c < tot_ent fat"
  shows "\<exists>st'. get_next_clus_num fat (of_nat c) st = Some (fat_view fat st c, st') \<and> fat_ok S D st'
    \<and> fat_view fat st' = fat_view fat st"
proof -
  note g = fat_geomD [OF assms(1,3)]
  obtain st' where st': "cache_read (fat_sec fat c) (read_u32 (fat_off fat c)) st =
      Some (read_u32 (fat_off fat c) (cache_blocks st (fat_sec fat c)), st')" "cache_invar st'"
    "cached_ids (fst st') \<subseteq> insert (fat_sec fat c) (cached_ids (fst st))"
    "\<And>b. b \<noteq> USIZE_MAX \<Longrightarrow> cache_blocks st' b = cache_blocks st b"
    using cache_read_ok [of st "fat_sec fat c"] g(4) assms(2) unfolding fat_ok_def by blast
  have "fat_view fat st' = fat_view fat st" using st'(4) fat_geomD(4) [OF assms(1)] by (auto simp: fat_view_def fun_eq_iff)
  moreover have "fat_ok S D st'" using fat_ok_step [OF assms(2) st'(2,3) g(6)] st'(4) g(4) assms(2) by (simp add: fat_ok_def)
  moreover have "get_next_clus_num fat (of_nat c) st = Some (fat_view fat st c, st')"
    using g st'(1) assms(3) by (simp add: get_next_clus_num_def fat_view_def rust_assert_def)
  ultimately show ?thesis by blast
qed

lemma set_next_ok:
  assumes "fat_geom S fat" and "fat_ok S D st" and "c < tot_ent fat"
  shows "\<exists>st'. set_next_clus fat (Some (of_nat c)) v st = Some st' \<and> fat_ok S D st'
    \<and> fat_view fat st' = (fat_view fat st)(c := v AND EOC)"
proof -
  note g = fat_geomD [OF assms(1,3)]
  let ?sec = "fat_sec fat c" and ?off = "fat_off fat c"
  obtain st' where st': "cache_modify ?sec (write_u32 ?off v) st = Some st'" "cache_invar st'"
    "cached_ids (fst st') \<subseteq> insert (fat_sec fat c) (cached_ids (fst st))"
    "\<And>b. b \<noteq> USIZE_MAX \<Longrightarrow> cache_blocks st' b = (if b = ?sec then write_u32 ?off v (cache_blocks st ?sec) else cache_blocks st b)"
    using cache_modify_ok [of st ?sec "write_u32 ?off v"] g(4) assms(2) unfolding fat_ok_def by blast
  have len: "length (cache_blocks st b) = BUFFER_SIZE" if "b \<noteq> USIZE_MAX" for b using assms(2) that by (simp add: fat_ok_def)
  have here: "fat_view fat st' c = v AND EOC"
    using st'(4) [OF g(4)] g(3) len [OF g(4)] assms(3) by (simp add: fat_view_def read_write_u32)
  have other: "fat_view fat st' k = fat_view fat st k" if "k \<noteq> c" for k
  proof (cases "k < tot_ent fat")
    case True
    note gk = fat_geomD [OF assms(1) True]
    show ?thesis
    proof (cases "fat_sec fat k = ?sec")
      case same: True
      have "fat_off fat k + 4 \<le> ?off \<or> ?off + 4 \<le> fat_off fat k" using assms(1) that same by (rule fat_loc_disjoint)
      then show ?thesis using st'(4) [OF gk(4)] same by (simp add: fat_view_def read_write_u32_other)
    qed (use st'(4) [OF gk(4)] in \<open>simp add: fat_view_def\<close>)
  qed (simp add: fat_view_def)
  have "fat_ok S D st'" using fat_ok_step [OF assms(2) st'(2,3) g(6)] st'(4) g(4) len by simp
  moreover have "fat_view fat st' = (fat_view fat st)(c := v AND EOC)" using here other by (auto simp: fun_eq_iff)
  moreover have "set_next_clus fat (Some (of_nat c)) v st = Some st'"
    using g st'(1) by (simp add: set_next_clus_def rust_assert_def)
  ultimately show ?thesis by blast
qed

section \<open>Following chains\<close>

text \<open>The clusters of a list are linked in order and the last one ends the chain.\<close>

fun chain :: "(nat \<Rightarrow> u32) \<Rightarrow> nat list \<Rightarrow> bool" where
  "chain V [] \<longleftrightarrow> False"
| "chain V [c] \<longleftrightarrow> chain_end (V c)"
| "chain V (c # d # cs) \<longleftrightarrow> V c = of_nat d \<and> \<not> chain_end (of_nat d) \<and> chain V (d # cs)"

lemma get_all_ok:
  assumes "fat_geom S fat" and "fat_ok S D st" and "chain (fat_view fat st) cs" and "\<forall>c \<in> set cs. c < tot_ent fat"
  shows "\<exists>st'. get_all_clus_num fat (of_nat (hd cs)) st = Some (map of_nat cs, st') \<and> fat_ok S D st'
    \<and> fat_view fat st' = fat_view fat st"
  using assms(2-)
proof (induction cs arbitrary: st rule: induct_list012)
  case (2 c)
  then show ?case using get_next_ok [OF assms(1) 2(1), of c]
    by (auto simp: get_all_clus_num.simps [of fat "of_nat c" st])
next
  case (3 c d cs)
  obtain st1 where st1: "get_next_clus_num fat (of_nat c) st = Some (of_nat d, st1)" "fat_ok S D st1"
    "fat_view fat st1 = fat_view fat st"
    using get_next_ok [OF assms(1) "3.prems"(1), of c] "3.prems"(2,3) by auto
  have "chain (fat_view fat st1) (d # cs)" "\<forall>c \<in> set (d # cs). c < tot_ent fat"
    using "3.prems"(2,3) st1(3) by simp_all
  from "3.IH"(2) [OF st1(2) this] obtain st2 where
    "get_all_clus_num fat (of_nat d) st1 = Some (map of_nat (d # cs), st2)" "fat_ok S D st2"
    "fat_view fat st2 = fat_view fat st1" by auto
  then show ?case using st1 "3.prems"(2) by (simp add: get_all_clus_num.simps [of fat "of_nat c" st])
qed simp

section \<open>Allocation\<close>

lemma fat_same_geom [simp]:
  "fat_geom S (fat\<lparr>hint := h\<rparr>) = fat_geom S fat" "fat_view (fat\<lparr>hint := h\<rparr>) = fat_view fat"
  "fat_geom S (fat\<lparr>vacant_clus := vs\<rparr>) = fat_geom S fat" "fat_view (fat\<lparr>vacant_clus := vs\<rparr>) = fat_view fat"
  "this_fat_sec_num (fat\<lparr>hint := h\<rparr>) = this_fat_sec_num fat" "this_fat_ent_offset (fat\<lparr>hint := h\<rparr>) = this_fat_ent_offset fat"
  "this_fat_sec_num (fat\<lparr>vacant_clus := vs\<rparr>) = this_fat_sec_num fat"
  "this_fat_ent_offset (fat\<lparr>vacant_clus := vs\<rparr>) = this_fat_ent_offset fat"
  by (simp_all add: fat_geom_def fat_view_def fat_sec_def fat_off_def
      this_fat_sec_num_def this_fat_ent_offset_def fun_eq_iff)

lemma set_next_same_geom [simp]:
  "set_next_clus (fat\<lparr>hint := h\<rparr>) prev v st = set_next_clus fat prev v st"
  "set_next_clus (fat\<lparr>vacant_clus := vs\<rparr>) prev v st = set_next_clus fat prev v st"
  by (simp_all add: set_next_clus_def split: option.split)

lemma find_free_ok:
  assumes "fat_geom S fat" and "fat_ok S D st" and "\<forall>c \<in> set ids. c < tot_ent fat"
  shows "\<exists>st'. find_free fat ids st = Some (map_option of_nat (find (\<lambda>c. fat_view fat st c = 0) ids), st') \<and> fat_ok S D st'
    \<and> fat_view fat st' = fat_view fat st"
  using assms(2-)
proof (induction ids arbitrary: st)
  case (Cons c ids)
  obtain st1 where st1: "get_next_clus_num fat (of_nat c) st = Some (fat_view fat st c, st1)" "fat_ok S D st1"
    "fat_view fat st1 = fat_view fat st" using get_next_ok [OF assms(1) Cons.prems(1), of c] Cons.prems(2) by auto
  then show ?case using Cons.IH [OF st1(2)] Cons.prems(2) by (cases st1) (simp add: FAT_ENTRY_FREE_def)
qed simp

text \<open>The order in which clusters are searched, from a hint on and around.\<close>

definition scan :: "nat \<Rightarrow> nat \<Rightarrow> nat list" where
  "scan h n = [h ..< n] @ [0 ..< h]"

lemma set_scan: "h \<le> n \<Longrightarrow> set (scan h n) = {..<n}"
  by (auto simp: scan_def)

lemma find_SomeD: "find P xs = Some x \<Longrightarrow> x \<in> set xs \<and> P x"
  by (induction xs) (auto split: if_splits)

lemma find_append: "find P (xs @ ys) = (case find P xs of Some x \<Rightarrow> Some x | None \<Rightarrow> find P ys)"
  by (induction xs) simp_all

lemma get_next_free_ok:
  assumes "fat_geom S fat" and "fat_ok S D st" and "h \<le> tot_ent fat"
  shows "\<exists>st'. get_next_free_clus fat (of_nat h) st =
      Some (map_option of_nat (find (\<lambda>c. fat_view fat st c = 0) (scan h (tot_ent fat))), st') \<and> fat_ok S D st'
    \<and> fat_view fat st' = fat_view fat st"
proof -
  have u: "unat (of_nat h :: u32) = h" "unat (of_nat (tot_ent fat) :: u32) = tot_ent fat"
    using assms(1,3) by (intro unat_of_nat32; simp add: fat_geom_def)+
  obtain st1 where st1: "find_free fat [h ..< tot_ent fat] st =
      Some (map_option of_nat (find (\<lambda>c. fat_view fat st c = 0) [h ..< tot_ent fat]), st1)" "fat_ok S D st1"
    "fat_view fat st1 = fat_view fat st" using find_free_ok [OF assms(1,2), of "[h ..< tot_ent fat]"] by auto
  obtain st2 where st2: "find_free fat [0 ..< h] st1 =
      Some (map_option of_nat (find (\<lambda>c. fat_view fat st1 c = 0) [0 ..< h]), st2)" "fat_ok S D st2"
    "fat_view fat st2 = fat_view fat st1" using find_free_ok [OF assms(1) st1(2), of "[0 ..< h]"] assms(3) by auto
  show ?thesis
    using st1 st2 by (cases "find (\<lambda>c. fat_view fat st c = 0) [h ..< tot_ent fat]")
      (simp_all add: get_next_free_clus_def scan_def u find_append)
qed

lemma and_EOC: "c < 0x0FFFFFF0 \<Longrightarrow> (of_nat c :: u32) AND EOC = of_nat c"
proof -
  assume c: "c < 0x0FFFFFF0"
  have "EOC = mask 28" by (simp add: EOC_def mask_eq_exp_minus_1)
  moreover have "take_bit 28 (of_nat c :: u32) = of_nat c"
    using c by (intro take_bit_word_id) (simp add: unat_of_nat32)
  ultimately show ?thesis by (simp add: take_bit_eq_mask)
qed

text \<open>Setting the link of the preceding cluster, if there is one.\<close>

definition link :: "(nat \<Rightarrow> u32) \<Rightarrow> nat option \<Rightarrow> u32 \<Rightarrow> nat \<Rightarrow> u32" where
  "link V prev v = (case prev of None \<Rightarrow> V | Some l \<Rightarrow> V(l := v))"

lemma set_next_opt_ok:
  assumes "fat_geom S fat" and "fat_ok S D st" and "\<forall>l \<in> set_option prev. l < tot_ent fat"
  shows "\<exists>st'. set_next_clus fat (map_option of_nat prev) v st = Some st' \<and> fat_ok S D st'
    \<and> fat_view fat st' = link (fat_view fat st) prev (v AND EOC)"
proof (cases prev)
  case None
  then show ?thesis using assms(2) by (simp add: set_next_clus_def link_def)
next
  case (Some l)
  then show ?thesis using set_next_ok [OF assms(1,2), of l v] assms(3) by (simp add: link_def)
qed

lemma alloc_one_ok:
  assumes g: "fat_geom S fat" and st: "fat_ok S D st" and prev: "\<forall>l \<in> set_option prev. l < tot_ent fat"
    and vac: "vacant_clus fat = []" and h: "hint fat \<le> tot_ent fat"
    and c: "find (\<lambda>c. fat_view fat st c = 0) (scan (hint fat) (tot_ent fat)) = Some c"
  shows "\<exists>st'. alloc_one (map_option of_nat prev) (fat, st) =
      Some (Some (of_nat c), fat\<lparr>hint := (c + 1) mod tot_ent fat\<rparr>, st') \<and> fat_ok S D st'
    \<and> fat_view fat st' = link (fat_view fat st) prev (of_nat c) \<and> c < tot_ent fat \<and> fat_view fat st c = 0"
proof -
  let ?V = "fat_view fat st"
  have cl: "c < tot_ent fat" "?V c = 0" using find_SomeD [OF c] set_scan [OF h] by auto
  have small: "c < 0x0FFFFFF0" using cl(1) g by (simp add: fat_geom_def)
  obtain st0 where st0: "(case map_option of_nat prev of None \<Rightarrow> ret st
      | Some l \<Rightarrow> do { (_, st0) \<leftarrow> get_next_clus_num fat l st; ret st0 }) = Some st0" "fat_ok S D st0" "fat_view fat st0 = ?V"
  proof (cases prev)
    case None
    then show ?thesis using st that by simp
  next
    case (Some l)
    then show ?thesis using get_next_ok [OF g st, of l] prev that by auto
  qed
  obtain st1 where st1: "get_next_free_clus fat (of_nat (hint fat)) st0 = Some (Some (of_nat c), st1)" "fat_ok S D st1"
    "fat_view fat st1 = ?V" using get_next_free_ok [OF g st0(2) h] st0(3) c by auto
  obtain st2 where st2: "set_next_clus fat (map_option of_nat prev) (of_nat c) st1 = Some st2" "fat_ok S D st2"
    "fat_view fat st2 = link ?V prev (of_nat c)"
    using set_next_opt_ok [OF g st1(2) prev, of "of_nat c"] st1(3) and_EOC [OF small] by auto
  have "unat (of_nat c + 1 :: u32) = c + 1"
    using small unat_of_nat32 [of "c + 1"] by (simp add: add.commute)
  then have "alloc_one (map_option of_nat prev) (fat, st) =
      Some (Some (of_nat c), fat\<lparr>hint := (c + 1) mod tot_ent fat\<rparr>, st2)"
    using st0(1) st1(1) st2(1) vac cl(1) by (simp add: alloc_one_def rust_assert_def)
  then show ?thesis using st2 cl by blast
qed

text \<open>After the cluster \<open>l\<close> has been taken, the scan goes through all other clusters before it
  comes back to \<open>l\<close>.\<close>

lemma scan_after:
  assumes "l < n"
  shows "\<exists>xs. scan ((l + 1) mod n) n = xs @ [l] \<and> set xs = {..<n} - {l}"
proof (cases "l + 1 < n")
  case True
  have "[0 ..< l + 1] = [0 ..< l] @ [l]" by simp
  then have "scan ((l + 1) mod n) n = ([l + 1 ..< n] @ [0 ..< l]) @ [l]" using True by (simp add: scan_def)
  then show ?thesis using True by (intro exI [of _ "[l + 1 ..< n] @ [0 ..< l]"]) auto
next
  case False
  then have n: "n = l + 1" using assms by simp
  have "scan ((l + 1) mod n) n = [0 ..< l] @ [l]" by (simp add: scan_def n)
  then show ?thesis by (intro exI [of _ "[0 ..< l]"]) (auto simp: n)
qed

definition free_clusters :: "nat \<Rightarrow> (nat \<Rightarrow> u32) \<Rightarrow> nat set" where
  "free_clusters n V = {c. c < n \<and> V c = 0}"

lemma finite_free [simp]: "finite (free_clusters n V)"
  by (simp add: free_clusters_def)

lemma find_fresh:
  assumes h: "h \<le> n" and l: "\<forall>l \<in> set_option prev. l < n \<and> (V l = 0 \<longrightarrow> h = (l + 1) mod n)"
    and free: "free_clusters n V - set_option prev \<noteq> {}"
  shows "\<exists>c. find (\<lambda>c. V c = 0) (scan h n) = Some c \<and> c \<in> free_clusters n V - set_option prev"
proof -
  obtain x where x: "x < n" "V x = 0" "x \<notin> set_option prev" using free by (auto simp: free_clusters_def)
  show ?thesis
  proof (cases "\<exists>l. prev = Some l \<and> V l = 0")
    case False
    have "find (\<lambda>c. V c = 0) (scan h n) \<noteq> None" using x set_scan [OF h] by (auto simp: find_None_iff)
    then obtain c where "find (\<lambda>c. V c = 0) (scan h n) = Some c" by blast
    then show ?thesis using find_SomeD [of "\<lambda>c. V c = 0" "scan h n" c] set_scan [OF h] False
      by (auto simp: free_clusters_def)
  next
    case True
    then obtain l where l': "prev = Some l" "V l = 0" by blast
    then have hl: "l < n" "h = (l + 1) mod n" using l by auto
    obtain xs where xs: "scan h n = xs @ [l]" "set xs = {..<n} - {l}" using scan_after [OF hl(1)] hl(2) by auto
    have "find (\<lambda>c. V c = 0) xs \<noteq> None" using x l' xs(2) by (auto simp: find_None_iff)
    then obtain c where c: "find (\<lambda>c. V c = 0) xs = Some c" by blast
    then have "find (\<lambda>c. V c = 0) (scan h n) = Some c" by (simp add: xs(1) find_append)
    then show ?thesis using find_SomeD [OF c] xs(2) l' by (auto simp: free_clusters_def)
  qed
qed

fun link_open :: "(nat \<Rightarrow> u32) \<Rightarrow> nat option \<Rightarrow> nat list \<Rightarrow> nat \<Rightarrow> u32" where
  "link_open V prev [] = V"
| "link_open V prev (c # cs) = link_open (link V prev (of_nat c)) (Some c) cs"

fun last_of :: "nat option \<Rightarrow> nat list \<Rightarrow> nat option" where
  "last_of prev [] = prev"
| "last_of prev (c # cs) = last_of (Some c) cs"

lemma of_nat_nz: "0 < c \<Longrightarrow> c < 0x0FFFFFF0 \<Longrightarrow> (of_nat c :: u32) \<noteq> 0"
proof
  assume c: "0 < c" "c < 0x0FFFFFF0" and "(of_nat c :: u32) = 0"
  then have "unat (of_nat c :: u32) = 0" by (simp only: unsigned_0)
  then show False using c unat_of_nat32 [of c] by simp
qed

lemma alloc_loop_ok:
  assumes "fat_geom S fat" and "fat_ok S D st" and "vacant_clus fat = []" and "hint fat \<le> tot_ent fat"
    and "\<forall>l \<in> set_option prev. l < tot_ent fat \<and> (fat_view fat st l = 0 \<longrightarrow> hint fat = (l + 1) mod tot_ent fat)"
    and "n \<le> card (free_clusters (tot_ent fat) (fat_view fat st) - set_option prev)" and "fat_view fat st 0 \<noteq> 0"
  shows "\<exists>cs st' h'. alloc_loop n (map_option of_nat prev) (fat, st) =
      Some (map of_nat cs, map_option of_nat (last_of prev cs), fat\<lparr>hint := h'\<rparr>, st')
    \<and> length cs = n \<and> distinct cs \<and> set cs \<subseteq> free_clusters (tot_ent fat) (fat_view fat st) - set_option prev \<and> h' \<le> tot_ent fat
    \<and> fat_ok S D st' \<and> fat_view fat st' = link_open (fat_view fat st) prev cs"
  using assms
proof (induction n arbitrary: fat st prev)
  case 0
  have "fat\<lparr>hint := hint fat\<rparr> = fat" by simp
  then show ?case using "0.prems"(2,4) by (intro exI [of _ "[]"] exI [of _ st] exI [of _ "hint fat"]) simp
next
  case (Suc n)
  let ?V = "fat_view fat st" and ?T = "tot_ent fat"
  note g = Suc.prems(1)
  have "free_clusters ?T ?V - set_option prev \<noteq> {}"
    using Suc.prems(6) by (metis card.empty not_less_eq_eq zero_le)
  then obtain c where c: "find (\<lambda>c. ?V c = 0) (scan (hint fat) ?T) = Some c" "c \<in> free_clusters ?T ?V - set_option prev"
    using find_fresh [OF Suc.prems(4,5)] by blast
  have prev: "\<forall>l \<in> set_option prev. l < ?T" using Suc.prems(5) by auto
  obtain st1 where st1: "alloc_one (map_option of_nat prev) (fat, st) =
      Some (Some (of_nat c), fat\<lparr>hint := (c + 1) mod ?T\<rparr>, st1)" "fat_ok S D st1" "fat_view fat st1 = link ?V prev (of_nat c)"
    "c < ?T" "?V c = 0" using alloc_one_ok [OF g Suc.prems(2) prev Suc.prems(3,4) c(1)] by blast
  let ?fat = "fat\<lparr>hint := (c + 1) mod ?T\<rparr>" and ?V1 = "link ?V prev (of_nat c)"
  have "c \<noteq> 0" using st1(5) Suc.prems(7) by metis
  then have nz: "(of_nat c :: u32) \<noteq> 0" using st1(4) g by (intro of_nat_nz) (auto simp: fat_geom_def)
  have free1: "free_clusters ?T ?V1 - {c} = free_clusters ?T ?V - set_option prev - {c}"
    using nz by (cases prev) (auto simp: link_def free_clusters_def)
  have "card (free_clusters ?T ?V - set_option prev - {c}) = card (free_clusters ?T ?V - set_option prev) - 1"
    using c(2) by (simp add: card_Diff_singleton)
  then have n: "n \<le> card (free_clusters ?T ?V1 - {c})" using Suc.prems(6) by (simp add: free1)
  have V10: "?V1 0 \<noteq> 0" using nz Suc.prems(7) by (cases prev) (auto simp: link_def)
  have hint1: "(c + 1) mod ?T \<le> ?T" using st1(4) by (simp add: less_imp_le)
  have pre: "fat_geom S ?fat" "vacant_clus ?fat = []" "hint ?fat \<le> tot_ent ?fat"
    "\<forall>l \<in> set_option (Some c). l < tot_ent ?fat \<and> (fat_view ?fat st1 l = 0 \<longrightarrow> hint ?fat = (l + 1) mod tot_ent ?fat)"
    "n \<le> card (free_clusters (tot_ent ?fat) (fat_view ?fat st1) - set_option (Some c))" "fat_view ?fat st1 0 \<noteq> 0"
    using g Suc.prems(3) hint1 st1(3,4) n V10 by simp_all
  from Suc.IH [OF pre(1) st1(2) pre(2-6)] obtain cs st' h' where IH:
    "alloc_loop n (Some (of_nat c)) (?fat, st1) = Some (map of_nat cs, map_option of_nat (last_of (Some c) cs), fat\<lparr>hint := h'\<rparr>, st')"
    "length cs = n" "distinct cs" "set cs \<subseteq> free_clusters ?T ?V1 - {c}" "fat_ok S D st'"
    "fat_view fat st' = link_open ?V1 (Some c) cs" "h' \<le> ?T" by (auto simp: st1(3))
  have "set cs \<subseteq> free_clusters ?T ?V - set_option prev - {c}" using IH(4) by (simp only: free1)
  then show ?case using IH st1(1) c(2)
    by (intro exI [of _ "c # cs"] exI [of _ st'] exI [of _ h']) auto
qed

text \<open>Allocation as a whole: the open chain is closed with the end mark.\<close>

definition link_chain :: "(nat \<Rightarrow> u32) \<Rightarrow> nat option \<Rightarrow> nat list \<Rightarrow> nat \<Rightarrow> u32" where
  "link_chain V prev cs = link (link_open V prev cs) (last_of prev cs) EOC"

lemma last_of_lt: "\<forall>l \<in> set_option prev. l < n \<Longrightarrow> \<forall>c \<in> set cs. c < n \<Longrightarrow> \<forall>l \<in> set_option (last_of prev cs). l < n"
  by (induction cs arbitrary: prev) auto

lemma EOC_and: "EOC AND EOC = EOC"
  by simp

lemma fat_alloc_ok:
  assumes g: "fat_geom S fat" and st: "fat_ok S D st" and vac: "vacant_clus fat = []" and h: "hint fat \<le> tot_ent fat"
    and prev: "\<forall>l \<in> set_option prev. l < tot_ent fat \<and> fat_view fat st l \<noteq> 0"
    and n: "n \<le> card (free_clusters (tot_ent fat) (fat_view fat st))" and V0: "fat_view fat st 0 \<noteq> 0"
  shows "\<exists>cs st' h'. fat_alloc n (map_option of_nat prev) (fat, st) = Some (map of_nat cs, fat\<lparr>hint := h'\<rparr>, st')
    \<and> length cs = n \<and> distinct cs \<and> set cs \<subseteq> free_clusters (tot_ent fat) (fat_view fat st) \<and> h' \<le> tot_ent fat
    \<and> fat_ok S D st' \<and> fat_view fat st' = link_chain (fat_view fat st) prev cs"
proof -
  let ?V = "fat_view fat st" and ?F = "free_clusters (tot_ent fat) (fat_view fat st)"
  have "?F - set_option prev = ?F" using prev by (auto simp: free_clusters_def)
  then obtain cs st1 h' where lp: "alloc_loop n (map_option of_nat prev) (fat, st) =
      Some (map of_nat cs, map_option of_nat (last_of prev cs), fat\<lparr>hint := h'\<rparr>, st1)"
    "length cs = n" "distinct cs" "set cs \<subseteq> ?F" "fat_ok S D st1" "fat_view fat st1 = link_open ?V prev cs" "h' \<le> tot_ent fat"
    using alloc_loop_ok [OF g st vac h _ _ V0, of prev n] prev n by auto
  have lt: "\<forall>l \<in> set_option (last_of prev cs). l < tot_ent fat"
    using prev lp(4) by (intro last_of_lt) (auto simp: free_clusters_def)
  obtain st' where "set_next_clus fat (map_option of_nat (last_of prev cs)) EOC st1 = Some st'" "fat_ok S D st'"
    "fat_view fat st' = link_chain ?V prev cs"
    using set_next_opt_ok [OF g lp(5) lt, of EOC] lp(6) by (auto simp: link_chain_def)
  moreover from this lp(1) have "fat_alloc n (map_option of_nat prev) (fat, st) = Some (map of_nat cs, fat\<lparr>hint := h'\<rparr>, st')"
    by (simp add: fat_alloc_def)
  ultimately show ?thesis using lp by blast
qed

lemma link_open_other: "k \<notin> set_option prev \<union> set cs \<Longrightarrow> link_open V prev cs k = V k"
  by (induction cs arbitrary: V prev) (auto simp: link_def split: option.splits)

lemma link_chain_other: "k \<notin> set_option prev \<union> set cs \<Longrightarrow> link_chain V prev cs k = V k"
proof -
  assume k: "k \<notin> set_option prev \<union> set cs"
  moreover have "set_option (last_of prev cs) \<subseteq> set_option prev \<union> set cs" by (induction cs arbitrary: prev) auto
  ultimately show ?thesis using link_open_other [OF k] by (auto simp: link_chain_def link_def split: option.splits)
qed

lemma link_chain_Cons: "link_chain V prev (c # cs) = link_chain (link V prev (of_nat c)) (Some c) cs"
  by (simp add: link_chain_def)

lemma chain_end_EOC: "chain_end EOC"
  by (simp add: chain_end_def EOC_def FAT_ENTRY_RESERVED_TO_END_def)

lemma cluster_not_end: "0 < c \<Longrightarrow> c < 0x0FFFFFF0 \<Longrightarrow> \<not> chain_end (of_nat c)"
proof -
  assume c: "0 < c" "c < 0x0FFFFFF0"
  have u: "unat (of_nat c :: u32) = c" using c by (intro unat_of_nat32) simp
  have "(of_nat c :: u32) \<noteq> BAD_BLOCK"
  proof
    assume "(of_nat c :: u32) = BAD_BLOCK"
    then have "unat (of_nat c :: u32) = unat BAD_BLOCK" by (simp only:)
    then show False using c u by (simp add: BAD_BLOCK_def)
  qed
  moreover have "\<not> FAT_ENTRY_RESERVED_TO_END \<le> (of_nat c :: u32)"
    using c by (simp add: word_le_nat_alt u FAT_ENTRY_RESERVED_TO_END_def)
  ultimately show ?thesis using of_nat_nz [OF c] by (simp add: chain_end_def FAT_ENTRY_FREE_def)
qed

lemma chain_cong: "(\<And>c. c \<in> set cs \<Longrightarrow> V c = W c) \<Longrightarrow> chain V cs = chain W cs"
  by (induction V cs rule: chain.induct) auto

lemma link_chain_chain:
  assumes "cs \<noteq> []" and "distinct cs" and "\<forall>c \<in> set cs. 0 < c \<and> c < 0x0FFFFFF0" and "\<forall>l \<in> set_option prev. l \<notin> set cs"
  shows "chain (link_chain V prev cs) cs"
  using assms
proof (induction cs arbitrary: V prev rule: induct_list012)
  case (2 c)
  then show ?case by (simp add: link_chain_def link_def chain_end_EOC split: option.splits)
next
  case (3 c d cs)
  let ?V = "link V prev (of_nat c)"
  have IH: "chain (link_chain ?V (Some c) (d # cs)) (d # cs)" using "3.IH"(2) "3.prems" by simp
  have "link_chain (link ?V (Some c) (of_nat d)) (Some d) cs c = of_nat d"
    using "3.prems"(2) link_chain_other [of c "Some d" cs "link ?V (Some c) (of_nat d)"] by (simp add: link_def)
  then show ?case using IH "3.prems"(3) cluster_not_end [of d] by (simp add: link_chain_Cons)
qed simp

lemma chain_append:
  assumes "cl \<noteq> []" and "chain V cl" and "distinct (cl @ cs)" and "\<forall>c \<in> set cs. 0 < c \<and> c < 0x0FFFFFF0"
  shows "chain (link_chain V (Some (last cl)) cs) (cl @ cs)"
  using assms
proof (induction cl rule: induct_list012)
  case (2 c)
  show ?case
  proof (cases cs)
    case Nil
    then show ?thesis by (simp add: link_chain_def link_def chain_end_EOC)
  next
    case (Cons d ds)
    have "link_chain V (Some c) cs c = of_nat d"
      using "2.prems"(3) link_chain_other [of c "Some d" ds "link V (Some c) (of_nat d)"] by (simp add: Cons link_chain_Cons) (simp add: link_def)
    moreover have "chain (link_chain V (Some c) cs) cs" using "2.prems" Cons by (intro link_chain_chain) simp_all
    ultimately show ?thesis using "2.prems"(4) cluster_not_end [of d] by (simp add: Cons)
  qed
next
  case (3 c d cl)
  have "link_chain V (Some (last (d # cl))) cs c = V c"
    using "3.prems"(3) last_in_set [of "d # cl"] by (intro link_chain_other) auto
  then show ?case using "3.IH"(2) "3.prems" by simp
qed simp

lemma link_chain_nz:
  assumes "\<forall>c \<in> set cs. (of_nat c :: u32) \<noteq> 0" and "k \<in> set_option prev \<union> set cs"
  shows "link_chain V prev cs k \<noteq> 0"
  using assms
proof (induction cs arbitrary: V prev)
  case Nil
  then show ?case by (auto simp: link_chain_def link_def EOC_def)
next
  case (Cons c cs)
  show ?case
  proof (cases "k = c \<or> k \<in> set cs")
    case True
    then show ?thesis unfolding link_chain_Cons using Cons.prems(1) by (intro Cons.IH) auto
  next
    case False
    then have "link_chain V prev (c # cs) k = of_nat c"
      unfolding link_chain_Cons using Cons.prems(2) by (subst link_chain_other) (auto simp: link_def)
    then show ?thesis using Cons.prems(1) by simp
  qed
qed

section \<open>Freeing\<close>

lemma free_loop_ok:
  assumes "fat_geom S fat" and "fat_ok S D st" and "\<forall>c \<in> set cs. c < tot_ent fat"
  shows "\<exists>vs st'. free_loop (map of_nat cs) (fat, st) = Some (fat\<lparr>vacant_clus := vs\<rparr>, st') \<and> fat_ok S D st'
    \<and> fat_view fat st' = (\<lambda>c. if c \<in> set cs then 0 else fat_view fat st c)
    \<and> (length (vacant_clus fat) \<le> VACANT_CLUS_CACHE_SIZE \<longrightarrow> length vs \<le> VACANT_CLUS_CACHE_SIZE)"
  using assms
proof (induction cs arbitrary: fat st)
  case Nil
  have "fat\<lparr>vacant_clus := vacant_clus fat\<rparr> = fat" by simp
  then show ?case using Nil.prems(2) by (intro exI [of _ "vacant_clus fat"] exI [of _ st]) simp
next
  case (Cons c cs)
  obtain st1 where st1: "set_next_clus fat (Some (of_nat c)) FAT_ENTRY_FREE st = Some st1" "fat_ok S D st1"
    "fat_view fat st1 = (fat_view fat st)(c := 0)"
    using set_next_ok [OF Cons.prems(1,2), of c FAT_ENTRY_FREE] Cons.prems(3) by (auto simp: FAT_ENTRY_FREE_def)
  define vs0 where "vs0 = (if length (vacant_clus fat) < VACANT_CLUS_CACHE_SIZE then vec_push (vacant_clus fat) (of_nat c)
    else vacant_clus fat)"
  let ?fat = "fat\<lparr>vacant_clus := vs0\<rparr>"
  have eq: "(if length (vacant_clus fat) < VACANT_CLUS_CACHE_SIZE then fat\<lparr>vacant_clus := vec_push (vacant_clus fat) (of_nat c)\<rparr> else fat) = ?fat"
    by (simp add: vs0_def)
  have "fat_geom S ?fat" "\<forall>c \<in> set cs. c < tot_ent ?fat" using Cons.prems(1,3) by simp_all
  from Cons.IH [OF this(1) st1(2) this(2)] obtain vs st2 where IH:
    "free_loop (map of_nat cs) (?fat, st1) = Some (?fat\<lparr>vacant_clus := vs\<rparr>, st2)" "fat_ok S D st2"
    "fat_view ?fat st2 = (\<lambda>c. if c \<in> set cs then 0 else fat_view ?fat st1 c)"
    "length (vacant_clus ?fat) \<le> VACANT_CLUS_CACHE_SIZE \<longrightarrow> length vs \<le> VACANT_CLUS_CACHE_SIZE" by blast
  have "length (vacant_clus fat) \<le> VACANT_CLUS_CACHE_SIZE \<longrightarrow> length vs0 \<le> VACANT_CLUS_CACHE_SIZE" by (simp add: vs0_def)
  then show ?case using IH st1 eq
    by (intro exI [of _ vs] exI [of _ st2]) (auto simp: fun_eq_iff)
qed

lemma fat_free_ok:
  assumes g: "fat_geom S fat" and "fat_ok S D st" and "\<forall>c \<in> set cs. c < tot_ent fat" and prev: "\<forall>l \<in> set_option prev. l < tot_ent fat"
  shows "\<exists>vs st'. fat_free (map of_nat cs) (map_option of_nat prev) (fat, st) = Some (fat\<lparr>vacant_clus := vs\<rparr>, st') \<and> fat_ok S D st'
    \<and> fat_view fat st' = link (\<lambda>c. if c \<in> set cs then 0 else fat_view fat st c) prev EOC"
proof -
  obtain vs st1 where lp: "free_loop (map of_nat cs) (fat, st) = Some (fat\<lparr>vacant_clus := vs\<rparr>, st1)" "fat_ok S D st1"
    "fat_view fat st1 = (\<lambda>c. if c \<in> set cs then 0 else fat_view fat st c)"
    using free_loop_ok [OF assms(1-3)] by blast
  show ?thesis using set_next_opt_ok [OF g lp(2) prev, of EOC] lp by (auto simp: fat_free_def)
qed

section \<open>Properties\<close>

text \<open>A disk of zeros with some entries set, for the examples: 100 entries in one sector.\<close>

definition ex_fat :: Fat where
  "ex_fat = \<lparr>start_block_id = 1, byts_per_sec = 512, tot_ent = 100, vacant_clus = [], hint = 2\<rparr>"

definition ex_disk :: fat_disk where
  "ex_disk = (BlockCacheManager_new (\<lambda>_. replicate 512 0),
     \<lambda>b. if b = 1 then write_u32 4 EOC (write_u32 0 EOC (replicate 512 0)) else replicate 512 0)"

lemma new_pool_miss: "b \<noteq> USIZE_MAX \<Longrightarrow> cache_blocks (BlockCacheManager_new mem, d) b = d b"
proof -
  assume "b \<noteq> USIZE_MAX"
  then have "find_block b (BlockCacheManager_new mem) = None"
    unfolding find_block_None_iff by (auto simp: BlockCacheManager_new_def BufferCache_new_def)
  then show ?thesis by (simp add: cache_blocks_def)
qed

lemma ex_disk_ok: "fat_geom {..<2} ex_fat" "fat_ok {..<2} (\<lambda>_. replicate 512 0) ex_disk"
  "c < 100 \<Longrightarrow> fat_view ex_fat ex_disk c = (if c < 2 then EOC else 0)"
proof -
  show "fat_geom {..<2} ex_fat" by (simp add: fat_geom_def ex_fat_def BUFFER_SIZE_def)
  have "cached_ids (BlockCacheManager_new (\<lambda>_. replicate 512 0 :: u8 list)) = {}"
    by (auto simp: cached_ids_def BlockCacheManager_new_def BufferCache_new_def)
  then show "fat_ok {..<2} (\<lambda>_. replicate 512 0) ex_disk"
    using cache_invar_new by (auto simp: fat_ok_def ex_disk_def new_pool_miss BUFFER_SIZE_def)
  assume c: "c < 100"
  have "fat_sec ex_fat c = 1" "fat_off ex_fat c = c * 4" using c by (simp_all add: fat_sec_def fat_off_def ex_fat_def)
  moreover have "read_u32 (c * 4) (replicate 512 0) = 0" using c by (simp add: read_u32_def nth_replicate)
  moreover have "(1 :: nat) \<noteq> USIZE_MAX" by (simp add: USIZE_MAX_def)
  moreover consider "c = 0" | "c = 1" | "2 \<le> c" by linarith
  then have "read_u32 (c * 4) (write_u32 4 EOC (write_u32 0 EOC (replicate 512 0))) =
      (if c < 2 then EOC else read_u32 (c * 4) (replicate 512 0))"
    by cases (simp_all add: read_write_u32 read_write_u32_other)
  ultimately show "fat_view ex_fat ex_disk c = (if c < 2 then EOC else 0)"
    using c by (simp add: fat_view_def ex_disk_def new_pool_miss ex_fat_def)
qed

lemma ex_free: "free_clusters 100 (fat_view ex_fat ex_disk) = {2 ..< 100}"
  using ex_disk_ok(3) by (auto simp: free_clusters_def EOC_def split: if_splits)

text \<open>C25: when the list of vacant clusters is empty and enough clusters are free, allocating \<open>n\<close>
  clusters returns \<open>n\<close> different clusters that were free, links them in order behind the
  given cluster, ends the chain, and changes no other entry of the table; following the
  chain from the first of them gives back exactly these clusters.\<close>

theorem fat_alloc_links_fresh_clusters:
  assumes "fat_geom S fat" and "fat_ok S D st" and "vacant_clus fat = []" and "hint fat \<le> tot_ent fat"
    and "case prev of None \<Rightarrow> True | Some l \<Rightarrow> l < tot_ent fat \<and> fat_view fat st l \<noteq> 0" and "0 < n"
    and "n \<le> card (free_clusters (tot_ent fat) (fat_view fat st))" and "fat_view fat st 0 \<noteq> 0"
  shows "\<exists>cs fat' st'. fat_alloc n (map_option of_nat prev) (fat, st) = Some (map of_nat cs, fat', st')
    \<and> length cs = n \<and> distinct cs \<and> set cs \<subseteq> free_clusters (tot_ent fat) (fat_view fat st) \<and> fat_ok S D st'
    \<and> fat_view fat' st' = link_chain (fat_view fat st) prev cs
    \<and> (\<forall>c. c \<notin> set_option prev \<union> set cs \<longrightarrow> fat_view fat' st' c = fat_view fat st c)
    \<and> (\<exists>st''. get_all_clus_num fat' (of_nat (hd cs)) st' = Some (map of_nat cs, st''))"
proof -
  have prev: "\<forall>l \<in> set_option prev. l < tot_ent fat \<and> fat_view fat st l \<noteq> 0" using assms(5) by (cases prev) auto
  obtain cs st' h' where al: "fat_alloc n (map_option of_nat prev) (fat, st) = Some (map of_nat cs, fat\<lparr>hint := h'\<rparr>, st')"
    "length cs = n" "distinct cs" "set cs \<subseteq> free_clusters (tot_ent fat) (fat_view fat st)" "fat_ok S D st'"
    "fat_view fat st' = link_chain (fat_view fat st) prev cs"
    using fat_alloc_ok [OF assms(1-4) prev assms(7,8)] by blast
  let ?fat = "fat\<lparr>hint := h'\<rparr>"
  have cs: "\<forall>c \<in> set cs. c < tot_ent fat \<and> fat_view fat st c = 0" using al(4) by (auto simp: free_clusters_def)
  then have "\<forall>c \<in> set cs. 0 < c \<and> c < 0x0FFFFFF0" using assms(1,8) by (metis fat_geom_def gr0I order_less_le_trans)
  moreover have "cs \<noteq> []" "\<forall>l \<in> set_option prev. l \<notin> set cs" using al(2) assms(6) prev cs by auto
  ultimately have "chain (fat_view ?fat st') cs" using al(3,6) by (simp add: link_chain_chain)
  moreover have "fat_geom S ?fat" "\<forall>c \<in> set cs. c < tot_ent ?fat" using assms(1) cs by simp_all
  ultimately obtain st'' where "get_all_clus_num ?fat (of_nat (hd cs)) st' = Some (map of_nat cs, st'')"
    using get_all_ok [of S ?fat D st' cs] al(5) by blast
  then show ?thesis using al link_chain_other [of _ prev cs "fat_view fat st"]
    by (intro exI [of _ cs] exI [of _ ?fat] exI [of _ st']) simp
qed

theorem fat_alloc_links_fresh_clusters_witness:
  "\<exists>cs fat' st'. fat_alloc 3 (map_option of_nat (Some 1)) (ex_fat, ex_disk) = Some (map of_nat cs, fat', st')
    \<and> length cs = 3 \<and> distinct cs \<and> set cs \<subseteq> free_clusters (tot_ent ex_fat) (fat_view ex_fat ex_disk) \<and> fat_ok {..<2} (\<lambda>_. replicate 512 0) st'
    \<and> fat_view fat' st' = link_chain (fat_view ex_fat ex_disk) (Some 1) cs
    \<and> (\<forall>c. c \<notin> set_option (Some 1) \<union> set cs \<longrightarrow> fat_view fat' st' c = fat_view ex_fat ex_disk c)
    \<and> (\<exists>st''. get_all_clus_num fat' (of_nat (hd cs)) st' = Some (map of_nat cs, st''))"
  by (rule fat_alloc_links_fresh_clusters)
    (simp_all add: ex_disk_ok ex_free ex_fat_def [THEN arg_cong [of _ _ tot_ent]]
      ex_fat_def [THEN arg_cong [of _ _ hint]] ex_fat_def [THEN arg_cong [of _ _ vacant_clus]] EOC_def)

text \<open>C26: freeing the clusters of a fresh allocation gives the table back: every entry is what
  it was before the allocation.\<close>

theorem fat_alloc_free_roundtrip:
  assumes "fat_geom S fat" and "fat_ok S D st" and "vacant_clus fat = []" and "hint fat \<le> tot_ent fat"
    and "n \<le> card (free_clusters (tot_ent fat) (fat_view fat st))" and "fat_view fat st 0 \<noteq> 0"
  shows "\<exists>cs s1 fat2 st2. fat_alloc n None (fat, st) = Some (cs, s1) \<and> fat_free cs None s1 = Some (fat2, st2)
    \<and> fat_ok S D st2 \<and> fat_view fat2 st2 = fat_view fat st"
proof -
  obtain cs st1 h' where al: "fat_alloc n None (fat, st) = Some (map of_nat cs, fat\<lparr>hint := h'\<rparr>, st1)"
    "set cs \<subseteq> free_clusters (tot_ent fat) (fat_view fat st)" "fat_ok S D st1"
    "fat_view fat st1 = link_chain (fat_view fat st) None cs"
    using fat_alloc_ok [OF assms(1-4), of None n] assms(5,6) by auto
  let ?fat = "fat\<lparr>hint := h'\<rparr>"
  have cs: "\<forall>c \<in> set cs. c < tot_ent fat \<and> fat_view fat st c = 0" using al(2) by (auto simp: free_clusters_def)
  obtain vs st2 where fr: "fat_free (map of_nat cs) None (?fat, st1) = Some (?fat\<lparr>vacant_clus := vs\<rparr>, st2)" "fat_ok S D st2"
    "fat_view ?fat st2 = (\<lambda>c. if c \<in> set cs then 0 else fat_view ?fat st1 c)"
    using fat_free_ok [of S ?fat D st1 cs None] assms(1) cs al(3) by (auto simp: link_def)
  have "fat_view (?fat\<lparr>vacant_clus := vs\<rparr>) st2 = fat_view fat st"
    using fr(3) cs link_chain_other [of _ None cs "fat_view fat st"] by (auto simp: al(4) fun_eq_iff)
  then show ?thesis using al(1) fr(1,2) by blast
qed

theorem fat_alloc_free_roundtrip_witness:
  "\<exists>cs s1 fat2 st2. fat_alloc 5 None (ex_fat, ex_disk) = Some (cs, s1) \<and> fat_free cs None s1 = Some (fat2, st2)
    \<and> fat_ok {..<2} (\<lambda>_. replicate 512 0) st2 \<and> fat_view fat2 st2 = fat_view ex_fat ex_disk"
  by (rule fat_alloc_free_roundtrip)
    (simp_all add: ex_disk_ok ex_free ex_fat_def [THEN arg_cong [of _ _ tot_ent]]
      ex_fat_def [THEN arg_cong [of _ _ hint]] ex_fat_def [THEN arg_cong [of _ _ vacant_clus]] EOC_def)

text \<open>C27: a cluster taken from the list of vacant clusters still looks free in the table while the
  next one is searched.  When it is the first free cluster from the hint on, for instance
  after a file with the lowest free clusters was deleted, an allocation of two clusters
  returns the same cluster twice.\<close>

theorem fat_alloc_same_cluster_twice:
  assumes "fat_geom S fat" and "fat_ok S D st" and "vacant_clus fat = [of_nat v]" and "v < tot_ent fat"
    and "fat_view fat st v = 0" and "hint fat \<le> v" and "\<forall>c. hint fat \<le> c \<and> c < v \<longrightarrow> fat_view fat st c \<noteq> 0"
  shows "\<exists>fat' st'. fat_alloc 2 None (fat, st) = Some ([of_nat v, of_nat v], fat', st')"
proof -
  let ?fat = "fat\<lparr>vacant_clus := []\<rparr>"
  have one: "alloc_one None (fat, st) = Some (Some (of_nat v), ?fat, st)"
    by (simp add: alloc_one_def assms(3) vec_pop_def set_next_clus_def)
  have "[hint fat ..< tot_ent fat] = [hint fat ..< v] @ v # [v + 1 ..< tot_ent fat]"
    using assms(4,6) upt_add_eq_append [of "hint fat" v "tot_ent fat - v"] by (simp add: upt_conv_Cons)
  moreover have "find (\<lambda>c. fat_view fat st c = 0) [hint fat ..< v] = None"
    using assms(7) by (auto simp: find_None_iff)
  ultimately have "find (\<lambda>c. fat_view ?fat st c = 0) (scan (hint ?fat) (tot_ent ?fat)) = Some v"
    using assms(5) by (simp add: scan_def find_append)
  then obtain st1 where two: "alloc_one (Some (of_nat v)) (?fat, st) =
      Some (Some (of_nat v), ?fat\<lparr>hint := (v + 1) mod tot_ent fat\<rparr>, st1)" "fat_ok S D st1"
    using alloc_one_ok [of S ?fat D st "Some v" v] assms(1,2,4,6) by auto
  obtain st2 where "set_next_clus fat (Some (of_nat v)) EOC st1 = Some st2"
    using set_next_ok [OF assms(1) two(2) assms(4), of EOC] by blast
  then show ?thesis using one two(1) by (simp add: fat_alloc_def numeral_2_eq_2)
qed

theorem fat_alloc_same_cluster_twice_witness:
  "\<exists>fat' st'. fat_alloc 2 None (ex_fat\<lparr>vacant_clus := [of_nat 2]\<rparr>, ex_disk) = Some ([of_nat 2, of_nat 2], fat', st')"
  by (rule fat_alloc_same_cluster_twice [where S = "{..<2}" and D = "\<lambda>_. replicate 512 0"])
    (simp_all add: ex_disk_ok ex_fat_def [THEN arg_cong [of _ _ tot_ent]] ex_fat_def [THEN arg_cong [of _ _ hint]] EOC_def)

end
