(* ===== verification/Fat_Layout.thy ===== *)
theory Fat_Layout
  imports Fat
begin

unbundle bit_operations_syntax

text \<open>
  \<^verbatim>\<open>kernel/src/fs/fat32/layout.rs\<close>: the boot sector, directory entries and file names.
  A directory entry is a Rust union of a short and a long entry; here it is its 32 bytes,
  and the two structs are read from and laid out into these bytes.  A \<^verbatim>\<open>String\<close> is the
  list of its Unicode scalar values, so that byte lengths and UTF-16 units can be told apart.
\<close>

section \<open>Strings\<close>

type_synonym rstring = "nat list"

definition utf8_len :: "nat \<Rightarrow> nat" where
  "utf8_len c = (if c < 0x80 then 1 else if c < 0x800 then 2 else if c < 0x10000 then 3 else 4)"

definition str_len :: "rstring \<Rightarrow> nat" where
  "str_len s = sum_list (map utf8_len s)"

definition utf8_char :: "nat \<Rightarrow> u8 list" where
  "utf8_char c =
    (if c < 0x80 then [of_nat c]
     else if c < 0x800 then [of_nat (0xC0 + c div 64), of_nat (0x80 + c mod 64)]
     else if c < 0x10000 then [of_nat (0xE0 + c div 4096), of_nat (0x80 + c div 64 mod 64), of_nat (0x80 + c mod 64)]
     else [of_nat (0xF0 + c div 262144), of_nat (0x80 + c div 4096 mod 64), of_nat (0x80 + c div 64 mod 64), of_nat (0x80 + c mod 64)])"

definition as_bytes :: "rstring \<Rightarrow> u8 list" where
  "as_bytes s = concat (map utf8_char s)"

definition is_cont :: "u8 \<Rightarrow> bool" where
  "is_cont b \<longleftrightarrow> b AND 0xC0 = 0x80"

definition cont_val :: "u8 \<Rightarrow> nat" where
  "cont_val b = unat (b AND 0x3F)"

text \<open>\<^verbatim>\<open>core::str::from_utf8\<close>: \<open>None\<close> on a sequence that is not well-formed UTF-8.\<close>

fun from_utf8 :: "u8 list \<Rightarrow> rstring option" where
  "from_utf8 [] = Some []"
| "from_utf8 (a # bs) =
    (if a < 0x80 then map_option ((#) (unat a)) (from_utf8 bs)
     else if 0xC2 \<le> a \<and> a \<le> 0xDF then
       (case bs of b # bs' \<Rightarrow>
          if is_cont b then map_option ((#) (unat (a AND 0x1F) * 64 + cont_val b)) (from_utf8 bs') else None
        | _ \<Rightarrow> None)
     else if 0xE0 \<le> a \<and> a \<le> 0xEF then
       (case bs of b # c # bs' \<Rightarrow>
          let v = unat (a AND 0x0F) * 4096 + cont_val b * 64 + cont_val c in
          if is_cont b \<and> is_cont c \<and> 0x800 \<le> v \<and> \<not> (0xD800 \<le> v \<and> v \<le> 0xDFFF)
          then map_option ((#) v) (from_utf8 bs') else None
        | _ \<Rightarrow> None)
     else if 0xF0 \<le> a \<and> a \<le> 0xF4 then
       (case bs of b # c # d # bs' \<Rightarrow>
          let v = unat (a AND 0x07) * 262144 + cont_val b * 4096 + cont_val c * 64 + cont_val d in
          if is_cont b \<and> is_cont c \<and> is_cont d \<and> 0x10000 \<le> v \<and> v \<le> 0x10FFFF
          then map_option ((#) v) (from_utf8 bs') else None
        | _ \<Rightarrow> None)
     else None)"

definition encode_utf16_char :: "nat \<Rightarrow> u16 list" where
  "encode_utf16_char c =
    (if c < 0x10000 then [of_nat c]
     else [of_nat (0xD800 + (c - 0x10000) div 1024), of_nat (0xDC00 + (c - 0x10000) mod 1024)])"

definition encode_utf16 :: "rstring \<Rightarrow> u16 list" where
  "encode_utf16 s = concat (map encode_utf16_char s)"

fun from_utf16_lossy :: "u16 list \<Rightarrow> rstring" where
  "from_utf16_lossy [] = []"
| "from_utf16_lossy (u # us) =
    (if u < 0xD800 \<or> 0xE000 \<le> u then unat u # from_utf16_lossy us
     else if 0xDC00 \<le> u then 0xFFFD # from_utf16_lossy us
     else (case us of
         v # vs \<Rightarrow>
           if 0xDC00 \<le> v \<and> v < 0xE000
           then (0x10000 + (unat u - 0xD800) * 1024 + (unat v - 0xDC00)) # from_utf16_lossy vs
           else 0xFFFD # from_utf16_lossy us
       | [] \<Rightarrow> [0xFFFD]))"

section \<open>The boot sector\<close>

definition DIR_ENTRY_UNUSED :: u8 where "DIR_ENTRY_UNUSED = 0xE5"
definition DIR_ENTRY_LAST_AND_UNUSED :: u8 where "DIR_ENTRY_LAST_AND_UNUSED = 0"
definition LAST_LONG_ENTRY :: u8 where "LAST_LONG_ENTRY = 0x40"

definition read_u16 :: "nat \<Rightarrow> u8 list \<Rightarrow> u16" where
  "read_u16 off bs = ucast (bs ! off) OR push_bit 8 (ucast (bs ! (off + 1)))"

definition u16_bytes :: "u16 \<Rightarrow> u8 list" where
  "u16_bytes v = [ucast v, ucast (drop_bit 8 v)]"

definition u32_le :: "u32 \<Rightarrow> u8 list" where
  "u32_le v = [ucast v, ucast (drop_bit 8 v), ucast (drop_bit 16 v), ucast (drop_bit 24 v)]"

record BPB =
  bs_jmp_boot :: "u8 list"
  bs_oem_name :: "u8 list"
  bpb_byts_per_sec :: u16
  bpb_sec_per_clus :: u8
  rsvd_sec_cnt :: u16
  num_fats :: u8
  root_ent_cnt :: u16
  tot_sec16 :: u16
  media :: u8
  fat_sz16 :: u16
  sec_per_trk :: u16
  num_heads :: u16
  hidd_sec :: u32
  tot_sec32 :: u32
  fat_sz32 :: u32
  ext_flags :: u16
  fs_ver :: u16
  bpb_root_clus :: u32
  fs_info :: u16
  bk_boot_sec :: u16
  bpb_reserved :: "u8 list"
  drv_num :: u8
  resvered1 :: u8
  boot_sig :: u8
  vol_id :: u32
  vol_lab :: "u8 list"
  fil_sys_type :: "u8 list"

text \<open>The packed struct in the bytes of sector 0.\<close>

definition read_BPB :: "u8 list \<Rightarrow> BPB" where
  "read_BPB b = \<lparr>
     bs_jmp_boot = take 3 b, bs_oem_name = take 8 (drop 3 b), bpb_byts_per_sec = read_u16 11 b,
     bpb_sec_per_clus = b ! 13, rsvd_sec_cnt = read_u16 14 b, num_fats = b ! 16,
     root_ent_cnt = read_u16 17 b, tot_sec16 = read_u16 19 b, media = b ! 21, fat_sz16 = read_u16 22 b,
     sec_per_trk = read_u16 24 b, num_heads = read_u16 26 b, hidd_sec = read_u32 28 b,
     tot_sec32 = read_u32 32 b, fat_sz32 = read_u32 36 b, ext_flags = read_u16 40 b, fs_ver = read_u16 42 b,
     bpb_root_clus = read_u32 44 b, fs_info = read_u16 48 b, bk_boot_sec = read_u16 50 b,
     bpb_reserved = take 12 (drop 52 b), drv_num = b ! 64, resvered1 = b ! 65, boot_sig = b ! 66,
     vol_id = read_u32 67 b, vol_lab = take 11 (drop 71 b), fil_sys_type = take 8 (drop 82 b)\<rparr>"

definition root_dir_sec :: "BPB \<Rightarrow> u32 run" where
  "root_dir_sec b = do {
     rust_assert (bpb_byts_per_sec b \<noteq> 0);
     ret (ucast ((root_ent_cnt b * 32 + (bpb_byts_per_sec b - 1)) div bpb_byts_per_sec b)) }"

definition data_sector_count :: "BPB \<Rightarrow> u32 run" where
  "data_sector_count b = do {
     r \<leftarrow> root_dir_sec b;
     ret (tot_sec32 b - (ucast (rsvd_sec_cnt b) + ucast (num_fats b) * fat_sz32 b + r)) }"

definition count_of_cluster :: "BPB \<Rightarrow> u32 run" where
  "count_of_cluster b = do {
     n \<leftarrow> data_sector_count b;
     rust_assert (bpb_sec_per_clus b \<noteq> 0);
     ret (n div ucast (bpb_sec_per_clus b)) }"

definition bpb_clus_size :: "BPB \<Rightarrow> u32" where
  "bpb_clus_size b = ucast (bpb_byts_per_sec b * ucast (bpb_sec_per_clus b))"

definition is_valid :: "BPB \<Rightarrow> bool run" where
  "is_valid b = do {
     r \<leftarrow> root_dir_sec b;
     if r \<noteq> 0 \<or> tot_sec16 b \<noteq> 0 then ret False
     else do {
       n \<leftarrow> count_of_cluster b;
       ret (66625 \<le> n \<and> fat_sz16 b = 0 \<and> root_ent_cnt b = 0) } }"

definition first_data_sector :: "BPB \<Rightarrow> u32 run" where
  "first_data_sector b = do {
     let fat_sz = (if fat_sz16 b \<noteq> 0 then ucast (fat_sz16 b) else fat_sz32 b);
     r \<leftarrow> root_dir_sec b;
     ret (ucast (rsvd_sec_cnt b) + ucast (num_fats b) * fat_sz + r) }"

datatype FatType = FAT32 | FAT16 | FAT12

definition fat_type :: "BPB \<Rightarrow> FatType run" where
  "fat_type b = do {
     n \<leftarrow> count_of_cluster b;
     ret (if n < 4085 then FAT12 else if n < 65525 then FAT16 else FAT32) }"

section \<open>Directory entries\<close>

datatype DiskInodeType = File | Directory

definition AttrClear :: u8 where "AttrClear = 0"
definition AttrReadOnly :: u8 where "AttrReadOnly = 0x01"
definition AttrHidden :: u8 where "AttrHidden = 0x02"
definition AttrSystem :: u8 where "AttrSystem = 0x04"
definition AttrVolumeID :: u8 where "AttrVolumeID = 0x08"
definition AttrDirectory :: u8 where "AttrDirectory = 0x10"
definition AttrArchive :: u8 where "AttrArchive = 0x20"
definition AttrLongName :: u8 where "AttrLongName = 0x0F"

lemmas attr_defs = AttrClear_def AttrReadOnly_def AttrHidden_def AttrSystem_def AttrVolumeID_def
  AttrDirectory_def AttrArchive_def AttrLongName_def

record FATShortDirEnt =
  se_name :: "u8 list"
  se_attr :: u8
  nt_res :: u8
  crt_time_teenth :: u8
  crt_time :: u16
  crt_date :: u16
  last_acc_date :: u16
  fst_clus_hi :: u16
  wrt_time :: u16
  wrt_date :: u16
  fst_clus_lo :: u16
  file_size :: u32

record FATLongDirEnt =
  le_ord :: u8
  name1 :: "u16 list"
  le_attr :: u8
  ldir_type :: u8
  chk_sum :: u8
  name2 :: "u16 list"
  le_fst_clus_lo :: u16
  name3 :: "u16 list"

text \<open>The union: 32 bytes, read as either struct.\<close>

type_synonym FATDirEnt = "u8 list"

definition short_bytes :: "FATShortDirEnt \<Rightarrow> FATDirEnt" where
  "short_bytes e = se_name e @ [se_attr e, nt_res e, crt_time_teenth e] @ u16_bytes (crt_time e)
     @ u16_bytes (crt_date e) @ u16_bytes (last_acc_date e) @ u16_bytes (fst_clus_hi e) @ u16_bytes (wrt_time e)
     @ u16_bytes (wrt_date e) @ u16_bytes (fst_clus_lo e) @ u32_le (file_size e)"

definition short_entry :: "FATDirEnt \<Rightarrow> FATShortDirEnt" where
  "short_entry b = \<lparr>se_name = take 11 b, se_attr = b ! 11, nt_res = b ! 12, crt_time_teenth = b ! 13,
     crt_time = read_u16 14 b, crt_date = read_u16 16 b, last_acc_date = read_u16 18 b, fst_clus_hi = read_u16 20 b,
     wrt_time = read_u16 22 b, wrt_date = read_u16 24 b, fst_clus_lo = read_u16 26 b, file_size = read_u32 28 b\<rparr>"

definition u16_list_bytes :: "u16 list \<Rightarrow> u8 list" where
  "u16_list_bytes us = concat (map u16_bytes us)"

definition read_u16s :: "nat \<Rightarrow> nat \<Rightarrow> u8 list \<Rightarrow> u16 list" where
  "read_u16s off n b = map (\<lambda>i. read_u16 (off + 2 * i) b) [0..<n]"

definition long_bytes :: "FATLongDirEnt \<Rightarrow> FATDirEnt" where
  "long_bytes e = [le_ord e] @ u16_list_bytes (name1 e) @ [le_attr e, ldir_type e, chk_sum e]
     @ u16_list_bytes (name2 e) @ u16_bytes (le_fst_clus_lo e) @ u16_list_bytes (name3 e)"

definition long_entry :: "FATDirEnt \<Rightarrow> FATLongDirEnt" where
  "long_entry b = \<lparr>le_ord = b ! 0, name1 = read_u16s 1 5 b, le_attr = b ! 11, ldir_type = b ! 12,
     chk_sum = b ! 13, name2 = read_u16s 14 6 b, le_fst_clus_lo = read_u16 26 b, name3 = read_u16s 28 2 b\<rparr>"

definition ShortDirEnt_empty :: FATShortDirEnt where
  "ShortDirEnt_empty = \<lparr>se_name = replicate 11 0, se_attr = AttrArchive, nt_res = 0, crt_time_teenth = 0,
     crt_time = 0, crt_date = 0, last_acc_date = 0, fst_clus_hi = 0, wrt_time = 0, wrt_date = 0, fst_clus_lo = 0,
     file_size = 0\<rparr>"

definition short_set_fst_clus :: "u32 \<Rightarrow> FATShortDirEnt \<Rightarrow> FATShortDirEnt" where
  "short_set_fst_clus c e = e\<lparr>fst_clus_hi := ucast (drop_bit 16 c), fst_clus_lo := ucast (c AND 0xFFFF)\<rparr>"

definition get_first_clus :: "FATShortDirEnt \<Rightarrow> u32" where
  "get_first_clus e = ucast (fst_clus_lo e) OR push_bit 16 (ucast (fst_clus_hi e))"

definition ShortDirEnt_from_name :: "u8 list \<Rightarrow> u32 \<Rightarrow> DiskInodeType \<Rightarrow> FATShortDirEnt" where
  "ShortDirEnt_from_name name fst_clus file_type =
    (short_set_fst_clus fst_clus ShortDirEnt_empty)
      \<lparr>se_name := name, se_attr := (if file_type = Directory then AttrDirectory else AttrArchive)\<rparr>"

definition short_is_dir :: "FATShortDirEnt \<Rightarrow> bool" where
  "short_is_dir e \<longleftrightarrow> se_attr e = AttrDirectory"

definition short_is_file :: "FATShortDirEnt \<Rightarrow> bool" where
  "short_is_file e \<longleftrightarrow> se_attr e = AttrArchive \<or> se_attr e = AttrHidden \<or> se_attr e = AttrSystem \<or> se_attr e = AttrReadOnly"

definition find_index :: "('a \<Rightarrow> bool) \<Rightarrow> 'a list \<Rightarrow> nat option" where
  "find_index P xs = (let n = length (takeWhile (\<lambda>x. \<not> P x) xs) in if n < length xs then Some n else None)"

definition as_u8str :: "u8 list \<Rightarrow> rstring" where
  "as_u8str bs = (case from_utf8 bs of Some s \<Rightarrow> s | None \<Rightarrow> [])"

definition short_name :: "FATShortDirEnt \<Rightarrow> rstring" where
  "short_name e =
    (let basic_name_len = (case find_index (\<lambda>b. b = 32) (take 8 (se_name e)) of Some i \<Rightarrow> i | None \<Rightarrow> 8);
         ext_name_len = (case find_index (\<lambda>b. b = 32) (take 3 (drop 8 (se_name e))) of Some i \<Rightarrow> i | None \<Rightarrow> 3)
     in if ext_name_len \<noteq> 0
        then as_u8str (take basic_name_len (se_name e)) @ [46] @ as_u8str (take ext_name_len (drop 8 (se_name e)))
        else as_u8str (take basic_name_len (se_name e)))"

definition LONG_DIR_ENT_NAME_CAPACITY :: nat where "LONG_DIR_ENT_NAME_CAPACITY = 13"

definition LongDirEnt_empty :: FATLongDirEnt where
  "LongDirEnt_empty = \<lparr>le_ord = 0, name1 = replicate 5 0, le_attr = AttrLongName, ldir_type = 0, chk_sum = 0,
     name2 = replicate 6 0, le_fst_clus_lo = 0, name3 = replicate 2 0\<rparr>"

definition from_name_slice :: "bool \<Rightarrow> nat \<Rightarrow> u16 list \<Rightarrow> FATLongDirEnt" where
  "from_name_slice is_last_ent order partial_name =
    (let e = LongDirEnt_empty\<lparr>name1 := take 5 partial_name, name2 := take 6 (drop 5 partial_name), name3 := drop 11 partial_name,
                              le_ord := of_nat order\<rparr>
     in if is_last_ent then e\<lparr>le_ord := le_ord e OR LAST_LONG_ENTRY\<rparr> else e)"

definition long_name :: "FATLongDirEnt \<Rightarrow> rstring" where
  "long_name e =
    (let name_all = name1 e @ name2 e @ name3 e;
         n = (case find_index (\<lambda>u. u = 0) name_all of Some i \<Rightarrow> i | None \<Rightarrow> length name_all)
     in from_utf16_lossy (take n name_all))"

section \<open>Operations on entries\<close>

definition DirEnt_empty :: FATDirEnt where
  "DirEnt_empty = short_bytes ShortDirEnt_empty"

definition unused_not_last_entry :: FATDirEnt where
  "unused_not_last_entry = DirEnt_empty[0 := DIR_ENTRY_UNUSED]"

definition unused_and_last_entry :: FATDirEnt where
  "unused_and_last_entry = DirEnt_empty[0 := DIR_ENTRY_LAST_AND_UNUSED, 11 := 0]"

definition is_long :: "FATDirEnt \<Rightarrow> bool" where
  "is_long b \<longleftrightarrow> se_attr (short_entry b) = AttrLongName"

definition is_short :: "FATDirEnt \<Rightarrow> bool" where
  "is_short b \<longleftrightarrow> \<not> is_long b"

definition get_short_ent :: "FATDirEnt \<Rightarrow> FATShortDirEnt option" where
  "get_short_ent b = (if \<not> is_long b then Some (short_entry b) else None)"

definition get_long_ent :: "FATDirEnt \<Rightarrow> FATLongDirEnt option" where
  "get_long_ent b = (if is_long b then Some (long_entry b) else None)"

definition is_last_long_dir_ent :: "FATDirEnt \<Rightarrow> bool" where
  "is_last_long_dir_ent b = (case get_long_ent b of Some i \<Rightarrow> le_ord i AND LAST_LONG_ENTRY \<noteq> 0 | None \<Rightarrow> False)"

definition ent_ord :: "FATDirEnt \<Rightarrow> nat" where
  "ent_ord b = (case get_long_ent b of Some i \<Rightarrow> unat (le_ord i AND (LAST_LONG_ENTRY - 1)) | None \<Rightarrow> 0)"

definition ent_set_size :: "u32 \<Rightarrow> FATDirEnt \<Rightarrow> FATDirEnt" where
  "ent_set_size sz b = short_bytes ((short_entry b)\<lparr>file_size := sz\<rparr>)"

definition get_fst_clus :: "FATDirEnt \<Rightarrow> u32 run" where
  "get_fst_clus b = (if is_short b then ret (get_first_clus (short_entry b)) else panic)"

definition set_fst_clus :: "u32 \<Rightarrow> FATDirEnt \<Rightarrow> FATDirEnt run" where
  "set_fst_clus c b = (if is_short b then ret (short_bytes (short_set_fst_clus c (short_entry b))) else panic)"

definition get_name :: "FATDirEnt \<Rightarrow> rstring" where
  "get_name b = (if is_long b then long_name (long_entry b) else short_name (short_entry b))"

definition set_name :: "u8 list \<Rightarrow> FATDirEnt \<Rightarrow> FATDirEnt run" where
  "set_name name b = (if is_short b then ret (short_bytes ((short_entry b)\<lparr>se_name := name\<rparr>)) else panic)"

definition get_short_name_array :: "FATDirEnt \<Rightarrow> u8 list" where
  "get_short_name_array b = se_name (short_entry b)"

definition unused_not_last :: "FATDirEnt \<Rightarrow> bool" where
  "unused_not_last b \<longleftrightarrow> le_ord (long_entry b) = DIR_ENTRY_UNUSED"

definition last_and_unused :: "FATDirEnt \<Rightarrow> bool" where
  "last_and_unused b \<longleftrightarrow> le_ord (long_entry b) = DIR_ENTRY_LAST_AND_UNUSED"

definition ent_unused :: "FATDirEnt \<Rightarrow> bool" where
  "ent_unused b \<longleftrightarrow> last_and_unused b \<or> unused_not_last b"

section \<open>Short names\<close>

fun hex_nat :: "nat \<Rightarrow> nat list" where
  "hex_nat n = (if n < 16 then [n] else hex_nat (n div 16) @ [n mod 16])"

declare hex_nat.simps [simp del]

definition hex_digit :: "nat \<Rightarrow> u8" where
  "hex_digit d = (if d < 10 then 48 + of_nat d else 55 + of_nat d)"

text \<open>\<^verbatim>\<open>format!("{:04X}", i)\<close> of an \<^verbatim>\<open>i32\<close>: upper-case digits of its two's complement, at least four.\<close>

definition format_04X :: "u32 \<Rightarrow> u8 list" where
  "format_04X i = (let ds = hex_nat (unat i) in replicate (4 - length ds) 48 @ map hex_digit ds)"

definition name_taken :: "FATDirEnt list \<Rightarrow> u8 list \<Rightarrow> bool" where
  "name_taken v name_res \<longleftrightarrow> name_res \<in> set (map get_short_name_array v)"

fun numtail_digits :: "FATDirEnt list \<Rightarrow> nat \<Rightarrow> nat list \<Rightarrow> u8 list \<Rightarrow> bool \<times> u8 list" where
  "numtail_digits v baselen [] name_res = (False, name_res)"
| "numtail_digits v baselen (i # is) name_res =
    (let name_res = name_res[baselen + 1 := of_nat i + 48] in
     if \<not> name_taken v name_res then (True, name_res) else numtail_digits v baselen is name_res)"

definition put_hex :: "nat \<Rightarrow> u32 \<Rightarrow> u8 list \<Rightarrow> u8 list" where
  "put_hex baselen i name_res = take baselen name_res @ take 4 (format_04X i) @ drop (baselen + 4) name_res"

partial_function (option) numtail_loop :: "FATDirEnt list \<Rightarrow> nat \<Rightarrow> u32 \<Rightarrow> u8 list \<Rightarrow> u8 list run" where
  "numtail_loop v baselen i name_res =
    (let name_res = put_hex baselen i name_res in
     if \<not> name_taken v name_res then ret name_res else numtail_loop v baselen (i - 11) name_res)"

definition numtail_hex :: "FATDirEnt list \<Rightarrow> nat \<Rightarrow> u8 list \<Rightarrow> u8 list run" where
  "numtail_hex v baselen name_res =
    (let jiffies = 19382022 :: u32;
         i = jiffies AND 0xFFFF;
         sz = ucast (drop_bit 10 jiffies AND 7) :: u8;
         name_res = (if 2 < baselen then name_res[7 := 32] else name_res);
         baselen = (if 2 < baselen then 2 else baselen)
     in numtail_loop v baselen i (name_res[baselen + 4 := 126, baselen + 5 := 49 + sz]))"

definition gen_short_name_numtail :: "FATDirEnt list \<Rightarrow> u8 list \<Rightarrow> u8 list run" where
  "gen_short_name_numtail v name_res =
    (if \<not> name_taken v name_res then ret name_res
     else
       let baselen = (case find_index (\<lambda>b. b = 32) name_res of Some i \<Rightarrow> i | None \<Rightarrow> 8);
           name_res = (if 6 < baselen then name_res[7 := 32] else name_res);
           baselen = (if 6 < baselen then 6 else baselen);
           (found, name_res) = numtail_digits v baselen [1..<10] (name_res[baselen := 126])
       in if found then ret name_res else numtail_hex v baselen name_res)"

definition make_ascii_uppercase :: "rstring \<Rightarrow> rstring" where
  "make_ascii_uppercase s = map (\<lambda>c. if 97 \<le> c \<and> c \<le> 122 then c - 32 else c) s"

definition rsplit_once :: "nat \<Rightarrow> rstring \<Rightarrow> (rstring \<times> rstring) option" where
  "rsplit_once c s =
    (if c \<in> set s
     then Some (rev (tl (dropWhile (\<lambda>x. x \<noteq> c) (rev s))), rev (takeWhile (\<lambda>x. x \<noteq> c) (rev s)))
     else None)"

text \<open>\<^verbatim>\<open>str::split_at\<close> counts bytes and panics inside a character; this is its first component.\<close>

fun split_at_fst :: "nat \<Rightarrow> rstring \<Rightarrow> rstring run" where
  "split_at_fst n s =
    (if n = 0 then ret []
     else case s of [] \<Rightarrow> panic
       | c # s' \<Rightarrow> if utf8_len c \<le> n then map_option ((#) c) (split_at_fst (n - utf8_len c) s') else panic)"

declare split_at_fst.simps [simp del]

text \<open>\<^verbatim>\<open>{: <n}\<close>: the width counts characters.\<close>

definition pad_right :: "nat \<Rightarrow> rstring \<Rightarrow> rstring" where
  "pad_right n s = s @ replicate (n - length s) 32"

definition gen_short_name_prefix :: "rstring \<Rightarrow> rstring run" where
  "gen_short_name_prefix s = do {
     let s = make_ascii_uppercase (filter (\<lambda>c. c \<noteq> 32) s);
     let (base, ext) = (case rsplit_once 46 s of Some be \<Rightarrow> be | None \<Rightarrow> (s, []));
     let (base, ext) = (if str_len base = 0 \<and> str_len ext \<noteq> 0 then (ext, base) else (base, ext));
     let base = (let t = dropWhile (\<lambda>c. c = 46) base in if t = [] then base else t);
     let base = dropWhile (\<lambda>c. c = 46) base;
     base \<leftarrow> (if str_len ext \<noteq> 0 \<or> str_len base \<noteq> 0
              then map_option (pad_right 8) (split_at_fst (min 8 (str_len base)) base) else ret []);
     ext \<leftarrow> (if str_len ext \<noteq> 0 \<or> str_len base \<noteq> 0
             then map_option (pad_right 3) (split_at_fst (min 3 (str_len ext)) ext) else ret []);
     ret (base @ ext) }"

section \<open>Layout round trips\<close>

lemma u16_bytes_read:
  "(ucast (ucast v :: u8) :: u16) OR push_bit 8 (ucast (ucast (drop_bit 8 v) :: u8)) = v"
  by (rule bit_word_eqI) (auto simp: bit_simps)

lemma read_u16_bytes [simp]:
  "off + 1 < length bs \<Longrightarrow> bs ! off = ucast v \<Longrightarrow> bs ! (off + 1) = ucast (drop_bit 8 v) \<Longrightarrow> read_u16 off bs = v"
  by (simp add: read_u16_def u16_bytes_read)

lemma list_of_length_11: "length xs = 11 \<Longrightarrow> \<exists>a b c d e f g h i j k. xs = [a, b, c, d, e, f, g, h, i, j, k]"
  by (simp add: length_Suc_conv numeral_eq_Suc) blast

lemma length_short_bytes: "length (se_name e) = 11 \<Longrightarrow> length (short_bytes e) = 32"
  by (simp add: short_bytes_def u16_bytes_def u32_le_def)

lemma short_entry_short_bytes:
  assumes "length (se_name e) = 11"
  shows "short_entry (short_bytes e) = e"
proof -
  obtain a b c d f g h i j k l where "se_name e = [a, b, c, d, f, g, h, i, j, k, l]"
    using list_of_length_11 [OF assms] by blast
  then show ?thesis
    by (intro FATShortDirEnt.equality)
      (simp_all add: short_entry_def short_bytes_def u16_bytes_def u32_le_def read_u16_def read_u32_def
        u16_bytes_read u32_bytes)
qed

lemma list_of_length_5: "length xs = 5 \<Longrightarrow> \<exists>a b c d e. xs = [a, b, c, d, e]"
  by (simp add: length_Suc_conv numeral_eq_Suc) blast

lemma list_of_length_6: "length xs = 6 \<Longrightarrow> \<exists>a b c d e f. xs = [a, b, c, d, e, f]"
  by (simp add: length_Suc_conv numeral_eq_Suc) blast

lemma list_of_length_2: "length xs = 2 \<Longrightarrow> \<exists>a b. xs = [a, b]"
  by (simp add: length_Suc_conv numeral_eq_Suc) blast

definition long_ok :: "FATLongDirEnt \<Rightarrow> bool" where
  "long_ok e \<longleftrightarrow> length (name1 e) = 5 \<and> length (name2 e) = 6 \<and> length (name3 e) = 2"

lemma length_u16_list_bytes [simp]: "length (u16_list_bytes us) = 2 * length us"
  by (induction us) (simp_all add: u16_list_bytes_def u16_bytes_def)

lemma length_long_bytes: "long_ok e \<Longrightarrow> length (long_bytes e) = 32"
  by (simp add: long_bytes_def long_ok_def u16_bytes_def)

lemma long_entry_long_bytes:
  assumes "long_ok e"
  shows "long_entry (long_bytes e) = e"
proof -
  obtain a b c d f where n1: "name1 e = [a, b, c, d, f]" using assms list_of_length_5 unfolding long_ok_def by blast
  obtain g h i j k l where n2: "name2 e = [g, h, i, j, k, l]" using assms list_of_length_6 unfolding long_ok_def by blast
  obtain m n where n3: "name3 e = [m, n]" using assms list_of_length_2 unfolding long_ok_def by blast
  show ?thesis
    by (intro FATLongDirEnt.equality)
      (simp_all add: long_entry_def long_bytes_def u16_bytes_def u16_list_bytes_def read_u16_def read_u16s_def
        upt_rec n1 n2 n3 u16_bytes_read)
qed

lemma get_set_fst_clus [simp]: "get_first_clus (short_set_fst_clus c e) = c"
proof -
  have "c AND 0xFFFF = take_bit 16 c" by (simp add: take_bit_eq_mask mask_eq_exp_minus_1)
  then show ?thesis unfolding get_first_clus_def short_set_fst_clus_def
    by (intro bit_word_eqI) (auto simp: bit_simps)
qed

end
