(* ===== verification/Fat_Names.thy ===== *)
theory Fat_Names
  imports Fat_Layout
begin

unbundle bit_operations_syntax

text \<open>
  File names in a FAT directory: the name part of \<^verbatim>\<open>kernel/src/fs/fat32/vfs.rs\<close>
  (\<^verbatim>\<open>gen_long_name_slice\<close>, \<^verbatim>\<open>gen_name_slice\<close>, \<^verbatim>\<open>gen_dir_ent\<close>) and what the generators of
  \<^verbatim>\<open>layout.rs\<close> give: short names that no other entry has, and long names that read back.
\<close>

section \<open>Generation of the entries of a file\<close>

definition gen_long_name_slice :: "rstring \<Rightarrow> nat \<Rightarrow> u16 list" where
  "gen_long_name_slice name long_ent_index =
    (let v = encode_utf16 name;
         v = v @ replicate ((long_ent_index + 1) * 13 - length v) 0
     in take 13 (drop (long_ent_index * 13) v))"

text \<open>\<open>v\<close> are the short entries of the parent directory.\<close>

definition gen_short_name_slice :: "FATDirEnt list \<Rightarrow> rstring \<Rightarrow> u8 list run" where
  "gen_short_name_slice v name = do {
     short_name \<leftarrow> gen_short_name_prefix name;
     rust_assert (\<not> (short_name = [] \<or> hd short_name = 32));
     bytes \<leftarrow> vec_slice (as_bytes short_name) 0 11;
     gen_short_name_numtail v bytes }"

definition gen_name_slice :: "FATDirEnt list \<Rightarrow> rstring \<Rightarrow> (u8 list \<times> u16 list list) run" where
  "gen_name_slice v name = do {
     short_name_slice \<leftarrow> gen_short_name_slice v name;
     let long_ent_num = (str_len name + 12) div 13;
     ret (short_name_slice, map (gen_long_name_slice name) [0..<long_ent_num]) }"

definition gen_dir_ent :: "FATDirEnt list \<Rightarrow> rstring \<Rightarrow> u32 \<Rightarrow> DiskInodeType \<Rightarrow> (FATShortDirEnt \<times> FATLongDirEnt list) run" where
  "gen_dir_ent v name fst_clus file_type = do {
     (short_name_slice, long_name_slices) \<leftarrow> gen_name_slice v name;
     let n = length long_name_slices;
     ret (ShortDirEnt_from_name short_name_slice fst_clus file_type,
          map (\<lambda>i. from_name_slice (i + 1 = n) (i + 1) (long_name_slices ! i)) [0..<n]) }"

section \<open>Numeric tails\<close>

lemma hex_digit_val: "d < 16 \<Longrightarrow> unat (hex_digit d) = (if d < 10 then 48 + d else 55 + d)"
  by (simp add: hex_digit_def unat_word_ariths unat_of_nat)

lemma hex_digit_inj:
  assumes "a < 16" and "b < 16" and "hex_digit a = hex_digit b"
  shows "a = b"
proof -
  have "(if a < 10 then 48 + a else 55 + a) = (if b < 10 then 48 + b else 55 + b)"
    using hex_digit_val [OF assms(1)] hex_digit_val [OF assms(2)] assms(3) by metis
  then show ?thesis by (simp split: if_splits)
qed

lemma hex_nat_small: "n < 16 \<Longrightarrow> hex_nat n = [n]"
  by (simp add: hex_nat.simps [of n])

lemma hex_nat_big: "\<not> n < 16 \<Longrightarrow> hex_nat n = hex_nat (n div 16) @ [n mod 16]"
  by (simp add: hex_nat.simps [of n])

lemma format_04X_small:
  assumes "n < 65536"
  shows "format_04X (of_nat n) = map hex_digit [n div 16 div 16 div 16, n div 16 div 16 mod 16, n div 16 mod 16, n mod 16]"
proof -
  let ?a = "n div 16" let ?b = "?a div 16" let ?c = "?b div 16"
  have u: "unat (of_nat n :: u32) = n" using assms by (simp add: unat_of_nat)
  have c: "?c < 16" using assms by (simp add: less_mult_imp_div_less)
  have z: "hex_digit 0 = 48" by (simp add: hex_digit_def)
  have rep: "replicate 3 x = [x, x, x]" "replicate 2 x = [x, x]" for x :: u8 by (simp_all add: numeral_eq_Suc)
  consider "n < 16" | "\<not> n < 16" "?a < 16" | "\<not> n < 16" "\<not> ?a < 16" "?b < 16" | "\<not> n < 16" "\<not> ?a < 16" "\<not> ?b < 16" by blast
  then show ?thesis
  proof cases
    case 1
    then show ?thesis by (simp only: format_04X_def u Let_def hex_nat_small) (simp add: z rep)
  next
    case 2
    then show ?thesis by (simp only: format_04X_def u Let_def hex_nat_small hex_nat_big [OF 2(1)]) (simp add: z rep)
  next
    case 3
    then show ?thesis
      by (simp only: format_04X_def u Let_def hex_nat_small hex_nat_big [OF 3(1)] hex_nat_big [OF 3(2)]) (simp add: z)
  next
    case 4
    then show ?thesis
      by (simp only: format_04X_def u Let_def hex_nat_small [OF c] hex_nat_big [OF 4(1)] hex_nat_big [OF 4(2)] hex_nat_big [OF 4(3)]) simp
  qed
qed

lemma div_mod_16_eqI: "(a :: nat) div 16 = b div 16 \<Longrightarrow> a mod 16 = b mod 16 \<Longrightarrow> a = b"
  by (metis mult_div_mod_eq)

lemma format_04X_inj:
  assumes "n < 65536" and "m < 65536" and "format_04X (of_nat n) = format_04X (of_nat m)"
  shows "n = m"
proof -
  have lt: "n div 16 div 16 div 16 < 16" "m div 16 div 16 div 16 < 16" using assms by (simp_all add: less_mult_imp_div_less)
  have m: "x mod 16 < 16" for x :: nat by simp
  have "hex_digit (n div 16 div 16 div 16) = hex_digit (m div 16 div 16 div 16)" "hex_digit (n div 16 div 16 mod 16) = hex_digit (m div 16 div 16 mod 16)"
    "hex_digit (n div 16 mod 16) = hex_digit (m div 16 mod 16)" "hex_digit (n mod 16) = hex_digit (m mod 16)"
    using assms(3) unfolding format_04X_small [OF assms(1)] format_04X_small [OF assms(2)] by simp_all
  then show ?thesis using hex_digit_inj [OF lt] hex_digit_inj [OF m m] by (metis div_mod_16_eqI)
qed

lemma length_format_04X: "4 \<le> length (format_04X i)"
  by (simp add: format_04X_def Let_def)

lemma length_put_hex [simp]: "bl + 4 \<le> length nm \<Longrightarrow> length (put_hex bl i nm) = length nm"
  using length_format_04X [of i] by (simp add: put_hex_def)

lemma put_hex_twice: "bl + 4 \<le> length nm \<Longrightarrow> put_hex bl i (put_hex bl j nm) = put_hex bl i nm"
  using length_format_04X [of j] by (simp add: put_hex_def)

lemma put_hex_inj:
  assumes "bl + 4 \<le> length nm" and "n < 65536" and "m < 65536" and "put_hex bl (of_nat n) nm = put_hex bl (of_nat m) nm"
  shows "n = m"
proof -
  have "take 4 (format_04X (of_nat n)) = take 4 (format_04X (of_nat m))"
    using assms(1,4) length_format_04X by (simp add: put_hex_def)
  then show ?thesis using format_04X_inj [OF assms(2,3)] by (simp add: format_04X_small assms(2,3))
qed

lemma numtail_loop_ok:
  assumes "bl + 4 \<le> length nm" and "\<And>k. k < K \<Longrightarrow> name_taken v (put_hex bl (i - 11 * of_nat k) nm)"
    and "\<not> name_taken v (put_hex bl (i - 11 * of_nat K) nm)"
  shows "numtail_loop v bl i nm = Some (put_hex bl (i - 11 * of_nat K) nm)"
  using assms
proof (induction K arbitrary: i nm)
  case 0
  then show ?case by (subst numtail_loop.simps) simp
next
  case (Suc K)
  let ?nm = "put_hex bl i nm"
  have now: "name_taken v ?nm" using Suc.prems(2) [of 0] by simp
  have later: "name_taken v (put_hex bl (i - 11 - 11 * of_nat k) ?nm)" if "k < K" for k
    using Suc.prems(2) [of "Suc k"] that Suc.prems(1) by (simp add: put_hex_twice algebra_simps)
  have stop: "\<not> name_taken v (put_hex bl (i - 11 - 11 * of_nat K) ?nm)"
    using Suc.prems(1,3) by (simp add: put_hex_twice algebra_simps)
  have "numtail_loop v bl (i - 11) ?nm = Some (put_hex bl (i - 11 - 11 * of_nat K) ?nm)"
    using Suc.IH [OF _ later stop] Suc.prems(1) by simp
  then show ?case using now Suc.prems(1)
    by (subst numtail_loop.simps) (simp add: put_hex_twice algebra_simps)
qed

lemma numtail_loop_total:
  assumes "bl + 4 \<le> length nm" and "length v < 4446"
  shows "\<exists>r. numtail_loop v bl 48902 nm = Some r \<and> length r = length nm \<and> \<not> name_taken v r"
proof -
  define f where "f k = put_hex bl (of_nat (48902 - 11 * k)) nm" for k
  have inj: "inj_on f {..<4446}"
  proof (rule inj_onI)
    fix x y assume xy: "x \<in> {..<4446}" "y \<in> {..<4446}" "f x = f y"
    then have "48902 - 11 * x = 48902 - 11 * y"
      by (intro put_hex_inj [OF assms(1)]) (simp_all add: f_def)
    then show "x = y" using xy(1,2) by simp
  qed
  have "\<exists>k < 4446. \<not> name_taken v (f k)"
  proof (rule ccontr)
    assume "\<not> ?thesis"
    then have "f ` {..<4446} \<subseteq> set (map get_short_name_array v)" by (auto simp: name_taken_def)
    then have "card (f ` {..<4446}) \<le> card (set (map get_short_name_array v))" by (intro card_mono) simp_all
    then have "4446 \<le> card (set (map get_short_name_array v))" using card_image [OF inj] by simp
    then show False using card_length [of "map get_short_name_array v"] assms(2) by simp
  qed
  then obtain k0 where k0: "k0 < 4446" "\<not> name_taken v (f k0)" by blast
  define K where "K = (LEAST k. \<not> name_taken v (f k))"
  have K: "\<not> name_taken v (f K)" "K \<le> k0" "\<And>k. k < K \<Longrightarrow> name_taken v (f k)"
    unfolding K_def using k0(2) by (rule LeastI, rule Least_le) (use not_less_Least in blast)
  have lt: "K < 4446" using K(2) k0(1) by simp
  have f: "f k = put_hex bl (48902 - 11 * of_nat k) nm" if "k < 4446" for k
    using that by (simp add: f_def of_nat_diff)
  have "numtail_loop v bl 48902 nm = Some (put_hex bl (48902 - 11 * of_nat K) nm)"
  proof (rule numtail_loop_ok [OF assms(1)])
    fix k assume "k < K"
    then show "name_taken v (put_hex bl (48902 - 11 * of_nat k) nm)" using K(3) [OF \<open>k < K\<close>] f [of k] lt by simp
  next
    show "\<not> name_taken v (put_hex bl (48902 - 11 * of_nat K) nm)" using K(1) f [OF lt] by simp
  qed
  then show ?thesis using K k0(1) f [of K] assms(1) by simp
qed

lemma numtail_digits_ok:
  "numtail_digits v bl is nm = (found, r) \<Longrightarrow> length r = length nm \<and> (found \<longrightarrow> \<not> name_taken v r)"
  by (induction v bl "is" nm rule: numtail_digits.induct) (auto simp: Let_def split: if_splits)

lemma numtail_hex_ok:
  assumes "length nm = 11" and "length v < 4446"
  shows "\<exists>r. numtail_hex v bl nm = Some r \<and> length r = 11 \<and> \<not> name_taken v r"
proof -
  define b2 where "b2 = (if 2 < bl then 2 else bl)"
  define n3 where "n3 = (if 2 < bl then nm[7 := 32] else nm)[b2 + 4 := 126, b2 + 5 := 56]"
  have n3: "length n3 = 11" "b2 + 4 \<le> length n3" using assms(1) by (simp_all add: n3_def b2_def)
  have "numtail_hex v bl nm = numtail_loop v b2 48902 n3"
    by (simp add: numtail_hex_def Let_def n3_def b2_def)
  then show ?thesis using numtail_loop_total [OF n3(2) assms(2)] n3(1) by simp
qed

text \<open>The first byte of a name that does not start with a space is kept.\<close>

lemma put_hex_first: "0 < bl \<Longrightarrow> nm \<noteq> [] \<Longrightarrow> put_hex bl i nm ! 0 = nm ! 0 \<and> put_hex bl i nm \<noteq> []"
  by (cases nm; cases bl) (simp_all add: put_hex_def)

lemma numtail_loop_first:
  assumes "numtail_loop v bl i nm = Some r" and "0 < bl" and "nm \<noteq> []"
  shows "r ! 0 = nm ! 0"
proof -
  have "0 < bl \<longrightarrow> nm \<noteq> [] \<longrightarrow> r ! 0 = nm ! 0"
    by (rule numtail_loop.raw_induct [where P = "\<lambda>v bl i nm r. 0 < bl \<longrightarrow> nm \<noteq> [] \<longrightarrow> r ! 0 = nm ! 0", OF _ assms(1)])
      (auto simp: Let_def put_hex_first split: if_splits)
  then show ?thesis using assms(2,3) by blast
qed

lemma numtail_digits_first: "numtail_digits v bl is nm = (found, r) \<Longrightarrow> r ! 0 = nm ! 0"
  by (induction v bl "is" nm rule: numtail_digits.induct) (auto simp: Let_def split: if_splits)

lemma gen_short_name_numtail_first:
  assumes "gen_short_name_numtail v nm = Some r" and "length nm = 11" and "nm ! 0 \<noteq> 32"
  shows "r ! 0 = nm ! 0"
proof (cases "name_taken v nm")
  case False
  then show ?thesis using assms(1) by (simp add: gen_short_name_numtail_def)
next
  case True
  define b0 where "b0 = (case find_index (\<lambda>b. b = 32) nm of Some i \<Rightarrow> i | None \<Rightarrow> 8)"
  define b1 where "b1 = (if 6 < b0 then 6 else b0)"
  define n1 where "n1 = (if 6 < b0 then nm[7 := 32] else nm)[b1 := 126]"
  obtain found n2 where dig: "numtail_digits v b1 [1..<10] n1 = (found, n2)" by fastforce
  have "0 < b0" using assms(2,3) by (cases nm) (simp_all add: b0_def find_index_def Let_def)
  then have b1: "0 < b1" by (simp add: b1_def)
  then have "n1 ! 0 = nm ! 0" by (simp add: n1_def)
  then have n2: "n2 ! 0 = nm ! 0" "length n2 = 11" using numtail_digits_first [OF dig] numtail_digits_ok [OF dig] assms(2) by (simp_all add: n1_def)
  have run: "gen_short_name_numtail v nm = (if found then Some n2 else numtail_hex v b1 n2)"
    unfolding gen_short_name_numtail_def Let_def b0_def [symmetric] b1_def [symmetric] n1_def [symmetric] dig using True by simp
  define b2 where "b2 = (if 2 < b1 then 2 else b1)"
  define n3 where "n3 = (if 2 < b1 then n2[7 := 32] else n2)[b2 + 4 := 126, b2 + 5 := 56]"
  have n3: "0 < b2" "n3 \<noteq> []" "n3 ! 0 = nm ! 0" using b1 n2 by (auto simp: n3_def b2_def)
  have "numtail_hex v b1 n2 = numtail_loop v b2 48902 n3" by (simp add: numtail_hex_def Let_def n3_def b2_def)
  then show ?thesis using assms(1) run n2(1) n3 numtail_loop_first [of v b2 48902 n3 r] by (auto split: if_splits)
qed

lemma gen_short_name_numtail_ok:
  assumes "length nm = 11" and "length v < 4446"
  shows "\<exists>r. gen_short_name_numtail v nm = Some r \<and> length r = 11 \<and> \<not> name_taken v r"
proof (cases "name_taken v nm")
  case False
  then show ?thesis using assms by (simp add: gen_short_name_numtail_def)
next
  case True
  define b0 where "b0 = (case find_index (\<lambda>b. b = 32) nm of Some i \<Rightarrow> i | None \<Rightarrow> 8)"
  define b1 where "b1 = (if 6 < b0 then 6 else b0)"
  define n1 where "n1 = (if 6 < b0 then nm[7 := 32] else nm)[b1 := 126]"
  obtain found n2 where dig: "numtail_digits v b1 [1..<10] n1 = (found, n2)" by fastforce
  have n2: "length n2 = 11" "found \<longrightarrow> \<not> name_taken v n2"
    using numtail_digits_ok [OF dig] assms(1) by (simp_all add: n1_def)
  have "gen_short_name_numtail v nm = (if found then Some n2 else numtail_hex v b1 n2)"
    unfolding gen_short_name_numtail_def Let_def b0_def [symmetric] b1_def [symmetric] n1_def [symmetric] dig using True by simp
  then show ?thesis using numtail_hex_ok [OF n2(1) assms(2)] n2 by simp
qed

section \<open>Short names of plain file names\<close>

lemma str_len_ascii: "\<forall>c \<in> set s. c < 128 \<Longrightarrow> str_len s = length s"
  by (induction s) (simp_all add: str_len_def utf8_len_def)

lemma as_bytes_ascii: "\<forall>c \<in> set s. c < 128 \<Longrightarrow> as_bytes s = map of_nat s"
  by (induction s) (simp_all add: as_bytes_def utf8_char_def)

lemma split_at_ascii: "\<forall>c \<in> set s. c < 128 \<Longrightarrow> n \<le> length s \<Longrightarrow> split_at_fst n s = Some (take n s)"
proof (induction s arbitrary: n)
  case Nil
  then show ?case by (subst split_at_fst.simps) simp
next
  case (Cons c s)
  then show ?case by (subst split_at_fst.simps) (cases n; simp add: utf8_len_def)
qed

lemma rsplit_once_parts:
  assumes "rsplit_once c s = Some (base, ext)"
  shows "s = base @ c # ext"
proof -
  have r: "rev s = takeWhile (\<lambda>x. x \<noteq> c) (rev s) @ dropWhile (\<lambda>x. x \<noteq> c) (rev s)" by simp
  have c: "c \<in> set (rev s)" using assms by (simp add: rsplit_once_def split: if_splits)
  then have ne: "dropWhile (\<lambda>x. x \<noteq> c) (rev s) \<noteq> []" by (simp add: dropWhile_eq_Nil_conv)
  then have "dropWhile (\<lambda>x. x \<noteq> c) (rev s) = c # tl (dropWhile (\<lambda>x. x \<noteq> c) (rev s))"
    using hd_dropWhile [of "\<lambda>x. x \<noteq> c" "rev s"] by (metis list.collapse)
  moreover have "rev (tl (dropWhile (\<lambda>x. x \<noteq> c) (rev s))) = base" "rev (takeWhile (\<lambda>x. x \<noteq> c) (rev s)) = ext"
    using assms c by (simp_all add: rsplit_once_def)
  ultimately have "rev s = rev ext @ c # rev base" using r by (metis rev_rev_ident)
  then show ?thesis by (metis append.assoc append_Cons append_Nil rev.simps(2) rev_append rev_rev_ident)
qed

lemma prefix_ascii:
  assumes ascii: "\<forall>c \<in> set name. c < 128" and ne: "name \<noteq> []" and hd: "hd name \<noteq> 32" "hd name \<noteq> 46"
  shows "\<exists>p. gen_short_name_prefix name = Some p \<and> length p = 11 \<and> (\<forall>c \<in> set p. c < 128) \<and> hd p \<noteq> 32
    \<and> (hd name \<noteq> 0 \<longrightarrow> hd p \<noteq> 0)"
proof -
  define s where "s = make_ascii_uppercase (filter (\<lambda>c. c \<noteq> 32) name)"
  obtain x xs where name: "name = x # xs" using ne by (cases name) auto
  define y where "y = (if 97 \<le> x \<and> x \<le> 122 then x - 32 else x)"
  have y: "y \<noteq> 32" "y \<noteq> 46" "hd name \<noteq> 0 \<longrightarrow> y \<noteq> 0" using hd by (auto simp: y_def name)
  have s: "s = y # make_ascii_uppercase (filter (\<lambda>c. c \<noteq> 32) xs)" using hd by (simp add: s_def name make_ascii_uppercase_def y_def)
  have sa: "\<forall>c \<in> set s. c < 128" using ascii by (auto simp: s_def make_ascii_uppercase_def)
  obtain base ext where be: "(case rsplit_once 46 s of Some be \<Rightarrow> be | None \<Rightarrow> (s, [])) = (base, ext)" by fastforce
  have parts: "s = base @ ext \<or> s = base @ 46 # ext"
    using be rsplit_once_parts [of 46 s base ext] by (cases "rsplit_once 46 s") simp_all
  have base: "base \<noteq> []" "hd base = y"
  proof -
    have "base = s \<or> s = base @ 46 # ext"
      using be rsplit_once_parts [of 46 s base ext] by (cases "rsplit_once 46 s") simp_all
    then show "base \<noteq> []" using s y by auto
    then show "hd base = y" using parts s by (cases base) auto
  qed
  have asc: "\<forall>c \<in> set base. c < 128" "\<forall>c \<in> set ext. c < 128" using parts sa by auto
  obtain bs where b: "base = y # bs" using base by (cases base) auto
  have dw: "dropWhile (\<lambda>c. c = 46) base = base" using y b by simp
  have l: "str_len base = length base" "str_len ext = length ext" using asc by (simp_all add: str_len_ascii)
  have sp: "split_at_fst (min 8 (length base)) base = Some (take 8 base)" "split_at_fst (min 3 (length ext)) ext = Some (take 3 ext)"
    using split_at_ascii [OF asc(1), of "min 8 (length base)"] split_at_ascii [OF asc(2), of "min 3 (length ext)"] by (simp_all add: min_def)
  have pl: "str_len (pad_right 8 (take 8 base)) \<noteq> 0" by (simp add: pad_right_def str_len_def b utf8_len_def)
  have "gen_short_name_prefix name = Some (pad_right 8 (take 8 base) @ pad_right 3 (take 3 ext))"
    unfolding gen_short_name_prefix_def s_def [symmetric] Let_def be using dw l sp pl base by simp
  then show ?thesis using asc y(1,3) set_take_subset [of 8 base] set_take_subset [of 3 ext]
    by (auto simp: pad_right_def b)
qed

section \<open>Long names read back\<close>

definition plain_char :: "nat \<Rightarrow> bool" where
  "plain_char c \<longleftrightarrow> 0 < c \<and> (c < 0xD800 \<or> 0xE000 \<le> c \<and> c < 0x10000)"

lemma encode_utf16_plain: "\<forall>c \<in> set s. plain_char c \<Longrightarrow> encode_utf16 s = map of_nat s"
  by (induction s) (auto simp: encode_utf16_def encode_utf16_char_def plain_char_def)

lemma unat_of_plain: "plain_char c \<Longrightarrow> unat (of_nat c :: u16) = c"
  by (auto simp: plain_char_def unat_of_nat)

lemma plain_unit: "plain_char c \<Longrightarrow> (of_nat c :: u16) < 0xD800 \<or> 0xE000 \<le> (of_nat c :: u16)" "plain_char c \<Longrightarrow> (of_nat c :: u16) \<noteq> 0"
  using unat_of_plain [of c] by (auto simp: word_less_nat_alt word_le_nat_alt plain_char_def)

lemma from_utf16_plain: "\<forall>c \<in> set s. plain_char c \<Longrightarrow> from_utf16_lossy (map of_nat s) = s"
  by (induction s) (simp_all add: plain_unit unat_of_plain)

lemma str_len_ge: "length s \<le> str_len s"
  by (induction s) (simp_all add: str_len_def utf8_len_def)

lemma find_index_pad:
  assumes "\<forall>u \<in> set us. u \<noteq> 0"
  shows "take (case find_index (\<lambda>u. u = 0) (us @ replicate n 0) of Some i \<Rightarrow> i | None \<Rightarrow> length (us @ replicate n 0)) (us @ replicate n 0) = (us :: u16 list)"
proof -
  have tw: "takeWhile (\<lambda>x. x \<noteq> 0) (us @ replicate n 0) = us" using assms
    by (cases n) (simp_all add: takeWhile_append2 takeWhile_eq_all_conv)
  show ?thesis unfolding find_index_def Let_def tw by (cases n) simp_all
qed

lemma gen_slice_plain:
  assumes "\<forall>c \<in> set name. plain_char c"
  shows "\<exists>n. gen_long_name_slice name i = map of_nat (take 13 (drop (13 * i) name)) @ replicate n 0
    \<and> length (gen_long_name_slice name i) = 13"
proof -
  let ?v = "map of_nat name @ replicate ((i + 1) * 13 - length name) 0 :: u16 list"
  have len: "(i + 1) * 13 \<le> length ?v" by simp
  have "gen_long_name_slice name i = take 13 (drop (i * 13) ?v)"
    by (simp add: gen_long_name_slice_def encode_utf16_plain [OF assms] Let_def)
  moreover have "length (take 13 (drop (i * 13) ?v)) = 13" using len by simp
  moreover have "\<exists>n. take 13 (drop (i * 13) ?v) = map of_nat (take 13 (drop (13 * i) name)) @ replicate n 0"
    by (simp add: take_map drop_map mult.commute)
  ultimately show ?thesis by metis
qed

lemma long_ok_from_name_slice: "length sl = 13 \<Longrightarrow> long_ok (from_name_slice b o1 sl)"
  by (simp add: from_name_slice_def long_ok_def LongDirEnt_empty_def Let_def)

lemma name_from_name_slice:
  assumes "length sl = 13"
  shows "name1 (from_name_slice b k sl) @ name2 (from_name_slice b k sl) @ name3 (from_name_slice b k sl) = sl"
proof -
  have "take 5 sl @ take 6 (drop 5 sl) @ drop 11 sl = sl"
    using append_take_drop_id [of 6 "drop 5 sl"] append_take_drop_id [of 5 sl] by simp
  then show ?thesis by (simp add: from_name_slice_def Let_def)
qed

lemma long_name_slice:
  assumes "\<forall>c \<in> set name. plain_char c"
  shows "long_name (from_name_slice b k (gen_long_name_slice name i)) = take 13 (drop (13 * i) name)"
proof -
  obtain n where n: "gen_long_name_slice name i = map of_nat (take 13 (drop (13 * i) name)) @ replicate n 0"
    "length (gen_long_name_slice name i) = 13" using gen_slice_plain [OF assms] by blast
  have pl: "\<forall>c \<in> set (take 13 (drop (13 * i) name)). plain_char c" using assms by (meson in_set_dropD in_set_takeD)
  have nz: "\<forall>u \<in> set (map of_nat (take 13 (drop (13 * i) name)) :: u16 list). u \<noteq> 0" using pl plain_unit(2) by auto
  show ?thesis unfolding long_name_def Let_def name_from_name_slice [OF n(2)]
    unfolding n(1) find_index_pad [OF nz] by (rule from_utf16_plain [OF pl])
qed

lemma concat_chunks: "length xs \<le> 13 * n \<Longrightarrow> concat (map (\<lambda>i. take 13 (drop (13 * i) xs)) [0..<n]) = xs"
proof (induction n arbitrary: xs)
  case 0
  then show ?case by simp
next
  case (Suc n)
  have "map (\<lambda>i. take 13 (drop (13 * i) xs)) [0..<Suc n] = take 13 xs # map (\<lambda>i. take 13 (drop (13 * i) (drop 13 xs))) [0..<n]"
    by (simp add: upt_conv_Cons map_Suc_upt [symmetric] del: upt_Suc) (simp add: add.commute)
  moreover have "concat (map (\<lambda>i. take 13 (drop (13 * i) (drop 13 xs))) [0..<n]) = drop 13 xs"
    by (rule Suc.IH) (use Suc.prems in simp)
  ultimately show ?case by simp
qed

section \<open>The entries of a new file\<close>

text \<open>A name a user can type: printable ASCII, not starting with a dot or a space, short enough.\<close>

definition plain_name :: "rstring \<Rightarrow> bool" where
  "plain_name name \<longleftrightarrow> name \<noteq> [] \<and> hd name \<noteq> 32 \<and> hd name \<noteq> 46 \<and> (\<forall>c \<in> set name. 0 < c \<and> c < 128) \<and> length name < 256"

lemma gen_short_name_slice_ok:
  assumes "plain_name name" and "length v < 4446"
  shows "\<exists>nm. gen_short_name_slice v name = Some nm \<and> length nm = 11 \<and> nm \<notin> get_short_name_array ` set v
    \<and> 0 < nm ! 0 \<and> nm ! 0 < 128"
proof -
  have name: "name \<noteq> []" "hd name \<noteq> 32" "hd name \<noteq> 46" "\<forall>c \<in> set name. 0 < c \<and> c < 128" using assms(1) by (simp_all add: plain_name_def)
  then have "hd name \<noteq> 0" using hd_in_set by fastforce
  then obtain p where p: "gen_short_name_prefix name = Some p" "length p = 11" "\<forall>c \<in> set p. c < 128" "hd p \<noteq> 32" "hd p \<noteq> 0"
    using prefix_ascii [of name] name by auto
  obtain x xs where x: "p = x # xs" using p(2) by (cases p) auto
  have u: "unat (of_nat x :: u8) = x" using p(3) x by (simp add: unat_of_nat)
  have len: "length (map of_nat p :: u8 list) = 11" using p(2) by simp
  obtain r where r: "gen_short_name_numtail v (map of_nat p) = Some r" "length r = 11" "\<not> name_taken v r"
    using gen_short_name_numtail_ok [OF len assms(2)] by blast
  have "(of_nat x :: u8) \<noteq> 32"
  proof
    assume "(of_nat x :: u8) = 32"
    then show False using u p(4) x by simp
  qed
  then have "r ! 0 = of_nat x" using gen_short_name_numtail_first [OF r(1) len] x by simp
  moreover have "0 < (of_nat x :: u8)" "(of_nat x :: u8) < 128" using p(3,5) x u by (simp_all add: word_less_nat_alt)
  ultimately show ?thesis using r p x
    by (simp add: gen_short_name_slice_def as_bytes_ascii vec_slice_def name_taken_def)
qed

lemma ord_from_name_slice:
  assumes "k < 64"
  shows "unat (le_ord (from_name_slice b k sl) AND (LAST_LONG_ENTRY - 1)) = k"
    and "le_ord (from_name_slice b k sl) AND LAST_LONG_ENTRY \<noteq> 0 \<longleftrightarrow> b"
    and "0 < k \<Longrightarrow> le_ord (from_name_slice b k sl) \<noteq> 0 \<and> le_ord (from_name_slice b k sl) \<noteq> 0xE5"
proof -
  have k: "k \<in> set [0..<64]" using assms by simp
  have all: "\<forall>k \<in> set [0..<64]. unat ((of_nat k :: u8) AND 63) = k \<and> unat (((of_nat k :: u8) OR 64) AND 63) = k
     \<and> (of_nat k :: u8) AND 64 = 0 \<and> ((of_nat k :: u8) OR 64) AND 64 \<noteq> 0
     \<and> (of_nat k :: u8) \<noteq> 0xE5 \<and> (of_nat k :: u8) OR 64 \<noteq> 0xE5 \<and> (0 < k \<longrightarrow> (of_nat k :: u8) \<noteq> 0) \<and> (of_nat k :: u8) OR 64 \<noteq> 0"
    by (simp add: upt_rec)
  show "unat (le_ord (from_name_slice b k sl) AND (LAST_LONG_ENTRY - 1)) = k"
    "le_ord (from_name_slice b k sl) AND LAST_LONG_ENTRY \<noteq> 0 \<longleftrightarrow> b"
    "0 < k \<Longrightarrow> le_ord (from_name_slice b k sl) \<noteq> 0 \<and> le_ord (from_name_slice b k sl) \<noteq> 0xE5"
    using bspec [OF all k] by (simp_all add: from_name_slice_def Let_def LAST_LONG_ENTRY_def)
qed

lemma gen_dir_ent_ok:
  assumes "plain_name name" and "length v < 4446"
  defines "n \<equiv> (length name + 12) div 13"
  shows "\<exists>nm. length nm = 11 \<and> nm \<notin> get_short_name_array ` set v \<and> 0 < nm ! 0 \<and> nm ! 0 < 128
    \<and> gen_dir_ent v name c t = Some (ShortDirEnt_from_name nm c t,
        map (\<lambda>i. from_name_slice (i + 1 = n) (i + 1) (gen_long_name_slice name i)) [0..<n])"
proof -
  obtain nm where nm: "gen_short_name_slice v name = Some nm" "length nm = 11" "nm \<notin> get_short_name_array ` set v"
    "0 < nm ! 0" "nm ! 0 < 128"
    using gen_short_name_slice_ok [OF assms(1,2)] by blast
  have "str_len name = length name" using assms(1) by (simp add: plain_name_def str_len_ascii)
  then have "gen_dir_ent v name c t = Some (ShortDirEnt_from_name nm c t,
      map (\<lambda>i. from_name_slice (i + 1 = n) (i + 1) (gen_long_name_slice name i)) [0..<n])"
    using nm(1) by (simp add: gen_dir_ent_def gen_name_slice_def n_def Let_def)
  then show ?thesis using nm by blast
qed

section \<open>Properties\<close>

text \<open>C39: for an ASCII name of at most 255 characters that does not start with a dot or a space,
  in a directory with fewer than 4446 short entries, the generation of directory entries
  succeeds.  The short name has eleven bytes and is the short name of no other entry; the
  first cluster and the type read back; the long entries are numbered from one with the
  last marked, and their parts put together are the name.\<close>

theorem new_file_entries:
  assumes "plain_name name" and "length v < 4446"
  shows "\<exists>short longs. gen_dir_ent v name c t = Some (short, longs)
    \<and> length (se_name short) = 11 \<and> se_name short \<notin> get_short_name_array ` set v
    \<and> get_first_clus short = c \<and> short_is_dir short = (t = Directory) \<and> short_is_file short = (t = File)
    \<and> concat (map long_name longs) = name
    \<and> map (\<lambda>e. ent_ord (long_bytes e)) longs = [1..<length longs + 1]
    \<and> map (\<lambda>e. is_last_long_dir_ent (long_bytes e)) longs = replicate (length longs - 1) False @ [True]"
proof -
  define n where "n = (length name + 12) div 13"
  obtain nm where nm: "length nm = 11" "nm \<notin> get_short_name_array ` set v" "gen_dir_ent v name c t =
     Some (ShortDirEnt_from_name nm c t, map (\<lambda>i. from_name_slice (i + 1 = n) (i + 1) (gen_long_name_slice name i)) [0..<n])"
    using gen_dir_ent_ok [OF assms, folded n_def] by blast
  have pl: "\<forall>c \<in> set name. plain_char c" and ne: "name \<noteq> []" and lt: "length name < 256"
    using assms(1) by (auto simp: plain_name_def plain_char_def)
  have n: "length name \<le> 13 * n" "n < 63" using lt by (simp_all add: n_def)
  have "0 < length name" using ne by simp
  then have n3: "0 < n" unfolding n_def div_greater_zero_iff by linarith
  let ?f = "\<lambda>i. from_name_slice (i + 1 = n) (i + 1) (gen_long_name_slice name i)"
  have ok: "long_ok (?f i)" for i using gen_slice_plain [OF pl, of i] by (auto intro: long_ok_from_name_slice)
  have attr: "is_long (long_bytes (?f i))" for i
    using arg_cong [OF long_entry_long_bytes [OF ok [of i]], of le_attr]
    by (simp add: is_long_def short_entry_def long_entry_def from_name_slice_def Let_def LongDirEnt_empty_def)
  have ord: "ent_ord (long_bytes (?f i)) = i + 1" "is_last_long_dir_ent (long_bytes (?f i)) = (i + 1 = n)" if "i < n" for i
    using ord_from_name_slice(1,2) [of "i + 1" "i + 1 = n" "gen_long_name_slice name i"] that n(2) attr [of i] long_entry_long_bytes [OF ok [of i]]
    by (simp_all add: ent_ord_def is_last_long_dir_ent_def get_long_ent_def)
  have names: "concat (map long_name (map ?f [0..<n])) = name"
    using concat_chunks [OF n(1)] by (simp add: long_name_slice [OF pl] comp_def)
  have o1: "map (\<lambda>e. ent_ord (long_bytes e)) (map ?f [0..<n]) = [1..<n + 1]"
    using ord(1) by (intro nth_equalityI) (simp_all del: upt_Suc)
  have o2: "map (\<lambda>e. is_last_long_dir_ent (long_bytes e)) (map ?f [0..<n]) = replicate (n - 1) False @ [True]"
    using ord(2) n3 by (intro nth_equalityI) (auto simp: nth_append)
  have sh: "se_name (ShortDirEnt_from_name nm c t) = nm" "get_first_clus (ShortDirEnt_from_name nm c t) = c"
    "short_is_dir (ShortDirEnt_from_name nm c t) = (t = Directory)" "short_is_file (ShortDirEnt_from_name nm c t) = (t = File)"
    using get_set_fst_clus [of c ShortDirEnt_empty]
    by (cases t; simp add: ShortDirEnt_from_name_def get_first_clus_def short_is_dir_def short_is_file_def attr_defs)+
  show ?thesis using nm names o1 o2 sh by simp
qed

theorem new_file_entries_witness:
  "\<exists>short longs. gen_dir_ent [unused_not_last_entry] [114, 101, 97, 100, 109, 101, 46, 109, 100] 0x12345 File = Some (short, longs)
    \<and> length (se_name short) = 11 \<and> se_name short \<notin> get_short_name_array ` set [unused_not_last_entry]
    \<and> get_first_clus short = 0x12345 \<and> short_is_dir short = (File = Directory) \<and> short_is_file short = (File = File)
    \<and> concat (map long_name longs) = [114, 101, 97, 100, 109, 101, 46, 109, 100]
    \<and> map (\<lambda>e. ent_ord (long_bytes e)) longs = [1..<length longs + 1]
    \<and> map (\<lambda>e. is_last_long_dir_ent (long_bytes e)) longs = replicate (length longs - 1) False @ [True]"
  by (rule new_file_entries) (simp_all add: plain_name_def)


end
