(* ===== verification/Page_Cache.thy ===== *)
theory Page_Cache
  imports Block_Cache
begin

text \<open>
  \<^verbatim>\<open>kernel/src/fs/cache.rs\<close>, the page caches of a file (\<^verbatim>\<open>PageCache\<close>, \<^verbatim>\<open>PageCacheManager\<close>),
  and the chunked transfers of \<^verbatim>\<open>kernel/src/drivers/block\<close>.  A page is the list of its
  eight block-sized parts.  The dirty bit is the one the processor keeps in the kernel's
  page table entry of the page; a modification of the page sets it.  \<open>zero\<close> is a block of
  zeros.
\<close>

section \<open>Transfers of several blocks\<close>

text \<open>The driver splits a buffer into blocks and transfers them one by one.\<close>

fun dev_read_blocks :: "nat \<Rightarrow> nat \<Rightarrow> 'b disk \<Rightarrow> 'b list" where
  "dev_read_blocks block_id 0 d = []"
| "dev_read_blocks block_id (Suc n) d = d block_id # dev_read_blocks (block_id + 1) n d"

fun dev_write_blocks :: "nat \<Rightarrow> 'b list \<Rightarrow> 'b disk \<Rightarrow> 'b disk" where
  "dev_write_blocks block_id [] d = d"
| "dev_write_blocks block_id (b # bs) d = dev_write_blocks (block_id + 1) bs (d(block_id := b))"

section \<open>A page\<close>

record 'b PageCache =
  pc_priority :: nat
  pc_page :: "'b list"
  pc_dirty :: bool
  pc_refs :: nat
  pc_tracker_refs :: nat

definition PageCache_new :: "'b \<Rightarrow> 'b PageCache" where
  "PageCache_new zero = \<lparr>pc_priority = 0, pc_page = replicate PAGE_BUFFERS zero, pc_dirty = False, pc_refs = 0, pc_tracker_refs = 0\<rparr>"

definition put_slots :: "nat \<Rightarrow> 'b list \<Rightarrow> 'b list \<Rightarrow> 'b list" where
  "put_slots i xs page = take i page @ xs @ drop (i + length xs) page"

fun read_in_loop :: "'b disk \<Rightarrow> nat list \<Rightarrow> nat \<Rightarrow> nat \<Rightarrow> nat \<Rightarrow> 'b list \<Rightarrow> 'b list" where
  "read_in_loop d [] start_block_id con_length start_buf_id page =
    put_slots start_buf_id (dev_read_blocks start_block_id con_length d) page"
| "read_in_loop d (block_id # ids) start_block_id con_length start_buf_id page =
    (if con_length = 0 then read_in_loop d ids block_id 1 start_buf_id page
     else if block_id \<noteq> start_block_id + con_length then
       read_in_loop d ids block_id 1 (start_buf_id + con_length)
         (put_slots start_buf_id (dev_read_blocks start_block_id con_length d) page)
     else read_in_loop d ids start_block_id (con_length + 1) start_buf_id page)"

definition read_in :: "'b \<Rightarrow> nat list \<Rightarrow> 'b disk \<Rightarrow> 'b PageCache \<Rightarrow> 'b PageCache run" where
  "read_in zero block_ids d pc =
    (if block_ids = [] then ret pc
     else do {
       rust_assert (length block_ids \<le> PAGE_BUFFERS);
       let page = read_in_loop d block_ids USIZE_MAX 0 0 (pc_page pc);
       ret (pc\<lparr>pc_page := take (length block_ids) page @ replicate (PAGE_BUFFERS - length block_ids) zero,
               pc_dirty := False\<rparr>) })"

fun write_back_loop :: "'b list \<Rightarrow> nat list \<Rightarrow> nat \<Rightarrow> nat \<Rightarrow> nat \<Rightarrow> 'b disk \<Rightarrow> 'b disk" where
  "write_back_loop page [] start_block_id con_length start_buf_id d =
    dev_write_blocks start_block_id (take con_length (drop start_buf_id page)) d"
| "write_back_loop page (block_id # ids) start_block_id con_length start_buf_id d =
    (if con_length = 0 then write_back_loop page ids block_id 1 start_buf_id d
     else if block_id \<noteq> start_block_id + con_length then
       write_back_loop page ids block_id 1 (start_buf_id + con_length)
         (dev_write_blocks start_block_id (take con_length (drop start_buf_id page)) d)
     else write_back_loop page ids start_block_id (con_length + 1) start_buf_id d)"

definition write_back :: "nat list \<Rightarrow> 'b PageCache \<Rightarrow> 'b disk \<Rightarrow> 'b disk" where
  "write_back block_ids pc d =
    (if block_ids = [] then d else write_back_loop (pc_page pc) block_ids USIZE_MAX 0 0 d)"

definition pc_sync :: "nat list \<Rightarrow> 'b PageCache \<Rightarrow> 'b disk \<Rightarrow> 'b disk" where
  "pc_sync block_ids pc d = (if \<not> pc_dirty pc then d else write_back block_ids pc d)"

text \<open>A modification of part \<open>i\<close> of the page through \<^verbatim>\<open>modify\<close>.\<close>

definition pc_modify :: "nat \<Rightarrow> ('b \<Rightarrow> 'b) \<Rightarrow> 'b PageCache \<Rightarrow> 'b PageCache" where
  "pc_modify i f pc = pc\<lparr>pc_page := (pc_page pc)[i := f (pc_page pc ! i)], pc_dirty := True\<rparr>"

section \<open>The caches of a file\<close>

record 'b PageCacheManager =
  pcm_pool :: "'b PageCache option list"
  allocated_cache :: "nat list"

definition PageCacheManager_new :: "'b PageCacheManager" where
  "PageCacheManager_new = \<lparr>pcm_pool = [], allocated_cache = []\<rparr>"

definition pc_bump :: "'b PageCache \<Rightarrow> 'b PageCache" where
  "pc_bump pc = (if pc_priority pc < PRIORITY_UPPERBOUND then pc\<lparr>pc_priority := pc_priority pc + 1\<rparr> else pc)"

text \<open>\<^verbatim>\<open>get_cache\<close>: the cache is in the pool at its number afterwards; the block numbers of the
  page come from the file.\<close>

definition get_cache :: "'b \<Rightarrow> nat \<Rightarrow> nat list \<Rightarrow> 'b disk \<Rightarrow> 'b PageCacheManager \<Rightarrow> 'b PageCacheManager run" where
  "get_cache zero cid neighbor d m = do {
     let pool = pcm_pool m @ replicate (Suc cid - length (pcm_pool m)) None;
     (case pool ! cid of
        Some pc \<Rightarrow> ret (m\<lparr>pcm_pool := pool[cid := Some (pc_bump pc)]\<rparr>)
      | None \<Rightarrow> do {
          pc \<leftarrow> read_in zero neighbor d (PageCache_new zero);
          ret (m\<lparr>pcm_pool := pool[cid := Some (pc_bump pc)], allocated_cache := vec_push (allocated_cache m) cid\<rparr>) }) }"

fun pcm_oom_loop :: "(nat \<Rightarrow> nat list) \<Rightarrow> nat list \<Rightarrow> 'b PageCache option list \<Rightarrow> 'b disk \<Rightarrow>
    (nat list \<times> nat \<times> 'b PageCache option list \<times> 'b disk) run" where
  "pcm_oom_loop neighbor [] pool d = ret ([], 0, pool, d)"
| "pcm_oom_loop neighbor (cid # ids) pool d = do {
     slot \<leftarrow> vec_get pool cid;
     pc \<leftarrow> slot;
     if 0 < pc_refs pc \<or> 0 < pc_tracker_refs pc then do {
       (keep, dropped, pool', d') \<leftarrow> pcm_oom_loop neighbor ids pool d;
       ret (cid # keep, dropped, pool', d') }
     else if 0 < pc_priority pc then do {
       (keep, dropped, pool', d') \<leftarrow> pcm_oom_loop neighbor ids (pool[cid := Some (pc\<lparr>pc_priority := pc_priority pc - 1\<rparr>)]) d;
       ret (cid # keep, dropped, pool', d') }
     else do {
       (keep, dropped, pool', d') \<leftarrow> pcm_oom_loop neighbor ids (pool[cid := None]) (pc_sync (neighbor cid) pc d);
       ret (keep, dropped + 1, pool', d') } }"

definition pcm_oom :: "(nat \<Rightarrow> nat list) \<Rightarrow> 'b PageCacheManager \<Rightarrow> 'b disk \<Rightarrow> (nat \<times> 'b PageCacheManager \<times> 'b disk) run" where
  "pcm_oom neighbor m d = do {
     (keep, dropped, pool', d') \<leftarrow> pcm_oom_loop neighbor (allocated_cache m) (pcm_pool m) d;
     ret (dropped, m\<lparr>pcm_pool := pool', allocated_cache := keep\<rparr>, d') }"

definition notify_new_size :: "nat \<Rightarrow> 'b PageCacheManager \<Rightarrow> 'b PageCacheManager run" where
  "notify_new_size new_size m = do {
     let new_pages = (new_size + 4096 - 1) div 4096;
     rust_assert (\<forall>c \<in> set (drop new_pages (pcm_pool m)). case c of Some pc \<Rightarrow> pc_refs pc = 0 | None \<Rightarrow> True);
     ret (m\<lparr>pcm_pool := take new_pages (pcm_pool m),
            allocated_cache := filter (\<lambda>cid. cid < new_pages) (allocated_cache m)\<rparr>) }"

section \<open>Coalesced transfers do what single transfers do\<close>

text \<open>The reference: every block on its own.\<close>

fun write_each :: "nat list \<Rightarrow> 'b list \<Rightarrow> 'b disk \<Rightarrow> 'b disk" where
  "write_each (b # ids) (x # xs) d = write_each ids xs (d(b := x))"
| "write_each _ _ d = d"

lemma write_each_Nil [simp]: "write_each [] xs d = d"
  by (cases xs) simp_all

lemma dev_read_blocks_eq: "dev_read_blocks b n d = map (\<lambda>k. d (b + k)) [0 ..< n]"
proof (induction n arbitrary: b)
  case (Suc n)
  have "[0 ..< Suc n] = 0 # map Suc [0 ..< n]" by (simp add: map_Suc_upt upt_conv_Cons)
  then show ?case using Suc by (simp only: dev_read_blocks.simps) simp
qed simp

lemma length_dev_read_blocks [simp]: "length (dev_read_blocks b n d) = n"
  by (simp add: dev_read_blocks_eq)

lemma dev_read_blocks_snoc: "dev_read_blocks b (Suc n) d = dev_read_blocks b n d @ [d (b + n)]"
  by (simp add: dev_read_blocks_eq)

lemma dev_write_blocks_snoc: "dev_write_blocks b (xs @ [x]) d = (dev_write_blocks b xs d)(b + length xs := x)"
  by (induction xs arbitrary: b d) simp_all

text \<open>The blocks read so far are the pages' first parts.\<close>

lemma read_in_loop_eq:
  assumes "con + sbuf + length ids \<le> length page" and "0 < con"
  shows "read_in_loop d ids start con sbuf page =
    take sbuf page @ dev_read_blocks start con d @ map d ids @ drop (sbuf + con + length ids) page"
  using assms
proof (induction ids arbitrary: start con sbuf page)
  case Nil
  then show ?case by (simp add: put_slots_def)
next
  case (Cons b ids)
  show ?case
  proof (cases "b = start + con")
    case True
    then show ?thesis using Cons.IH [of "con + 1" sbuf page start] Cons.prems
      by (simp add: dev_read_blocks_snoc del: dev_read_blocks.simps)
  next
    case False
    let ?page = "put_slots sbuf (dev_read_blocks start con d) page"
    have len: "length ?page = length page" using Cons.prems by (simp add: put_slots_def)
    have "take (sbuf + con) ?page = take sbuf page @ dev_read_blocks start con d"
      "drop (Suc (sbuf + con + length ids)) ?page = drop (Suc (sbuf + con + length ids)) page"
      using Cons.prems by (simp_all add: put_slots_def add.commute add.left_commute)
    then show ?thesis using Cons.IH [of 1 "sbuf + con" ?page b] Cons.prems False
      by (simp add: len)
  qed
qed

lemma read_in_loop_first:
  assumes "ids \<noteq> []" and "length ids \<le> length page"
  shows "read_in_loop d ids s 0 0 page = map d ids @ drop (length ids) page"
  using assms read_in_loop_eq [of 1 0 "tl ids" page d "hd ids"] by (cases ids) auto

lemma write_back_loop_eq:
  assumes "con + sbuf + length ids \<le> length page" and "0 < con"
  shows "write_back_loop page ids start con sbuf d =
    write_each ids (drop (sbuf + con) page) (dev_write_blocks start (take con (drop sbuf page)) d)"
  using assms
proof (induction ids arbitrary: start con sbuf d)
  case Nil
  then show ?case by simp
next
  case (Cons b ids)
  let ?x = "page ! (sbuf + con)"
  have lt: "sbuf + con < length page" using Cons.prems by simp
  have drop: "drop (sbuf + con) page = ?x # drop (sbuf + con + 1) page"
    using Cons_nth_drop_Suc [OF lt] by simp
  show ?case
  proof (cases "b = start + con")
    case True
    have "take (con + 1) (drop sbuf page) = take con (drop sbuf page) @ [?x]"
      using lt by (simp add: take_Suc_conv_app_nth)
    moreover have "min (length page - sbuf) con = con" using lt by simp
    ultimately show ?thesis using Cons.IH [of "con + 1" sbuf start d] Cons.prems True
      by (simp add: drop dev_write_blocks_snoc fun_upd_def del: dev_write_blocks.simps)
  next
    case False
    have "take 1 (drop (sbuf + con) page) = [?x]" using drop by simp
    then show ?thesis
      using Cons.IH [of 1 "sbuf + con" b "dev_write_blocks start (take con (drop sbuf page)) d"] Cons.prems False
      by (simp add: drop fun_upd_def)
  qed
qed

lemma write_back_loop_first:
  assumes "ids \<noteq> []" and "length ids \<le> length page"
  shows "write_back_loop page ids s 0 0 d = write_each ids page d"
proof -
  obtain b ids' where ids: "ids = b # ids'" using assms(1) by (cases ids) auto
  obtain x page' where page: "page = x # page'" using assms(2) ids by (cases page) auto
  show ?thesis using write_back_loop_eq [of 1 0 ids' page b d] assms(2) by (simp add: ids page)
qed

section \<open>Eviction keeps the data\<close>

text \<open>The data of a file page: the cached page, or the blocks on the device.\<close>

definition slot :: "'b PageCache option list \<Rightarrow> nat \<Rightarrow> 'b PageCache option" where
  "slot pool c = (if c < length pool then pool ! c else None)"

definition page_view :: "(nat \<Rightarrow> nat list) \<Rightarrow> 'b PageCache option list \<Rightarrow> 'b disk \<Rightarrow> nat \<Rightarrow> 'b list" where
  "page_view neighbor pool d c =
    (case slot pool c of Some pc \<Rightarrow> take (length (neighbor c)) (pc_page pc) | None \<Rightarrow> map d (neighbor c))"

text \<open>Pages of a file have at most eight blocks each, and no block twice.\<close>

definition neighbor_ok :: "(nat \<Rightarrow> nat list) \<Rightarrow> bool" where
  "neighbor_ok neighbor \<longleftrightarrow> (\<forall>c. length (neighbor c) \<le> PAGE_BUFFERS \<and> distinct (neighbor c))
    \<and> (\<forall>c c'. c \<noteq> c' \<longrightarrow> set (neighbor c) \<inter> set (neighbor c') = {})"

text \<open>A cached page is whole, and a clean one equals its blocks.\<close>

definition slots_ok :: "(nat \<Rightarrow> nat list) \<Rightarrow> 'b PageCache option list \<Rightarrow> 'b disk \<Rightarrow> bool" where
  "slots_ok neighbor pool d \<longleftrightarrow> (\<forall>c pc. slot pool c = Some pc \<longrightarrow> length (pc_page pc) = PAGE_BUFFERS
    \<and> (\<not> pc_dirty pc \<longrightarrow> take (length (neighbor c)) (pc_page pc) = map d (neighbor c)))"

definition pcm_invar :: "(nat \<Rightarrow> nat list) \<Rightarrow> 'b disk \<Rightarrow> 'b PageCacheManager \<Rightarrow> bool" where
  "pcm_invar neighbor d m \<longleftrightarrow> slots_ok neighbor (pcm_pool m) d \<and> distinct (allocated_cache m)
    \<and> (\<forall>c. c \<in> set (allocated_cache m) \<longleftrightarrow> slot (pcm_pool m) c \<noteq> None)"

lemma slot_update: "slot (pool[c := x]) c' = (if c' = c \<and> c < length pool then x else slot pool c')"
  by (auto simp: slot_def)

lemma slot_extend: "slot (pool @ replicate n None) c = slot pool c"
  by (auto simp: slot_def nth_append)

lemma write_each_other: "b \<notin> set ids \<Longrightarrow> write_each ids xs d b = d b"
  by (induction ids xs d rule: write_each.induct) simp_all

lemma write_each_map:
  "distinct ids \<Longrightarrow> length ids \<le> length xs \<Longrightarrow> map (write_each ids xs d) ids = take (length ids) xs"
  by (induction ids xs d rule: write_each.induct) (simp_all add: write_each_other)

lemma pc_sync_spec:
  assumes "distinct ids" and "length ids \<le> length (pc_page pc)"
    and "\<not> pc_dirty pc \<longrightarrow> take (length ids) (pc_page pc) = map d ids"
  shows "map (pc_sync ids pc d) ids = take (length ids) (pc_page pc)"
    and "b \<notin> set ids \<Longrightarrow> pc_sync ids pc d b = d b"
  using assms write_each_map [OF assms(1,2), of d] write_each_other [of b ids "pc_page pc" d]
  by (auto simp: pc_sync_def write_back_def write_back_loop_first)

lemma slots_okD:
  "slots_ok neighbor pool d \<Longrightarrow> slot pool c = Some pc \<Longrightarrow> length (pc_page pc) = PAGE_BUFFERS"
  "slots_ok neighbor pool d \<Longrightarrow> slot pool c = Some pc \<Longrightarrow> \<not> pc_dirty pc \<Longrightarrow> take (length (neighbor c)) (pc_page pc) = map d (neighbor c)"
  by (auto simp: slots_ok_def)

lemma evict_page:
  assumes nb: "neighbor_ok neighbor" and ok: "slots_ok neighbor pool d" and c: "slot pool c = Some pc"
  shows "slots_ok neighbor (pool[c := None]) (pc_sync (neighbor c) pc d)"
    and "page_view neighbor (pool[c := None]) (pc_sync (neighbor c) pc d) c' = page_view neighbor pool d c'"
proof -
  have lt: "c < length pool" using c by (simp add: slot_def split: if_splits)
  have nbc: "distinct (neighbor c)" "length (neighbor c) \<le> PAGE_BUFFERS" using nb by (auto simp: neighbor_ok_def)
  have len: "length (neighbor c) \<le> length (pc_page pc)" using nbc(2) slots_okD(1) [OF ok c] by simp
  have clean: "\<not> pc_dirty pc \<longrightarrow> take (length (neighbor c)) (pc_page pc) = map d (neighbor c)"
    using slots_okD(2) [OF ok c] by blast
  note sync = pc_sync_spec [OF nbc(1) len clean]
  have other: "map (pc_sync (neighbor c) pc d) (neighbor k) = map d (neighbor k)" if "k \<noteq> c" for k
  proof (rule map_cong [OF refl])
    fix b assume b: "b \<in> set (neighbor k)"
    have "set (neighbor k) \<inter> set (neighbor c) = {}" using nb that by (simp add: neighbor_ok_def)
    then have "b \<notin> set (neighbor c)" using b by blast
    then show "pc_sync (neighbor c) pc d b = d b" by (rule sync(2))
  qed
  show "page_view neighbor (pool[c := None]) (pc_sync (neighbor c) pc d) c' = page_view neighbor pool d c'"
    using lt c sync(1) other [of c'] by (auto simp: page_view_def slot_update split: option.splits)
  show "slots_ok neighbor (pool[c := None]) (pc_sync (neighbor c) pc d)"
    unfolding slots_ok_def
  proof (intro allI impI)
    fix k pk assume k: "slot (pool[c := None]) k = Some pk"
    then have ne: "k \<noteq> c" and old: "slot pool k = Some pk" using lt by (auto simp: slot_update split: if_splits)
    then show "length (pc_page pk) = PAGE_BUFFERS \<and> (\<not> pc_dirty pk \<longrightarrow>
        take (length (neighbor k)) (pc_page pk) = map (pc_sync (neighbor c) pc d) (neighbor k))"
      using slots_okD [OF ok old] other [OF ne] by simp
  qed
qed

lemma same_page:
  assumes "slots_ok neighbor pool d" and "slot pool c = Some pc" and "pc_page pc' = pc_page pc" and "pc_dirty pc' = pc_dirty pc"
  shows "slots_ok neighbor (pool[c := Some pc']) d"
    and "page_view neighbor (pool[c := Some pc']) d = page_view neighbor pool d"
  using assms by (auto simp: slots_ok_def page_view_def slot_update fun_eq_iff split: if_splits)

lemma pcm_oom_loop_ok:
  assumes "neighbor_ok neighbor" and "slots_ok neighbor pool d" and "\<forall>c \<in> set ids. slot pool c \<noteq> None" and "distinct ids"
  shows "\<exists>keep dropped pool' d'. pcm_oom_loop neighbor ids pool d = Some (keep, dropped, pool', d')
    \<and> slots_ok neighbor pool' d' \<and> page_view neighbor pool' d' = page_view neighbor pool d
    \<and> keep = filter (\<lambda>c. slot pool' c \<noteq> None) ids \<and> dropped + length keep = length ids
    \<and> (\<forall>c. c \<notin> set ids \<longrightarrow> slot pool' c = slot pool c)"
  using assms(2-)
proof (induction ids arbitrary: pool d)
  case Nil
  then show ?case by simp
next
  case (Cons c ids)
  obtain pc where c: "slot pool c = Some pc" using Cons.prems(2) by auto
  then have get: "vec_get pool c = Some (Some pc)" by (simp add: slot_def vec_get_def split: if_splits)
  have lt: "c < length pool" using c by (simp add: slot_def split: if_splits)
  have rest: "c \<notin> set ids" "distinct ids" using Cons.prems(3) by simp_all
  have step: ?case if loop: "pcm_oom_loop neighbor (c # ids) pool d =
      Option.bind (pcm_oom_loop neighbor ids pool1 d1)
        (\<lambda>(keep, dropped, p, e). Some (if stay then c # keep else keep, if stay then dropped else dropped + 1, p, e))"
    and ok: "slots_ok neighbor pool1 d1" and view: "page_view neighbor pool1 d1 = page_view neighbor pool d"
    and others: "\<And>k. k \<noteq> c \<Longrightarrow> slot pool1 k = slot pool k" and here: "slot pool1 c \<noteq> None \<longleftrightarrow> stay"
    for stay pool1 d1
  proof -
    have pre: "\<forall>k \<in> set ids. slot pool1 k \<noteq> None" using Cons.prems(2) others rest(1) by (metis list.set_intros(2))
    from Cons.IH [OF ok pre rest(2)] obtain keep dropped pool' d' where IH:
      "pcm_oom_loop neighbor ids pool1 d1 = Some (keep, dropped, pool', d')" "slots_ok neighbor pool' d'"
      "page_view neighbor pool' d' = page_view neighbor pool1 d1" "keep = filter (\<lambda>c. slot pool' c \<noteq> None) ids"
      "dropped + length keep = length ids" "\<And>k. k \<notin> set ids \<Longrightarrow> slot pool' k = slot pool1 k" by blast
    have "slot pool' c \<noteq> None \<longleftrightarrow> stay" using IH(6) [OF rest(1)] here by simp
    then show ?thesis using loop IH view others by simp
  qed
  consider (shared) "0 < pc_refs pc \<or> 0 < pc_tracker_refs pc"
    | (young) "\<not> (0 < pc_refs pc \<or> 0 < pc_tracker_refs pc)" "0 < pc_priority pc"
    | (old) "\<not> (0 < pc_refs pc \<or> 0 < pc_tracker_refs pc)" "pc_priority pc = 0" by (meson gr0I)
  then show ?case
  proof cases
    case shared
    show ?thesis by (rule step [where stay = True and ?pool1.0 = pool and ?d1.0 = d])
      (use shared get c Cons.prems(1) in \<open>simp_all\<close>)
  next
    case young
    let ?pc = "pc\<lparr>pc_priority := pc_priority pc - 1\<rparr>"
    show ?thesis by (rule step [where stay = True and ?pool1.0 = "pool[c := Some ?pc]" and ?d1.0 = d])
      (use young get lt same_page [OF Cons.prems(1) c, of ?pc] in \<open>simp_all add: slot_update\<close>)
  next
    case old
    show ?thesis by (rule step [where stay = False and ?pool1.0 = "pool[c := None]" and ?d1.0 = "pc_sync (neighbor c) pc d"])
      (use old get lt evict_page [OF assms(1) Cons.prems(1) c] in \<open>simp_all add: slot_update fun_eq_iff\<close>)
  qed
qed

lemma read_in_eq:
  assumes "length (pc_page pc) = PAGE_BUFFERS"
  shows "read_in zero ids d pc =
    (if ids = [] then ret pc
     else if PAGE_BUFFERS < length ids then panic
     else ret (pc\<lparr>pc_page := map d ids @ replicate (PAGE_BUFFERS - length ids) zero, pc_dirty := False\<rparr>))"
  using assms by (simp add: read_in_def read_in_loop_first rust_assert_def)

lemma write_back_eq:
  assumes "length ids \<le> length (pc_page pc)"
  shows "write_back ids pc d = write_each ids (pc_page pc) d"
  using assms by (simp add: write_back_def write_back_loop_first)

lemma get_cache_ok:
  assumes nb: "neighbor_ok neighbor" and inv: "pcm_invar neighbor d m"
  shows "\<exists>m' pc. get_cache zero c (neighbor c) d m = Some m' \<and> pcm_invar neighbor d m' \<and> slot (pcm_pool m') c = Some pc
    \<and> take (length (neighbor c)) (pc_page pc) = page_view neighbor (pcm_pool m) d c
    \<and> page_view neighbor (pcm_pool m') d = page_view neighbor (pcm_pool m) d"
proof -
  let ?pool = "pcm_pool m @ replicate (Suc c - length (pcm_pool m)) None"
  have lt: "c < length ?pool" by simp
  have sl: "slot ?pool k = slot (pcm_pool m) k" for k by (rule slot_extend)
  have nth: "?pool ! c = slot (pcm_pool m) c" using sl [of c] lt by (simp add: slot_def)
  have ok: "slots_ok neighbor ?pool d" using inv by (simp add: pcm_invar_def slots_ok_def sl)
  have view: "page_view neighbor ?pool d = page_view neighbor (pcm_pool m) d" by (simp add: page_view_def sl fun_eq_iff)
  have alloc: "k \<in> set (allocated_cache m) \<longleftrightarrow> slot (pcm_pool m) k \<noteq> None" and dist: "distinct (allocated_cache m)" for k
    using inv by (simp_all add: pcm_invar_def)
  show ?thesis
  proof (cases "slot (pcm_pool m) c")
    case (Some pc)
    let ?m = "m\<lparr>pcm_pool := ?pool[c := Some (pc_bump pc)]\<rparr>"
    have b: "pc_page (pc_bump pc) = pc_page pc" "pc_dirty (pc_bump pc) = pc_dirty pc" by (simp_all add: pc_bump_def)
    have s: "slot ?pool c = Some pc" using Some sl by simp
    note sp = same_page [OF ok s b]
    have "pcm_invar neighbor d ?m" using sp(1) alloc dist Some by (auto simp: pcm_invar_def slot_update sl)
    then show ?thesis using sp(2) Some view nth by (auto simp: get_cache_def slot_update b page_view_def)
  next
    case None
    have len: "length (neighbor c) \<le> PAGE_BUFFERS" using nb by (simp add: neighbor_ok_def)
    obtain pc where rd: "read_in zero (neighbor c) d (PageCache_new zero) = Some pc" "length (pc_page pc) = PAGE_BUFFERS"
      "take (length (neighbor c)) (pc_page pc) = map d (neighbor c)"
    proof -
      have new: "length (pc_page (PageCache_new zero)) = PAGE_BUFFERS" by (simp add: PageCache_new_def)
      show ?thesis
      proof (cases "neighbor c = []")
        case True
        then show ?thesis using that [of "PageCache_new zero"] new by (simp add: read_in_def)
      next
        case False
        then show ?thesis using len by (intro that) (simp add: read_in_eq [OF new], simp_all)
      qed
    qed
    let ?m = "m\<lparr>pcm_pool := ?pool[c := Some (pc_bump pc)], allocated_cache := vec_push (allocated_cache m) c\<rparr>"
    have b: "pc_page (pc_bump pc) = pc_page pc" by (simp add: pc_bump_def)
    have run: "get_cache zero c (neighbor c) d m = Some ?m" using None nth rd(1) by (simp add: get_cache_def)
    have so: "slots_ok neighbor (?pool[c := Some (pc_bump pc)]) d"
      unfolding slots_ok_def using rd(2,3) lt slots_okD [OF ok] by (auto simp: slot_update b split: if_splits)
    have inv': "pcm_invar neighbor d ?m" using so alloc dist None by (auto simp: pcm_invar_def slot_update sl)
    have "page_view neighbor (?pool[c := Some (pc_bump pc)]) d = page_view neighbor ?pool d"
      using rd(3) None lt by (auto simp: page_view_def slot_update sl b fun_eq_iff)
    then show ?thesis using run inv' rd(3) None view lt
      by (intro exI [of _ ?m] exI [of _ "pc_bump pc"]) (simp add: slot_update b page_view_def)
  qed
qed

section \<open>Properties\<close>

text \<open>C24: the transfers of a page, which join runs of consecutive block numbers into one
  device access, do what transferring every block on its own would do: \<^verbatim>\<open>read_in\<close> fills
  the page with the listed blocks in order and with zeros after them, and panics exactly
  on more than eight blocks; \<^verbatim>\<open>write_back\<close> writes every part of the page to its block and
  nothing else.\<close>

theorem page_transfer_coalescing:
  assumes "length (pc_page pc) = PAGE_BUFFERS"
  shows "read_in zero ids d pc =
      (if ids = [] then ret pc
       else if PAGE_BUFFERS < length ids then panic
       else ret (pc\<lparr>pc_page := map d ids @ replicate (PAGE_BUFFERS - length ids) zero, pc_dirty := False\<rparr>))
    \<and> (if length ids \<le> PAGE_BUFFERS then write_back ids pc d = write_each ids (pc_page pc) d else True)"
  using read_in_eq [OF assms] write_back_eq [of ids pc d] assms by simp

theorem page_transfer_coalescing_witness:
  "read_in 0 [5, 6, 9] (\<lambda>b. b * b) (PageCache_new 0) =
      (if [5, 6, 9] = ([] :: nat list) then ret (PageCache_new 0)
       else if PAGE_BUFFERS < length [5, 6, 9 :: nat] then panic
       else ret ((PageCache_new 0)\<lparr>pc_page := map (\<lambda>b. b * b) [5, 6, 9] @ replicate (PAGE_BUFFERS - length [5, 6, 9 :: nat]) 0, pc_dirty := False\<rparr>))
    \<and> (if length [5, 6, 9 :: nat] \<le> PAGE_BUFFERS
       then write_back [5, 6, 9] (PageCache_new 0) (\<lambda>b. b * b) = write_each [5, 6, 9] (pc_page (PageCache_new 0)) (\<lambda>b. b * b) else True)"
  by (rule page_transfer_coalescing) (simp add: PageCache_new_def)

text \<open>C23: loading and evicting page caches never changes the data of a file.  Getting a page
  that is not cached loads exactly its blocks; running out of memory evicts pages that
  nobody uses and whose priority is spent, writes the dirty ones back, counts them, and
  every page of the file, cached or not, reads as before.\<close>

theorem page_cache_keeps_data:
  assumes "neighbor_ok neighbor" and "pcm_invar neighbor d m"
  shows "(\<exists>m' pc. get_cache zero c (neighbor c) d m = Some m' \<and> pcm_invar neighbor d m' \<and> slot (pcm_pool m') c = Some pc
      \<and> take (length (neighbor c)) (pc_page pc) = page_view neighbor (pcm_pool m) d c
      \<and> page_view neighbor (pcm_pool m') d = page_view neighbor (pcm_pool m) d)
    \<and> (\<exists>n m' d'. pcm_oom neighbor m d = Some (n, m', d') \<and> pcm_invar neighbor d' m'
      \<and> n + length (allocated_cache m') = length (allocated_cache m)
      \<and> page_view neighbor (pcm_pool m') d' = page_view neighbor (pcm_pool m) d)"
proof -
  have ok: "slots_ok neighbor (pcm_pool m) d" and alloc: "\<And>c. c \<in> set (allocated_cache m) \<longleftrightarrow> slot (pcm_pool m) c \<noteq> None"
    and dist: "distinct (allocated_cache m)" using assms(2) by (simp_all add: pcm_invar_def)
  have pre: "\<forall>c \<in> set (allocated_cache m). slot (pcm_pool m) c \<noteq> None" using alloc by blast
  obtain keep n pool' d' where oom: "pcm_oom_loop neighbor (allocated_cache m) (pcm_pool m) d = Some (keep, n, pool', d')"
    "slots_ok neighbor pool' d'" "page_view neighbor pool' d' = page_view neighbor (pcm_pool m) d"
    "keep = filter (\<lambda>c. slot pool' c \<noteq> None) (allocated_cache m)" "n + length keep = length (allocated_cache m)"
    "\<And>c. c \<notin> set (allocated_cache m) \<Longrightarrow> slot pool' c = slot (pcm_pool m) c"
    using pcm_oom_loop_ok [OF assms(1) ok pre dist] by blast
  have "c \<in> set keep \<longleftrightarrow> slot pool' c \<noteq> None" for c
    using oom(4) oom(6) [of c] alloc [of c] by auto
  then have "pcm_invar neighbor d' (m\<lparr>pcm_pool := pool', allocated_cache := keep\<rparr>)"
    using oom(2) dist unfolding pcm_invar_def by (simp add: oom(4))
  then show ?thesis using get_cache_ok [OF assms, of zero c] oom(1,3,5) by (simp add: pcm_oom_def)
qed

theorem page_cache_keeps_data_witness:
  "let neighbor = (\<lambda>c. if c = 0 then [5, 6 :: nat] else []); m = PageCacheManager_new in
   (\<exists>m' pc. get_cache 0 0 (neighbor 0) (\<lambda>b. b) m = Some m' \<and> pcm_invar neighbor (\<lambda>b. b) m' \<and> slot (pcm_pool m') 0 = Some pc
      \<and> take (length (neighbor 0)) (pc_page pc) = page_view neighbor (pcm_pool m) (\<lambda>b. b) 0
      \<and> page_view neighbor (pcm_pool m') (\<lambda>b. b) = page_view neighbor (pcm_pool m) (\<lambda>b. b))
    \<and> (\<exists>n m' d'. pcm_oom neighbor m (\<lambda>b. b) = Some (n, m', d') \<and> pcm_invar neighbor d' m'
      \<and> n + length (allocated_cache m') = length (allocated_cache m)
      \<and> page_view neighbor (pcm_pool m') d' = page_view neighbor (pcm_pool m) (\<lambda>b. b))"
  unfolding Let_def
  by (rule page_cache_keeps_data)
    (auto simp: neighbor_ok_def PAGE_BUFFERS_def pcm_invar_def slots_ok_def slot_def PageCacheManager_new_def)

end
