(* ===== verification/Efs.thy ===== *)
theory Efs
  imports Fat_Names Page_Cache
begin

text \<open>
  \<^verbatim>\<open>kernel/src/fs/fat32/efs.rs\<close>, the mounted file system, and the part of
  \<^verbatim>\<open>kernel/src/fs/fat32/vfs.rs\<close> that finds the sectors of a file: where the clusters and the
  pages of a file lie on the device, and that they never overlap.
\<close>

section \<open>The mounted file system\<close>

record EasyFileSystem =
  efs_fat :: Fat
  data_area_start_block :: u32
  root_clus :: u32
  sec_per_clus :: u8
  efs_byts_per_sec :: u16

definition efs_clus_size :: "EasyFileSystem \<Rightarrow> u32" where
  "efs_clus_size efs = ucast (efs_byts_per_sec efs) * ucast (sec_per_clus efs)"

definition first_sector_of_cluster :: "EasyFileSystem \<Rightarrow> u32 \<Rightarrow> u32" where
  "first_sector_of_cluster efs clus_num =
    data_area_start_block efs + (clus_num - 2) * ucast (sec_per_clus efs)"

definition EasyFileSystem_open :: "fat_disk \<Rightarrow> (EasyFileSystem \<times> fat_disk) run" where
  "EasyFileSystem_open st = do {
     (b, st) \<leftarrow> cache_read 0 read_BPB st;
     n \<leftarrow> data_sector_count b;
     rust_assert (bpb_sec_per_clus b \<noteq> 0);
     start \<leftarrow> first_data_sector b;
     ret (\<lparr>efs_fat = Fat_new (unat (rsvd_sec_cnt b)) (unat (bpb_byts_per_sec b)) (unat (n div ucast (bpb_sec_per_clus b))),
           data_area_start_block = start, root_clus = bpb_root_clus b, sec_per_clus = bpb_sec_per_clus b,
           efs_byts_per_sec = bpb_byts_per_sec b\<rparr>, st) }"

type_synonym fs_state = "EasyFileSystem \<times> fat_disk"

text \<open>The device of the data area is shared with the cache of the table.\<close>

definition efs_alloc :: "nat \<Rightarrow> u32 option \<Rightarrow> fs_state \<Rightarrow> (u32 list \<times> fs_state) run" where
  "efs_alloc n prev s = do {
     (cs, fat, st) \<leftarrow> fat_alloc n prev (efs_fat (fst s), snd s);
     ret (cs, (fst s)\<lparr>efs_fat := fat\<rparr>, st) }"

definition efs_free :: "u32 list \<Rightarrow> u32 option \<Rightarrow> fs_state \<Rightarrow> fs_state run" where
  "efs_free cs prev s = do {
     (fat, st) \<leftarrow> fat_free cs prev (efs_fat (fst s), snd s);
     ret ((fst s)\<lparr>efs_fat := fat\<rparr>, st) }"

definition alloc_blocks :: "nat \<Rightarrow> fs_state \<Rightarrow> (nat list \<times> fs_state) run" where
  "alloc_blocks blocks s = do {
     let n = unat (sec_per_clus (fst s));
     rust_assert (n \<noteq> 0);
     let alloc_num = (blocks + n - 1) div n;
     (clus, s) \<leftarrow> efs_alloc alloc_num None s;
     ret (concat (map (\<lambda>c. map (\<lambda>offset. unat (first_sector_of_cluster (fst s) c) + offset) [0..<n]) clus), s) }"

section \<open>The sectors of a page of a file\<close>

definition get_block_id :: "EasyFileSystem \<Rightarrow> u32 list \<Rightarrow> u32 \<Rightarrow> u32 option run" where
  "get_block_id efs clus_list inner_cache_id = do {
     rust_assert (sec_per_clus efs \<noteq> 0);
     let idx = unat inner_cache_id div unat (sec_per_clus efs);
     ret (if length clus_list \<le> idx then None
          else Some (first_sector_of_cluster efs (clus_list ! idx) + inner_cache_id mod ucast (sec_per_clus efs))) }"

fun neighboring_loop :: "EasyFileSystem \<Rightarrow> u32 list \<Rightarrow> nat \<Rightarrow> nat \<Rightarrow> nat list" where
  "neighboring_loop efs clus_list 0 sec_id = []"
| "neighboring_loop efs clus_list (Suc n) sec_id =
    (let cluster_id = sec_id div unat (sec_per_clus efs) in
     if length clus_list \<le> cluster_id then []
     else (unat (first_sector_of_cluster efs (clus_list ! cluster_id)) + sec_id mod unat (sec_per_clus efs))
       # neighboring_loop efs clus_list n (sec_id + 1))"

definition get_neighboring_sec :: "EasyFileSystem \<Rightarrow> u32 list \<Rightarrow> nat \<Rightarrow> nat list run" where
  "get_neighboring_sec efs clus_list inner_cache_id = do {
     rust_assert (efs_byts_per_sec efs \<noteq> 0);
     let sec_per_cache = 4096 div unat (efs_byts_per_sec efs);
     rust_assert (sec_per_cache = 0 \<or> sec_per_clus efs \<noteq> 0);
     ret (neighboring_loop efs clus_list sec_per_cache (inner_cache_id * sec_per_cache)) }"

section \<open>Geometry\<close>

text \<open>The geometry the kernel expects: sectors of 512 bytes, clusters of whole pages, and a
  data area behind the table whose sector numbers fit 32 bits.\<close>

definition efs_geom :: "nat set \<Rightarrow> EasyFileSystem \<Rightarrow> bool" where
  "efs_geom S efs \<longleftrightarrow> efs_byts_per_sec efs = 512 \<and> 8 dvd unat (sec_per_clus efs) \<and> sec_per_clus efs \<noteq> 0
    \<and> unat (data_area_start_block efs) + tot_ent (efs_fat efs) * unat (sec_per_clus efs) < 2 ^ 32
    \<and> S \<subseteq> {..<unat (data_area_start_block efs)}"

definition cluster_sec :: "EasyFileSystem \<Rightarrow> u32 \<Rightarrow> nat" where
  "cluster_sec efs c = unat (data_area_start_block efs) + (unat c - 2) * unat (sec_per_clus efs)"

definition data_clusters :: "EasyFileSystem \<Rightarrow> u32 list \<Rightarrow> bool" where
  "data_clusters efs cl \<longleftrightarrow> distinct cl \<and> (\<forall>c \<in> set cl. 2 \<le> unat c \<and> unat c < tot_ent (efs_fat efs))"

definition file_pages :: "EasyFileSystem \<Rightarrow> u32 list \<Rightarrow> nat" where
  "file_pages efs cl = length cl * (unat (sec_per_clus efs) div 8)"

definition page_secs :: "EasyFileSystem \<Rightarrow> u32 list \<Rightarrow> nat \<Rightarrow> nat list" where
  "page_secs efs cl c =
    (if c < file_pages efs cl
     then map (\<lambda>k. cluster_sec efs (cl ! (8 * c div unat (sec_per_clus efs))) + 8 * c mod unat (sec_per_clus efs) + k) [0..<8]
     else [])"

lemma unat_ucast_u8_u32 [simp]: "unat (ucast (w :: u8) :: u32) = unat w"
  by transfer simp

lemma first_sector_cluster_sec:
  assumes "efs_geom S efs" and "2 \<le> unat c" and "unat c < tot_ent (efs_fat efs)"
  shows "unat (first_sector_of_cluster efs c) = cluster_sec efs c"
proof -
  let ?s = "unat (sec_per_clus efs)" and ?d = "unat (data_area_start_block efs)"
  have "(unat c - 2) * ?s \<le> tot_ent (efs_fat efs) * ?s" using assms(3) by (intro mult_le_mono1) linarith
  moreover have "?d + tot_ent (efs_fat efs) * ?s < 2 ^ 32" using assms(1) unfolding efs_geom_def by blast
  ultimately have lt: "?d + (unat c - 2) * ?s < 2 ^ 32" by linarith
  have u2: "unat (c - 2) = unat c - 2" using assms(2) by (simp add: unat_sub word_le_nat_alt)
  have "unat ((c - 2) * ucast (sec_per_clus efs)) = (unat c - 2) * ?s"
    using lt by (simp add: unat_word_ariths(2) u2)
  then show ?thesis using lt by (simp add: first_sector_of_cluster_def cluster_sec_def unat_word_ariths(1))
qed

lemma within_cluster:
  assumes "(8 :: nat) dvd s" and "0 < s" and "k < 8"
  shows "(8 * c + k) div s = 8 * c div s" and "(8 * c + k) mod s = 8 * c mod s + k" and "8 * c mod s + k < s"
proof -
  obtain t where t: "s = 8 * t" using assms(1) by (rule dvdE)
  have "0 < t" using assms(2) t by simp
  then have m: "c mod t < t" by simp
  have r: "8 * c mod s = 8 * (c mod t)" by (simp only: t mult_mod_right)
  have "8 * (c mod t) + k < 8 * t" using m assms(3) by linarith
  then show lt: "8 * c mod s + k < s" by (simp only: r) (simp only: t)
  have split: "8 * c + k = (8 * c mod s + k) + 8 * c div s * s" using div_mult_mod_eq [of "8 * c" s] by linarith
  have "(8 * c + k) mod s = (8 * c mod s + k) mod s" by (metis split mod_mult_self1)
  then show "(8 * c + k) mod s = 8 * c mod s + k" using lt by (metis mod_less)
  have "(8 * c + k) div s = 8 * c div s + (8 * c mod s + k) div s" using assms(2) by (metis split div_mult_self1 less_irrefl)
  then show "(8 * c + k) div s = 8 * c div s" using lt by (metis add_0_right div_less)
qed

lemma page_cluster_lt:
  assumes "(8 :: nat) dvd s" and "0 < s"
  shows "8 * c div s < n \<longleftrightarrow> c < n * (s div 8)"
proof -
  obtain t where t: "s = 8 * t" using assms(1) by (rule dvdE)
  have "0 < t" using assms(2) t by simp
  then show ?thesis by (simp add: t div_less_iff_less_mult)
qed

lemma neighboring_loop_in:
  assumes "(8 :: nat) dvd s" and "0 < s" and s: "s = unat (sec_per_clus efs)" and "8 * c div s < length cl" and "k \<le> 8"
  shows "neighboring_loop efs cl k (8 * c + (8 - k)) =
    map (\<lambda>j. unat (first_sector_of_cluster efs (cl ! (8 * c div s))) + 8 * c mod s + j) [8 - k ..< 8]"
  using assms(5)
proof (induction k)
  case (Suc k)
  have lt: "7 - k < 8" by simp
  note w = within_cluster [OF assms(1,2) lt, of c]
  have e: "8 - Suc k = 7 - k" "8 - k = Suc (7 - k)" using Suc.prems by simp_all
  have up: "[8 - Suc k ..< 8] = (8 - Suc k) # [8 - k ..< 8]" unfolding e using Suc.prems by (simp add: upt_conv_Cons)
  have "neighboring_loop efs cl (Suc k) (8 * c + (8 - Suc k)) =
      (unat (first_sector_of_cluster efs (cl ! (8 * c div s))) + (8 * c mod s + (8 - Suc k))) # neighboring_loop efs cl k (8 * c + (8 - k))"
    using w assms(4) unfolding e by (simp add: s [symmetric] Let_def)
  then show ?case using Suc.IH Suc.prems unfolding up by simp
qed simp

lemma get_neighboring_sec_eq:
  assumes g: "efs_geom S efs" and cl: "data_clusters efs cl"
  shows "get_neighboring_sec efs cl c = Some (page_secs efs cl c)"
proof -
  let ?s = "unat (sec_per_clus efs)"
  have s: "8 dvd ?s" "0 < ?s" and nz: "sec_per_clus efs \<noteq> 0" and b: "efs_byts_per_sec efs = 512"
    using g by (auto simp: efs_geom_def unat_gt_0)
  have run: "get_neighboring_sec efs cl c = Some (neighboring_loop efs cl 8 (8 * c))"
    by (simp add: get_neighboring_sec_def b nz mult.commute)
  show ?thesis
  proof (cases "8 * c div ?s < length cl")
    case True
    let ?c = "cl ! (8 * c div ?s)"
    have "?c \<in> set cl" using True by simp
    then have "unat (first_sector_of_cluster efs ?c) = cluster_sec efs ?c"
      using cl by (intro first_sector_cluster_sec [OF g]) (auto simp: data_clusters_def)
    then show ?thesis using neighboring_loop_in [OF s refl True, of 8] True run
      by (simp add: page_secs_def file_pages_def page_cluster_lt [OF s])
  next
    case False
    have "(8 :: nat) = Suc 7" by simp
    then have "neighboring_loop efs cl 8 (8 * c) = []" using False neighboring_loop.simps(2) [of efs cl 7 "8 * c"] by (simp only: Let_def not_less if_True)
    then show ?thesis using False run by (simp add: page_secs_def file_pages_def page_cluster_lt [OF s])
  qed
qed

lemma length_page_secs: "length (page_secs efs cl c) = (if c < file_pages efs cl then 8 else 0)"
  by (simp add: page_secs_def)

lemma page_secs_member:
  assumes g: "efs_geom S efs" and cl: "data_clusters efs cl" and b: "b \<in> set (page_secs efs cl c)"
  shows "\<exists>i < length cl. \<exists>r < unat (sec_per_clus efs). b = cluster_sec efs (cl ! i) + r
    \<and> i = 8 * c div unat (sec_per_clus efs) \<and> r div 8 = 8 * c mod unat (sec_per_clus efs) div 8"
proof -
  let ?s = "unat (sec_per_clus efs)"
  have s: "8 dvd ?s" "0 < ?s" using g by (auto simp: efs_geom_def unat_gt_0)
  have lt: "8 * c div ?s < length cl" using b page_cluster_lt [OF s] by (auto simp: page_secs_def file_pages_def split: if_splits)
  obtain k where k: "k < 8" "b = cluster_sec efs (cl ! (8 * c div ?s)) + 8 * c mod ?s + k"
  proof -
    have "b \<in> (\<lambda>k. cluster_sec efs (cl ! (8 * c div ?s)) + 8 * c mod ?s + k) ` {0..<8}"
      using b unfolding page_secs_def by (simp only: set_map set_upt split: if_splits) simp
    then show ?thesis using that by (elim imageE) simp
  qed
  have "8 dvd 8 * c mod ?s" using s(1) by (simp add: dvd_mod)
  then have "(8 * c mod ?s + k) div 8 = 8 * c mod ?s div 8" using k(1) by (auto elim!: dvdE)
  then show ?thesis using lt k within_cluster(3) [OF s k(1), of c]
    by (intro exI [of _ "8 * c div ?s"] conjI exI [of _ "8 * c mod ?s + k"]) (simp_all add: add.assoc)
qed

lemma cluster_sec_inj:
  assumes cl: "data_clusters efs cl" and "i < length cl" and "j < length cl" and "r < unat (sec_per_clus efs)" and "q < unat (sec_per_clus efs)"
    and eq: "cluster_sec efs (cl ! i) + r = cluster_sec efs (cl ! j) + q"
  shows "i = j \<and> r = q"
proof -
  let ?s = "unat (sec_per_clus efs)" and ?a = "unat (cl ! i) - 2" and ?b = "unat (cl ! j) - 2"
  have e: "?a * ?s + r = ?b * ?s + q" using eq by (simp add: cluster_sec_def)
  have "?s \<noteq> 0" using assms(4) by simp
  then have "(?a * ?s + r) div ?s = ?a" "(?b * ?s + q) div ?s = ?b" "(?a * ?s + r) mod ?s = r" "(?b * ?s + q) mod ?s = q"
    using assms(4,5) by simp_all
  then have ab: "?a = ?b" "r = q" using e by metis+
  have mem: "cl ! i \<in> set cl" "cl ! j \<in> set cl" using assms(2,3) by simp_all
  then have "2 \<le> unat (cl ! i)" "2 \<le> unat (cl ! j)" using cl by (auto simp: data_clusters_def)
  then have "unat (cl ! i) = unat (cl ! j)" using ab(1) by linarith
  then have "cl ! i = cl ! j" by (simp add: unat_eqD)
  then show ?thesis using cl assms(2,3) ab(2) by (simp add: data_clusters_def nth_eq_iff_index_eq)
qed

lemma page_secs_neighbor_ok:
  assumes g: "efs_geom S efs" and cl: "data_clusters efs cl"
  shows "neighbor_ok (page_secs efs cl)"
  unfolding neighbor_ok_def
proof (intro conjI allI impI)
  let ?s = "unat (sec_per_clus efs)"
  fix c
  show "length (page_secs efs cl c) \<le> PAGE_BUFFERS" by (simp add: length_page_secs PAGE_BUFFERS_def)
  show "distinct (page_secs efs cl c)" by (auto simp: page_secs_def distinct_map inj_on_def)
  fix c' :: nat assume ne: "c \<noteq> c'"
  have s: "8 dvd ?s" using g by (simp add: efs_geom_def)
  show "set (page_secs efs cl c) \<inter> set (page_secs efs cl c') = {}"
  proof (rule ccontr)
    assume "\<not> ?thesis"
    then obtain b where b: "b \<in> set (page_secs efs cl c)" "b \<in> set (page_secs efs cl c')" by blast
    obtain r where r: "r < ?s" "8 * c div ?s < length cl" "b = cluster_sec efs (cl ! (8 * c div ?s)) + r" "r div 8 = 8 * c mod ?s div 8"
      using page_secs_member [OF g cl b(1)] by blast
    obtain q where q: "q < ?s" "8 * c' div ?s < length cl" "b = cluster_sec efs (cl ! (8 * c' div ?s)) + q" "q div 8 = 8 * c' mod ?s div 8"
      using page_secs_member [OF g cl b(2)] by blast
    have "8 * c div ?s = 8 * c' div ?s" "r = q" using cluster_sec_inj [OF cl r(2) q(2) r(1) q(1)] r(3) q(3) by simp_all
    moreover have "8 dvd 8 * c mod ?s" "8 dvd 8 * c' mod ?s" using s by (simp_all add: dvd_mod)
    ultimately have "8 * c mod ?s = 8 * c' mod ?s" using r(4) q(4) by (metis dvd_div_mult_self)
    then show False using \<open>8 * c div ?s = 8 * c' div ?s\<close> ne by (metis div_mult_mod_eq mult_left_cancel zero_neq_numeral)
  qed
qed

lemma page_secs_data:
  assumes g: "efs_geom S efs" and cl: "data_clusters efs cl" and b: "b \<in> set (page_secs efs cl c)"
  shows "b \<notin> S" and "b < 2 ^ 32"
proof -
  let ?s = "unat (sec_per_clus efs)"
  obtain i r where i: "i < length cl" "r < ?s" "b = cluster_sec efs (cl ! i) + r" using page_secs_member [OF g cl b] by blast
  have "cl ! i \<in> set cl" using i(1) by simp
  then have "2 \<le> unat (cl ! i)" "unat (cl ! i) < tot_ent (efs_fat efs)" using cl by (auto simp: data_clusters_def)
  then have "Suc (unat (cl ! i) - 2) * ?s \<le> tot_ent (efs_fat efs) * ?s" by (intro mult_le_mono1) linarith
  then have "(unat (cl ! i) - 2) * ?s + r \<le> tot_ent (efs_fat efs) * ?s" using i(2) by simp
  moreover have "unat (data_area_start_block efs) + tot_ent (efs_fat efs) * ?s < 2 ^ 32" using g unfolding efs_geom_def by blast
  ultimately show "b < 2 ^ 32" using i(3) by (simp add: cluster_sec_def)
  show "b \<notin> S" using g i(3) by (auto simp: efs_geom_def cluster_sec_def)
qed

end
