(* ===== verification/Inode_Io.thy ===== *)
theory Inode_Io
  imports Efs
begin

text \<open>
  \<^verbatim>\<open>kernel/src/fs/fat32/vfs.rs\<close>, the contents of a file: its size and cluster list, growing
  and shrinking, reading and writing through the page caches.  The state of an operation is
  the inode, the mounted file system and the device with the cache of the table.  Sizes and
  offsets are natural numbers where the code has \<^verbatim>\<open>usize\<close>, with the wrap-around written out
  where it can happen.
\<close>

section \<open>Inodes\<close>

record FileContent =
  fc_size :: u32
  fc_clus_list :: "u32 list"
  fc_hint :: u32

record InodeTime =
  create_time :: u64
  access_time :: u64
  modify_time :: u64

text \<open>The parent directory is given by its number and the offset of the short entry.\<close>

record Inode =
  file_content :: FileContent
  file_cache_mgr :: "u8 list PageCacheManager"
  file_type :: DiskInodeType
  parent_dir :: "(nat \<times> u32) option"
  inode_time :: InodeTime
  deleted :: bool

type_synonym inode_state = "Inode \<times> fs_state"

definition get_file_size :: "Inode \<Rightarrow> u32" where
  "get_file_size ino = fc_size (file_content ino)"

definition inode_is_dir :: "Inode \<Rightarrow> bool" where
  "inode_is_dir ino \<longleftrightarrow> file_type ino = Directory"

definition inode_is_file :: "Inode \<Rightarrow> bool" where
  "inode_is_file ino \<longleftrightarrow> file_type ino = File"

definition get_first_clus_lock :: "Inode \<Rightarrow> u32 option" where
  "get_first_clus_lock ino = (case fc_clus_list (file_content ino) of [] \<Rightarrow> None | c # _ \<Rightarrow> Some c)"

definition get_inode_num_lock :: "EasyFileSystem \<Rightarrow> Inode \<Rightarrow> u32 option" where
  "get_inode_num_lock efs ino = map_option (first_sector_of_cluster efs) (get_first_clus_lock ino)"

definition total_clus :: "EasyFileSystem \<Rightarrow> u32 \<Rightarrow> nat run" where
  "total_clus efs sz = do {
     rust_assert (efs_clus_size efs \<noteq> 0);
     let n = unat (efs_clus_size efs);
     ret ((unat sz + n - 1) div n) }"

definition last_opt :: "'a list \<Rightarrow> 'a option" where
  "last_opt xs = (if xs = [] then None else Some (last xs))"

section \<open>Growing and shrinking\<close>

text \<open>\<^verbatim>\<open>Vec::with_capacity\<close> in \<^verbatim>\<open>Fat::alloc\<close> panics when the capacity in bytes exceeds
  \<^verbatim>\<open>isize::MAX\<close>.\<close>

definition alloc_clus :: "nat \<Rightarrow> inode_state \<Rightarrow> inode_state run" where
  "alloc_clus alloc_num s = do {
     let ino = fst s;
     let fc = file_content ino;
     rust_assert (4 * alloc_num < 2 ^ 63);
     (cs, fs) \<leftarrow> efs_alloc alloc_num (last_opt (fc_clus_list fc)) (snd s);
     ret (ino\<lparr>file_content := fc\<lparr>fc_clus_list := fc_clus_list fc @ cs\<rparr>\<rparr>, fs) }"

definition dealloc_clus :: "nat \<Rightarrow> inode_state \<Rightarrow> inode_state run" where
  "dealloc_clus dealloc_num s = do {
     let ino = fst s;
     let fc = file_content ino;
     let n = min dealloc_num (length (fc_clus_list fc));
     let keep = take (length (fc_clus_list fc) - n) (fc_clus_list fc);
     let dealloc_list = rev (drop (length (fc_clus_list fc) - n) (fc_clus_list fc));
     fs \<leftarrow> efs_free dealloc_list (last_opt keep) (snd s);
     ret (ino\<lparr>file_content := fc\<lparr>fc_clus_list := keep\<rparr>\<rparr>, fs) }"

section \<open>Pages\<close>

definition zero_block :: "u8 list" where
  "zero_block = replicate 512 0"

definition page_bytes :: "u8 list PageCache \<Rightarrow> u8 list" where
  "page_bytes pc = concat (pc_page pc)"

definition blocks_of :: "u8 list \<Rightarrow> u8 list list" where
  "blocks_of bs = map (\<lambda>i. take 512 (drop (512 * i) bs)) [0..<8]"

text \<open>Writing to the bytes of a page through \<^verbatim>\<open>modify\<close> makes the page dirty.\<close>

definition page_store :: "nat \<Rightarrow> u8 list \<Rightarrow> u8 list PageCache \<Rightarrow> u8 list PageCache" where
  "page_store off src pc =
    pc\<lparr>pc_page := blocks_of (take off (page_bytes pc) @ src @ drop (off + length src) (page_bytes pc)), pc_dirty := True\<rparr>"

definition page_load :: "nat \<Rightarrow> nat \<Rightarrow> u8 list PageCache \<Rightarrow> u8 list" where
  "page_load off len pc = take len (drop off (page_bytes pc))"

text \<open>The cache of a page of the file, loaded when it is not there.\<close>

definition inode_get_cache :: "EasyFileSystem \<Rightarrow> u32 list \<Rightarrow> nat \<Rightarrow> u8 list disk \<Rightarrow> u8 list PageCacheManager \<Rightarrow>
    (u8 list PageCache \<times> u8 list PageCacheManager) run" where
  "inode_get_cache efs clus_list cid d m = do {
     block_ids \<leftarrow> get_neighboring_sec efs clus_list cid;
     m \<leftarrow> get_cache zero_block cid block_ids d m;
     pc \<leftarrow> slot (pcm_pool m) cid;
     ret (pc, m) }"

text \<open>The loop of \<^verbatim>\<open>read_at_block_cache\<close>, \<^verbatim>\<open>write_at_block_cache\<close> and \<^verbatim>\<open>clear_at_block_cache\<close>: page by
  page from \<open>start\<close> to \<open>finish\<close>, with the access to one page as parameter.  An end before
  the start makes the length of the slice wrap around, and indexing with it panics.\<close>

function page_loop :: "(nat \<Rightarrow> nat \<Rightarrow> nat \<Rightarrow> u8 list PageCache \<Rightarrow> u8 list \<times> u8 list PageCache) \<Rightarrow>
    EasyFileSystem \<Rightarrow> u32 list \<Rightarrow> u8 list disk \<Rightarrow> nat \<Rightarrow> nat \<Rightarrow> nat \<Rightarrow> nat \<Rightarrow> u8 list PageCacheManager \<Rightarrow>
    (nat \<times> u8 list \<times> u8 list PageCacheManager) run" where
  "page_loop access efs clus_list d start finish start_cache done_size m =
    (if finish < start then panic
     else do {
       let end_current_block = min ((start div 4096 + 1) * 4096) finish;
       let block_size = end_current_block - start;
       (pc, m) \<leftarrow> inode_get_cache efs clus_list start_cache d m;
       let (out, pc') = access done_size (start mod 4096) block_size pc;
       let m = m\<lparr>pcm_pool := (pcm_pool m)[start_cache := Some pc']\<rparr>;
       if end_current_block = finish then ret (done_size + block_size, out, m)
       else do {
         (n, rest, m) \<leftarrow> page_loop access efs clus_list d end_current_block finish (start_cache + 1) (done_size + block_size) m;
         ret (n, out @ rest, m) } })"
  by pat_completeness auto
termination
proof (relation "measure (\<lambda>(_, _, _, _, start, finish, _, _, _). finish - start)", goal_cases)
  case (2 access efs clus_list d start finish start_cache done_size m x xa)
  then show ?case by (auto simp: min_def split: if_splits)
qed simp

declare page_loop.simps [simp del]

section \<open>Changing the size\<close>

definition load_access :: "nat \<Rightarrow> nat \<Rightarrow> nat \<Rightarrow> u8 list PageCache \<Rightarrow> u8 list \<times> u8 list PageCache" where
  "load_access done_size off len pc = (page_load off len pc, pc)"

definition store_access :: "u8 list \<Rightarrow> nat \<Rightarrow> nat \<Rightarrow> nat \<Rightarrow> u8 list PageCache \<Rightarrow> u8 list \<times> u8 list PageCache" where
  "store_access buf done_size off len pc = ([], page_store off (take len (drop done_size buf)) pc)"

definition fill_access :: "nat \<Rightarrow> nat \<Rightarrow> nat \<Rightarrow> u8 list PageCache \<Rightarrow> u8 list \<times> u8 list PageCache" where
  "fill_access done_size off len pc = ([], page_store off (replicate len 0) pc)"

definition clear_at_block_cache_lock :: "nat \<Rightarrow> nat \<Rightarrow> inode_state \<Rightarrow> (nat \<times> inode_state) run" where
  "clear_at_block_cache_lock offset len s = do {
     let (ino, efs, st) = s;
     (n, _, m) \<leftarrow> page_loop fill_access efs (fc_clus_list (file_content ino)) (snd st) offset (offset + len)
       (offset div 4096) 0 (file_cache_mgr ino);
     ret (n, ino\<lparr>file_cache_mgr := m\<rparr>, efs, st) }"

text \<open>\<^verbatim>\<open>modify_size_lock\<close>: the new size is truncated to 32 bits and the difference of the
  cluster numbers wraps around.\<close>

definition modify_size_lock :: "int \<Rightarrow> bool \<Rightarrow> inode_state \<Rightarrow> inode_state run" where
  "modify_size_lock diff clear s = do {
     let old_size = get_file_size (fst s);
     let new_size = (of_int (uint old_size + diff) :: u32);
     old_clus_num \<leftarrow> total_clus (fst (snd s)) old_size;
     new_clus_num \<leftarrow> total_clus (fst (snd s)) new_size;
     (ino, fs) \<leftarrow> (if 0 < diff then alloc_clus (nat ((int new_clus_num - int old_clus_num) mod 2 ^ 64)) s
                  else dealloc_clus (nat ((int old_clus_num - int new_clus_num) mod 2 ^ 64)) s);
     let ino = ino\<lparr>file_content := (file_content ino)\<lparr>fc_size := new_size\<rparr>\<rparr>;
     if 0 < diff then
       (if clear then do {
          (_, s') \<leftarrow> clear_at_block_cache_lock (unat old_size) (unat (new_size - old_size)) (ino, fs);
          ret s' }
        else ret (ino, fs))
     else do {
       m \<leftarrow> notify_new_size (unat new_size) (file_cache_mgr ino);
       ret (ino\<lparr>file_cache_mgr := m\<rparr>, fs) } }"

text \<open>Memory pressure: the page caches of the file are given back.\<close>

definition inode_oom :: "inode_state \<Rightarrow> (nat \<times> inode_state) run" where
  "inode_oom s = do {
     let (ino, efs, pool, d) = s;
     (n, m, d') \<leftarrow> pcm_oom (\<lambda>cid. case get_neighboring_sec efs (fc_clus_list (file_content ino)) cid of Some ids \<Rightarrow> ids | None \<Rightarrow> [])
       (file_cache_mgr ino) d;
     ret (n, ino\<lparr>file_cache_mgr := m\<rparr>, efs, pool, d') }"

section \<open>Reading and writing\<close>

definition read_at_block_cache :: "nat \<Rightarrow> nat \<Rightarrow> inode_state \<Rightarrow> (u8 list \<times> inode_state) run" where
  "read_at_block_cache offset len s = do {
     let (ino, efs, st) = s;
     let finish = min ((offset + len) mod 2 ^ 64) (unat (get_file_size ino));
     if finish \<le> offset then ret ([], s)
     else do {
       (n, bytes, m) \<leftarrow> page_loop load_access efs (fc_clus_list (file_content ino)) (snd st) offset finish
         (offset div 4096) 0 (file_cache_mgr ino);
       ret (bytes, ino\<lparr>file_cache_mgr := m\<rparr>, efs, st) } }"

definition write_at_block_cache_lock :: "nat \<Rightarrow> u8 list \<Rightarrow> inode_state \<Rightarrow> (nat \<times> inode_state) run" where
  "write_at_block_cache_lock offset buf s = do {
     let diff_len = sint (of_nat (length buf) + of_nat offset - of_nat (unat (get_file_size (fst s))) :: 64 word);
     (ino, efs, st) \<leftarrow> (if 0 < diff_len then modify_size_lock diff_len False s else ret s);
     let finish = min ((offset + length buf) mod 2 ^ 64) (unat (get_file_size ino));
     (n, _, m) \<leftarrow> page_loop (store_access buf) efs (fc_clus_list (file_content ino)) (snd st) offset finish
       (offset div 4096) 0 (file_cache_mgr ino);
     ret (n, ino\<lparr>file_cache_mgr := m\<rparr>, efs, st) }"

text \<open>The cache of one page, and of every page of the file.\<close>

definition get_single_cache :: "nat \<Rightarrow> inode_state \<Rightarrow> (u8 list PageCache \<times> inode_state) run" where
  "get_single_cache cid s = do {
     let (ino, efs, st) = s;
     (pc, m) \<leftarrow> inode_get_cache efs (fc_clus_list (file_content ino)) cid (snd st) (file_cache_mgr ino);
     ret (pc, ino\<lparr>file_cache_mgr := m\<rparr>, efs, st) }"

fun get_caches :: "nat list \<Rightarrow> inode_state \<Rightarrow> (u8 list PageCache list \<times> inode_state) run" where
  "get_caches [] s = ret ([], s)"
| "get_caches (cid # cids) s = do {
     (pc, s) \<leftarrow> get_single_cache cid s;
     (pcs, s) \<leftarrow> get_caches cids s;
     ret (pc # pcs, s) }"

definition get_all_cache :: "inode_state \<Rightarrow> (u8 list PageCache list \<times> inode_state) run" where
  "get_all_cache s = get_caches [0..<(unat (get_file_size (fst s)) + 4096 - 1) div 4096] s"

definition Inode_init :: "u32 \<Rightarrow> u32 option \<Rightarrow> DiskInodeType \<Rightarrow> (nat \<times> u32) option \<Rightarrow> fs_state \<Rightarrow> inode_state run" where
  "Inode_init fst_clus sz ftype parent fs = do {
     (clus_list, st) \<leftarrow> (if fst_clus = 0 then ret ([], snd fs) else get_all_clus_num (efs_fat (fst fs)) fst_clus (snd fs));
     let sz = (case sz of Some n \<Rightarrow> n | None \<Rightarrow> of_nat (length clus_list) * efs_clus_size (fst fs));
     ret (\<lparr>file_content = \<lparr>fc_size = sz, fc_clus_list = clus_list, fc_hint = 0\<rparr>, file_cache_mgr = PageCacheManager_new,
           file_type = ftype, parent_dir = parent, inode_time = \<lparr>create_time = 0, access_time = 0, modify_time = 0\<rparr>,
           deleted = False\<rparr>, fst fs, st) }"

definition stat_lock :: "EasyFileSystem \<Rightarrow> Inode \<Rightarrow> u32 \<times> u64 \<times> u64 \<times> u64 \<times> u64" where
  "stat_lock efs ino = (get_file_size ino, access_time (inode_time ino), modify_time (inode_time ino), create_time (inode_time ino),
     ucast (case get_inode_num_lock efs ino of Some n \<Rightarrow> n | None \<Rightarrow> 0))"

end
