(* ===== verification/File_Io.thy ===== *)
theory File_Io
  imports Inode_Io
begin

text \<open>
  Reading and writing a file is reading and writing a list of bytes: the page loops of
  \<^verbatim>\<open>vfs.rs\<close> over the page caches, the allocation of clusters when the file grows, and the
  table, put together.
\<close>

section \<open>The bytes of a file\<close>

definition file_page :: "EasyFileSystem \<Rightarrow> u32 list \<Rightarrow> u8 list disk \<Rightarrow> u8 list PageCacheManager \<Rightarrow> nat \<Rightarrow> u8 list" where
  "file_page efs cl d m c = concat (page_view (page_secs efs cl) (pcm_pool m) d c)"

definition byte_at :: "(nat \<Rightarrow> u8 list) \<Rightarrow> nat \<Rightarrow> u8" where
  "byte_at P i = P (i div 4096) ! (i mod 4096)"

text \<open>The caches of a file: consistent with the device, only of pages the file has, whole blocks.\<close>

definition file_ok :: "EasyFileSystem \<Rightarrow> u32 list \<Rightarrow> u8 list disk \<Rightarrow> u8 list PageCacheManager \<Rightarrow> bool" where
  "file_ok efs cl d m \<longleftrightarrow> data_clusters efs cl \<and> pcm_invar (page_secs efs cl) d m
    \<and> (\<forall>c pc. slot (pcm_pool m) c = Some pc \<longrightarrow> c < file_pages efs cl \<and> (\<forall>b \<in> set (pc_page pc). length b = 512))
    \<and> (\<forall>c. \<forall>b \<in> set (page_secs efs cl c). length (d b) = 512)"

lemma file_okD:
  assumes "file_ok efs cl d m"
  shows "data_clusters efs cl" and "pcm_invar (page_secs efs cl) d m"
    and "slot (pcm_pool m) c = Some pc \<Longrightarrow> c < file_pages efs cl"
    and "slot (pcm_pool m) c = Some pc \<Longrightarrow> b \<in> set (pc_page pc) \<Longrightarrow> length b = 512"
    and "b' \<in> set (page_secs efs cl c) \<Longrightarrow> length (d b') = 512"
  using assms unfolding file_ok_def by blast+

lemma length_concat_512: "\<forall>b \<in> set bs. length b = 512 \<Longrightarrow> length (concat bs) = 512 * length bs"
  by (induction bs) simp_all

lemma page_view_blocks:
  assumes "file_ok efs cl d m"
  shows "length (page_view (page_secs efs cl) (pcm_pool m) d c) = length (page_secs efs cl c)"
    and "\<forall>b \<in> set (page_view (page_secs efs cl) (pcm_pool m) d c). length b = 512"
proof -
  note f = file_okD [OF assms]
  show "\<forall>b \<in> set (page_view (page_secs efs cl) (pcm_pool m) d c). length b = 512"
    using f(4,5) by (auto simp: page_view_def split: option.split dest: in_set_takeD)
  have "length (pc_page pc) = PAGE_BUFFERS" if "slot (pcm_pool m) c = Some pc" for pc
    using f(2) that slots_okD(1) by (auto simp: pcm_invar_def)
  then show "length (page_view (page_secs efs cl) (pcm_pool m) d c) = length (page_secs efs cl c)"
    using length_page_secs [of efs cl c] by (cases "slot (pcm_pool m) c") (simp_all add: page_view_def PAGE_BUFFERS_def)
qed

lemma length_file_page:
  assumes "file_ok efs cl d m" and "c < file_pages efs cl"
  shows "length (file_page efs cl d m c) = 4096"
  using length_concat_512 [OF page_view_blocks(2) [OF assms(1)]] page_view_blocks(1) [OF assms(1)] assms(2)
  by (simp add: file_page_def length_page_secs)

lemma get_cache_slots:
  assumes "get_cache z c ids d m = Some m'" and "slot (pcm_pool m') k \<noteq> None"
  shows "k = c \<or> slot (pcm_pool m) k \<noteq> None"
proof -
  let ?pool = "pcm_pool m @ replicate (Suc c - length (pcm_pool m)) None"
  obtain x where "pcm_pool m' = ?pool[c := x]" using assms(1)
    by (auto simp: get_cache_def Let_def split: option.splits bind_splits)
  then show ?thesis using assms(2) by (auto simp: slot_update slot_extend split: if_splits)
qed

lemma inode_get_cache_ok:
  assumes g: "efs_geom S efs" and f: "file_ok efs cl d m" and c: "c < file_pages efs cl"
  shows "\<exists>pc m'. inode_get_cache efs cl c d m = Some (pc, m') \<and> file_ok efs cl d m'
    \<and> file_page efs cl d m' = file_page efs cl d m \<and> slot (pcm_pool m') c = Some pc
    \<and> page_bytes pc = file_page efs cl d m c"
proof -
  note fd = file_okD [OF f]
  have nb: "neighbor_ok (page_secs efs cl)" by (rule page_secs_neighbor_ok [OF g fd(1)])
  obtain m' pc where m': "get_cache zero_block c (page_secs efs cl c) d m = Some m'" "pcm_invar (page_secs efs cl) d m'"
    "slot (pcm_pool m') c = Some pc" "take (length (page_secs efs cl c)) (pc_page pc) = page_view (page_secs efs cl) (pcm_pool m) d c"
    "page_view (page_secs efs cl) (pcm_pool m') d = page_view (page_secs efs cl) (pcm_pool m) d"
    using get_cache_ok [OF nb fd(2), of zero_block c] by blast
  have whole: "pc_page p = page_view (page_secs efs cl) (pcm_pool m) d k" if "slot (pcm_pool m') k = Some p" "k < file_pages efs cl" for k p
  proof -
    have "length (pc_page p) = PAGE_BUFFERS" using m'(2) that(1) slots_okD(1) by (auto simp: pcm_invar_def)
    then have "pc_page p = page_view (page_secs efs cl) (pcm_pool m') d k"
      using that by (simp add: page_view_def length_page_secs PAGE_BUFFERS_def)
    then show ?thesis using m'(5) by simp
  qed
  have lt: "k < file_pages efs cl" if "slot (pcm_pool m') k = Some p" for k p
    using get_cache_slots [OF m'(1), of k] that c fd(3) by auto
  have "file_ok efs cl d m'" unfolding file_ok_def
    using fd(1,5) m'(2) lt whole page_view_blocks(2) [OF f] by metis
  moreover have "page_bytes pc = file_page efs cl d m c" using whole [OF m'(3) c] by (simp add: page_bytes_def file_page_def)
  moreover have "inode_get_cache efs cl c d m = Some (pc, m')"
    using m'(1,3) get_neighboring_sec_eq [OF g fd(1)] by (simp add: inode_get_cache_def)
  moreover have "file_page efs cl d m' = file_page efs cl d m" using m'(5) by (simp add: file_page_def fun_eq_iff)
  ultimately show ?thesis using m'(3) by blast
qed

lemma file_put_page:
  assumes f: "file_ok efs cl d m" and s: "slot (pcm_pool m) c = Some pc"
    and pc': "length (pc_page pc') = 8" "\<forall>b \<in> set (pc_page pc'). length b = 512" "pc_dirty pc' \<or> pc' = pc"
  shows "file_ok efs cl d (m\<lparr>pcm_pool := (pcm_pool m)[c := Some pc']\<rparr>)"
    and "file_page efs cl d (m\<lparr>pcm_pool := (pcm_pool m)[c := Some pc']\<rparr>) = (file_page efs cl d m)(c := page_bytes pc')"
proof -
  note fd = file_okD [OF f]
  let ?m = "m\<lparr>pcm_pool := (pcm_pool m)[c := Some pc']\<rparr>"
  have lt: "c < length (pcm_pool m)" using s by (simp add: slot_def split: if_splits)
  have sl: "slot (pcm_pool ?m) k = (if k = c then Some pc' else slot (pcm_pool m) k)" for k using lt by (simp add: slot_update)
  have so: "slots_ok (page_secs efs cl) (pcm_pool m) d" using fd(2) by (simp add: pcm_invar_def)
  have "slots_ok (page_secs efs cl) (pcm_pool ?m) d"
    unfolding slots_ok_def sl using so pc'(1,3) s unfolding slots_ok_def by (auto simp: PAGE_BUFFERS_def)
  moreover have "(k \<in> set (allocated_cache ?m)) = (slot (pcm_pool ?m) k \<noteq> None)" for k
    using fd(2) s unfolding sl by (auto simp: pcm_invar_def)
  ultimately have "pcm_invar (page_secs efs cl) d ?m" using fd(2) unfolding pcm_invar_def by simp
  then show "file_ok efs cl d ?m" unfolding file_ok_def sl using fd(1,3,4,5) s pc'(2) by auto
  show "file_page efs cl d ?m = (file_page efs cl d m)(c := page_bytes pc')"
    using pc'(1) fd(3) [OF s] unfolding file_page_def page_view_def sl
    by (auto simp: fun_eq_iff page_bytes_def length_page_secs)
qed

section \<open>Bytes within a page\<close>

lemma div_page:
  fixes start i :: nat
  assumes "start + i < (start div 4096 + 1) * 4096"
  shows "(start + i) div 4096 = start div 4096" and "(start + i) mod 4096 = start mod 4096 + i"
proof -
  define q r where "q = start div 4096" and "r = start mod 4096"
  have start: "start = q * 4096 + r" by (simp add: q_def r_def)
  have "start + i < (q + 1) * 4096" using assms by (simp only: q_def)
  then have "r + i < 4096" by (simp add: start)
  then have "(q * 4096 + (r + i)) div 4096 = q" "(q * 4096 + (r + i)) mod 4096 = r + i" by simp_all
  then show "(start + i) div 4096 = start div 4096" "(start + i) mod 4096 = start mod 4096 + i"
    unfolding q_def [symmetric] r_def [symmetric] by (simp_all add: start add.assoc)
qed

lemma page_slice:
  assumes "length (P (start div 4096)) = 4096" and "start \<le> e" and "e \<le> (start div 4096 + 1) * 4096"
  shows "take (e - start) (drop (start mod 4096) (P (start div 4096))) = map (byte_at P) [start..<e]"
proof (rule nth_equalityI)
  define q r where "q = start div 4096" and "r = start mod 4096"
  have start: "start = q * 4096 + r" by (simp add: q_def r_def)
  have "e \<le> (q + 1) * 4096" using assms(3) by (simp only: q_def)
  then have "r + (e - start) \<le> 4096" using assms(2) by (simp add: start)
  then have "start mod 4096 + (e - start) \<le> 4096" by (simp only: r_def)
  then show len: "length (take (e - start) (drop (start mod 4096) (P (start div 4096)))) = length (map (byte_at P) [start..<e])"
    using assms(1) by simp
  fix i assume "i < length (take (e - start) (drop (start mod 4096) (P (start div 4096))))"
  then have i: "i < e - start" by simp
  then have "start + i < (start div 4096 + 1) * 4096" using assms(3) by linarith
  note dp = div_page [OF this]
  have "start mod 4096 + i < 4096" using dp(2) mod_less_divisor [of 4096 "start + i"] by simp
  then show "take (e - start) (drop (start mod 4096) (P (start div 4096))) ! i = map (byte_at P) [start..<e] ! i"
    using i assms(1) dp by (simp add: byte_at_def)
qed

lemma concat_blocks_of: "length bs = 4096 \<Longrightarrow> concat (blocks_of bs) = bs"
proof -
  have gen: "length xs \<le> 512 * n \<Longrightarrow> concat (map (\<lambda>i. take 512 (drop (512 * i) xs)) [0..<n]) = xs" for n and xs :: "u8 list"
  proof (induction n arbitrary: xs)
    case (Suc n)
    have "map (\<lambda>i. take 512 (drop (512 * i) xs)) [0..<Suc n] = take 512 xs # map (\<lambda>i. take 512 (drop (512 * i) (drop 512 xs))) [0..<n]"
      by (simp add: upt_conv_Cons map_Suc_upt [symmetric] del: upt_Suc) (simp add: add.commute)
    moreover have "concat (map (\<lambda>i. take 512 (drop (512 * i) (drop 512 xs))) [0..<n]) = drop 512 xs"
      by (rule Suc.IH) (use Suc.prems in simp)
    ultimately show ?case by simp
  qed simp
  assume "length bs = 4096"
  then show ?thesis unfolding blocks_of_def by (intro gen) simp
qed

lemma blocks_of_blocks: "length bs = 4096 \<Longrightarrow> length (blocks_of bs) = 8 \<and> (\<forall>b \<in> set (blocks_of bs). length b = 512)"
  by (auto simp: blocks_of_def)

lemma page_store_bytes:
  assumes "length (page_bytes pc) = 4096" and "off + length src \<le> 4096"
  shows "page_bytes (page_store off src pc) = take off (page_bytes pc) @ src @ drop (off + length src) (page_bytes pc)"
    and "length (pc_page (page_store off src pc)) = 8" and "\<forall>b \<in> set (pc_page (page_store off src pc)). length b = 512"
    and "pc_dirty (page_store off src pc)"
proof -
  define bs where "bs = take off (page_bytes pc) @ src @ drop (off + length src) (page_bytes pc)"
  have len: "length bs = 4096" using assms by (simp add: bs_def)
  have st: "page_store off src pc = pc\<lparr>pc_page := blocks_of bs, pc_dirty := True\<rparr>" by (simp add: page_store_def bs_def)
  show "page_bytes (page_store off src pc) = take off (page_bytes pc) @ src @ drop (off + length src) (page_bytes pc)"
    using concat_blocks_of [OF len] unfolding st bs_def [symmetric] by (simp add: page_bytes_def)
  show "length (pc_page (page_store off src pc)) = 8" "\<forall>b \<in> set (pc_page (page_store off src pc)). length b = 512"
    "pc_dirty (page_store off src pc)" using blocks_of_blocks [OF len] unfolding st by simp_all
qed

section \<open>The page loops\<close>

lemma page_bound: "start < (start div 4096 + 1) * (4096 :: nat)"
proof -
  have "start = 4096 * (start div 4096) + start mod 4096" by simp
  moreover have "start mod 4096 < 4096" by simp
  ultimately show ?thesis by (metis add.commute mult.commute mult_Suc add_less_cancel_right Suc_eq_plus1)
qed

lemma next_block:
  fixes start finish :: nat
  assumes "start < finish" and e: "e = min ((start div 4096 + 1) * 4096) finish"
  shows "start < e" and "e \<le> finish" and "e \<le> (start div 4096 + 1) * 4096"
    and "e \<noteq> finish \<Longrightarrow> e < finish \<and> e div 4096 = start div 4096 + 1"
  using assms page_bound [of start] by (auto simp: min_def split: if_splits)

lemma page_lt: "start < finish \<Longrightarrow> finish \<le> 4096 * n \<Longrightarrow> start div 4096 < (n :: nat)"
  by (simp add: div_less_iff_less_mult mult.commute)

lemma page_loop_step:
  assumes "start < finish" and "e = min ((start div 4096 + 1) * 4096) finish" and "inode_get_cache efs cl c d m = Some (pc, m1)"
    and "access k (start mod 4096) (e - start) pc = (out, pc')" and "m' = m1\<lparr>pcm_pool := (pcm_pool m1)[c := Some pc']\<rparr>"
  shows "page_loop access efs cl d start finish c k m =
    (if e = finish then Some (k + (finish - start), out, m')
     else Option.bind (page_loop access efs cl d e finish (c + 1) (k + (e - start)) m') (\<lambda>(n, rest, m). Some (n, out @ rest, m)))"
  using assms by (subst page_loop.simps) (simp add: Let_def)

lemma read_loop_ok:
  assumes g: "efs_geom S efs" and "file_ok efs cl d m" and "start < finish" and "finish \<le> 4096 * file_pages efs cl"
  shows "\<exists>m'. page_loop load_access efs cl d start finish (start div 4096) k m =
      Some (k + (finish - start), map (byte_at (file_page efs cl d m)) [start..<finish], m')
    \<and> file_ok efs cl d m' \<and> file_page efs cl d m' = file_page efs cl d m"
  using assms(2-)
proof (induction "finish - start" arbitrary: start k m rule: less_induct)
  case less
  let ?P = "file_page efs cl d m" and ?c = "start div 4096"
  define e where "e = min ((start div 4096 + 1) * 4096) finish"
  note nb = next_block [OF less.prems(2) e_def]
  have c: "?c < file_pages efs cl" using less.prems(2,3) by (rule page_lt)
  obtain pc m1 where m1: "inode_get_cache efs cl ?c d m = Some (pc, m1)" "file_ok efs cl d m1"
    "file_page efs cl d m1 = ?P" "slot (pcm_pool m1) ?c = Some pc" "page_bytes pc = ?P ?c"
    using inode_get_cache_ok [OF g less.prems(1) c] by blast
  have "page_load (start mod 4096) (e - start) pc = map (byte_at ?P) [start..<e]"
    unfolding page_load_def m1(5) by (rule page_slice) (use length_file_page [OF less.prems(1) c] nb in simp_all)
  then have out: "load_access k (start mod 4096) (e - start) pc = (map (byte_at ?P) [start..<e], pc)" by (simp add: load_access_def)
  have "?c < length (pcm_pool m1)" "pcm_pool m1 ! ?c = Some pc" using m1(4) by (auto simp: slot_def split: if_splits)
  then have same: "m1 = m1\<lparr>pcm_pool := (pcm_pool m1)[?c := Some pc]\<rparr>"
    by (metis (no_types) PageCacheManager.surjective PageCacheManager.update_convs(1) list_update_id)
  note step = page_loop_step [where access = load_access, OF less.prems(2) e_def m1(1) out same]
  show ?case
  proof (cases "e = finish")
    case True
    then show ?thesis using step m1(2,3) by simp
  next
    case False
    then have e: "e < finish" "e div 4096 = ?c + 1" using nb(4) by simp_all
    have dec: "finish - e < finish - start" using nb(1) e(1) by linarith
    obtain m2 where m2: "page_loop load_access efs cl d e finish (?c + 1) (k + (e - start)) m1 =
       Some (k + (e - start) + (finish - e), map (byte_at ?P) [e..<finish], m2)" "file_ok efs cl d m2" "file_page efs cl d m2 = ?P"
      using less.hyps [OF dec m1(2) e(1) less.prems(3), of "k + (e - start)"] unfolding m1(3) e(2) by blast
    have "[start..<finish] = [start..<e] @ [e..<finish]" using nb(1,2) by (metis less_imp_le_nat upt_add_eq_append le_Suc_ex)
    then show ?thesis using step m2 False nb(1,2) by simp
  qed
qed

lemma byte_at_splice:
  assumes "length (P (start div 4096)) = 4096" and "start \<le> e" and "e \<le> (start div 4096 + 1) * 4096" and "length src = e - start"
  shows "byte_at (P(start div 4096 := take (start mod 4096) (P (start div 4096)) @ src
      @ drop (start mod 4096 + length src) (P (start div 4096)))) i =
    (if start \<le> i \<and> i < e then src ! (i - start) else byte_at P i)"
proof -
  define q r where "q = start div 4096" and "r = start mod 4096"
  have start: "start = q * 4096 + r" by (simp add: q_def r_def)
  have r: "r < 4096" by (simp add: r_def)
  have "e \<le> (q + 1) * 4096" using assms(3) by (simp only: q_def)
  then have re: "r + length src \<le> 4096" using assms(2,4) by (simp add: start)
  have e: "e = start + length src" using assms(2,4) by simp
  show ?thesis
  proof (cases "i div 4096 = q")
    case False
    have "\<not> (start \<le> i \<and> i < e)"
    proof
      assume "start \<le> i \<and> i < e"
      then have "start + (i - start) < (q + 1) * 4096" using assms(3) unfolding q_def by linarith
      then show False using div_page(1) [of start "i - start"] False \<open>start \<le> i \<and> i < e\<close> by (simp add: q_def)
    qed
    then have "(if start \<le> i \<and> i < e then src ! (i - start) else byte_at P i) = byte_at P i" by (simp only: if_False)
    then show ?thesis using False by (simp add: byte_at_def q_def)
  next
    case True
    define x where "x = i mod 4096"
    have i: "i = q * 4096 + x" using True by (metis div_mult_mod_eq x_def)
    have x: "x < 4096" by (simp add: x_def)
    have len: "length (P q) = 4096" using assms(1) by (simp add: q_def)
    have "(take r (P q) @ src @ drop (r + length src) (P q)) ! x = (if r \<le> x \<and> x < r + length src then src ! (x - r) else P q ! x)"
      using len r re x by (auto simp: nth_append)
    moreover have "(start \<le> i \<and> i < e) = (r \<le> x \<and> x < r + length src)" "i - start = x - r" by (simp_all add: i e start)
    ultimately show ?thesis using True by (simp add: byte_at_def q_def [symmetric] r_def [symmetric] x_def [symmetric])
  qed
qed

lemma page_room:
  fixes start e :: nat
  assumes "start \<le> e" and "e \<le> (start div 4096 + 1) * 4096"
  shows "start mod 4096 + (e - start) \<le> 4096"
proof -
  define q r where "q = start div 4096" and "r = start mod 4096"
  have start: "start = q * 4096 + r" by (simp add: q_def r_def)
  have "e \<le> (q + 1) * 4096" using assms(2) by (simp only: q_def)
  then have "r + (e - start) \<le> 4096" using assms(1) by (simp add: start)
  then show ?thesis by (simp only: r_def)
qed

lemma write_loop_ok:
  assumes g: "efs_geom S efs" and "file_ok efs cl d m" and "start < finish" and "finish \<le> 4096 * file_pages efs cl"
    and "k + (finish - start) \<le> length buf"
  shows "\<exists>m'. page_loop (store_access buf) efs cl d start finish (start div 4096) k m = Some (k + (finish - start), [], m')
    \<and> file_ok efs cl d m'
    \<and> (\<forall>i. byte_at (file_page efs cl d m') i = (if start \<le> i \<and> i < finish then buf ! (k + (i - start)) else byte_at (file_page efs cl d m) i))"
  using assms(2-)
proof (induction "finish - start" arbitrary: start k m rule: less_induct)
  case less
  let ?P = "file_page efs cl d m" and ?c = "start div 4096"
  define e where "e = min ((start div 4096 + 1) * 4096) finish"
  note nb = next_block [OF less.prems(2) e_def]
  have c: "?c < file_pages efs cl" using less.prems(2,3) by (rule page_lt)
  obtain pc m1 where m1: "inode_get_cache efs cl ?c d m = Some (pc, m1)" "file_ok efs cl d m1"
    "file_page efs cl d m1 = ?P" "slot (pcm_pool m1) ?c = Some pc" "page_bytes pc = ?P ?c"
    using inode_get_cache_ok [OF g less.prems(1) c] by blast
  define src where "src = take (e - start) (drop k buf)"
  have src: "length src = e - start" "\<And>i. i < e - start \<Longrightarrow> src ! i = buf ! (k + i)"
    using less.prems(4) nb(1,2) by (simp_all add: src_def)
  have len: "length (?P ?c) = 4096" by (rule length_file_page [OF less.prems(1) c])
  have fit: "start mod 4096 + length src \<le> 4096" using page_room [OF less_imp_le [OF nb(1)] nb(3)] src(1) by simp
  define pc' where "pc' = page_store (start mod 4096) src pc"
  have "length (page_bytes pc) = 4096" using len m1(5) by simp
  note ps = page_store_bytes [OF this fit, folded pc'_def]
  define m' where "m' = m1\<lparr>pcm_pool := (pcm_pool m1)[?c := Some pc']\<rparr>"
  have put: "file_ok efs cl d m'" "file_page efs cl d m' = ?P(?c := page_bytes pc')"
    using file_put_page [OF m1(2,4) ps(2,3)] ps(4) m1(3) by (simp_all add: m'_def)
  have bytes: "byte_at (file_page efs cl d m') i = (if start \<le> i \<and> i < e then buf ! (k + (i - start)) else byte_at ?P i)" for i
  proof -
    have "byte_at (file_page efs cl d m') i = (if start \<le> i \<and> i < e then src ! (i - start) else byte_at ?P i)"
      unfolding put(2) ps(1) m1(5) by (rule byte_at_splice [where P = ?P, OF len less_imp_le [OF nb(1)] nb(3) src(1)])
    then show ?thesis using src(2) [of "i - start"] by auto
  qed
  have out: "store_access buf k (start mod 4096) (e - start) pc = ([], pc')" by (simp add: store_access_def src_def pc'_def)
  note step = page_loop_step [where access = "store_access buf", OF less.prems(2) e_def m1(1) out m'_def]
  show ?case
  proof (cases "e = finish")
    case True
    then show ?thesis using step put(1) bytes by auto
  next
    case False
    then have e: "e < finish" "e div 4096 = ?c + 1" using nb(4) by simp_all
    have dec: "finish - e < finish - start" using nb(1) e(1) by linarith
    have room: "k + (e - start) + (finish - e) \<le> length buf" using less.prems(4) nb(1) e(1) by linarith
    obtain m2 where m2: "page_loop (store_access buf) efs cl d e finish (?c + 1) (k + (e - start)) m' =
       Some (k + (e - start) + (finish - e), [], m2)" "file_ok efs cl d m2"
      "\<And>i. byte_at (file_page efs cl d m2) i = (if e \<le> i \<and> i < finish then buf ! (k + (e - start) + (i - e)) else byte_at (file_page efs cl d m') i)"
      using less.hyps [OF dec put(1) e(1) less.prems(3) room] unfolding e(2) by blast
    have "byte_at (file_page efs cl d m2) i = (if start \<le> i \<and> i < finish then buf ! (k + (i - start)) else byte_at ?P i)" for i
      unfolding m2(3) bytes using nb(1) e(1) by simp
    then show ?thesis using step m2(1,2) False nb(1,2) by simp
  qed
qed

end
