(* ===== verification/File_Refine.thy ===== *)
theory File_Refine
  imports File_Io
begin

text \<open>
  Files refine lists of bytes: a write that may extend the file, through the allocation of
  clusters in the table, and a later read, give back what was written.
\<close>

section \<open>The invariant of an open file\<close>

abbreviation ino_clusters :: "Inode \<Rightarrow> u32 list" where
  "ino_clusters ino \<equiv> fc_clus_list (file_content ino)"

definition ceil_div :: "nat \<Rightarrow> nat \<Rightarrow> nat" where
  "ceil_div a b = (a + b - 1) div b"

definition clus_bytes :: "EasyFileSystem \<Rightarrow> nat" where
  "clus_bytes efs = 512 * unat (sec_per_clus efs)"

text \<open>The table: the first two entries are reserved, no cluster waits in \<^verbatim>\<open>vacant_clus\<close>.\<close>

definition table_ok :: "nat set \<Rightarrow> u8 list disk \<Rightarrow> fs_state \<Rightarrow> bool" where
  "table_ok S D fs \<longleftrightarrow> (let fat = efs_fat (fst fs); V = fat_view (efs_fat (fst fs)) (snd fs) in
     efs_geom S (fst fs) \<and> fat_geom S fat \<and> fat_ok S D (snd fs) \<and> vacant_clus fat = [] \<and> hint fat \<le> tot_ent fat
     \<and> V 0 \<noteq> 0 \<and> V 1 \<noteq> 0)"

definition inode_ok :: "nat set \<Rightarrow> u8 list disk \<Rightarrow> inode_state \<Rightarrow> bool" where
  "inode_ok S D s \<longleftrightarrow> (let ino = fst s; efs = fst (snd s); st = snd (snd s); cl = ino_clusters (fst s); V = fat_view (efs_fat efs) st in
     table_ok S D (snd s) \<and> file_ok efs cl (snd st) (file_cache_mgr ino)
     \<and> (cl = [] \<or> chain V (map unat cl)) \<and> (\<forall>c \<in> set cl. V (unat c) \<noteq> 0)
     \<and> length cl = ceil_div (unat (get_file_size ino)) (clus_bytes efs))"

text \<open>The contents of an open file, and the number of free clusters.\<close>

definition file_data :: "inode_state \<Rightarrow> u8 list" where
  "file_data s = map (byte_at (file_page (fst (snd s)) (ino_clusters (fst s)) (snd (snd (snd s))) (file_cache_mgr (fst s))))
     [0..<unat (get_file_size (fst s))]"

definition free_count :: "fs_state \<Rightarrow> nat" where
  "free_count fs = card (free_clusters (tot_ent (efs_fat (fst fs))) (fat_view (efs_fat (fst fs)) (snd fs)))"

text \<open>The clusters a file has or could get: growing the file does not change their number.\<close>

definition quota :: "inode_state \<Rightarrow> nat" where
  "quota s = length (ino_clusters (fst s)) + free_count (snd s)"

lemma table_okD:
  assumes "table_ok S D (efs, st)"
  shows "efs_geom S efs" and "fat_geom S (efs_fat efs)" and "fat_ok S D st" and "vacant_clus (efs_fat efs) = []"
    and "hint (efs_fat efs) \<le> tot_ent (efs_fat efs)" and "fat_view (efs_fat efs) st 0 \<noteq> 0" and "fat_view (efs_fat efs) st 1 \<noteq> 0"
  using assms by (simp_all add: table_ok_def Let_def)

lemma inode_okD:
  assumes "inode_ok S D (ino, efs, st)"
  shows "table_ok S D (efs, st)" and "file_ok efs (ino_clusters ino) (snd st) (file_cache_mgr ino)"
    and "ino_clusters ino = [] \<or> chain (fat_view (efs_fat efs) st) (map unat (ino_clusters ino))"
    and "c \<in> set (ino_clusters ino) \<Longrightarrow> fat_view (efs_fat efs) st (unat c) \<noteq> 0"
    and "length (ino_clusters ino) = ceil_div (unat (get_file_size ino)) (clus_bytes efs)"
  using assms by (simp_all add: inode_ok_def Let_def)

lemma clus_bytes_pos: "efs_geom S efs \<Longrightarrow> 0 < clus_bytes efs"
  by (auto simp: efs_geom_def clus_bytes_def unat_gt_0)

lemma ceil_div_ge: "0 < b \<Longrightarrow> a \<le> ceil_div a b * b"
proof -
  assume b: "0 < b"
  have "(a + b - 1) div b * b + (a + b - 1) mod b = a + b - 1" by simp
  moreover have "(a + b - 1) mod b \<le> b - 1" using mod_less_divisor [OF b, of "a + b - 1"] by linarith
  ultimately show ?thesis unfolding ceil_div_def using b by linarith
qed

lemma ceil_div_mono: "a \<le> a' \<Longrightarrow> ceil_div a b \<le> ceil_div a' b"
  unfolding ceil_div_def by (intro div_le_mono) simp

lemma ceil_div_le: "0 < b \<Longrightarrow> ceil_div a b \<le> a"
proof (cases a)
  case 0
  assume "0 < b"
  then show ?thesis by (simp add: 0 ceil_div_def)
next
  case (Suc x)
  assume "0 < b"
  then obtain y where b: "b = Suc y" by (cases b) auto
  have "a + b - 1 \<le> a * b" by (simp add: Suc b)
  then have "(a + b - 1) div b \<le> a * b div b" by (rule div_le_mono)
  then show ?thesis using \<open>0 < b\<close> by (simp add: ceil_div_def)
qed

lemma pages_of_clusters: "efs_geom S efs \<Longrightarrow> 4096 * file_pages efs cl = length cl * clus_bytes efs"
  by (auto simp: efs_geom_def file_pages_def clus_bytes_def elim!: dvdE)

lemma size_in_pages: "inode_ok S D (ino, efs, st) \<Longrightarrow> unat (get_file_size ino) \<le> 4096 * file_pages efs (ino_clusters ino)"
  using inode_okD(5) table_okD(1) [OF inode_okD(1)] clus_bytes_pos ceil_div_ge pages_of_clusters by metis

lemma length_file_data: "length (file_data s) = unat (get_file_size (fst s))"
  by (simp add: file_data_def)

section \<open>Reading\<close>

lemma take_drop_data:
  "take n (drop k (map f [0..<sz])) = map f [k..<min (k + n) sz]"
  by (simp add: take_map drop_map min_def)

lemma read_at_ok:
  assumes ok: "inode_ok S D s" and "offset + len < 2 ^ 64"
  shows "\<exists>s'. read_at_block_cache offset len s = Some (take len (drop offset (file_data s)), s') \<and> inode_ok S D s'
    \<and> file_data s' = file_data s \<and> fst (snd s') = fst (snd s) \<and> snd (snd s') = snd (snd s)"
proof -
  obtain ino efs st where s: "s = (ino, efs, st)" by (cases s) auto
  note io = inode_okD [OF ok [unfolded s]] and g = table_okD(1) [OF inode_okD(1) [OF ok [unfolded s]]]
  let ?sz = "unat (get_file_size ino)" and ?cl = "ino_clusters ino" and ?d = "snd st"
  let ?fin = "min (offset + len) ?sz"
  have data: "take len (drop offset (file_data s)) = map (byte_at (file_page efs ?cl ?d (file_cache_mgr ino))) [offset..<?fin]"
    unfolding file_data_def s by (simp add: take_drop_data)
  show ?thesis
  proof (cases "?fin \<le> offset")
    case True
    then have "take len (drop offset (file_data s)) = []" unfolding data by simp
    moreover have "read_at_block_cache offset len s = Some ([], s)" using True assms(2) by (simp add: read_at_block_cache_def s)
    ultimately show ?thesis using ok by simp
  next
    case False
    have fin: "?fin \<le> 4096 * file_pages efs ?cl" using size_in_pages [OF ok [unfolded s]] by simp
    obtain m' where m': "page_loop load_access efs ?cl ?d offset ?fin (offset div 4096) 0 (file_cache_mgr ino) =
        Some (0 + (?fin - offset), map (byte_at (file_page efs ?cl ?d (file_cache_mgr ino))) [offset..<?fin], m')"
      "file_ok efs ?cl ?d m'" "file_page efs ?cl ?d m' = file_page efs ?cl ?d (file_cache_mgr ino)"
      using read_loop_ok [OF g io(2) _ fin, of offset 0] False by force
    let ?s = "(ino\<lparr>file_cache_mgr := m'\<rparr>, efs, st)"
    have "inode_ok S D ?s" using ok m'(2) by (simp add: inode_ok_def s Let_def get_file_size_def)
    moreover have "file_data ?s = file_data s" using m'(3) by (simp add: file_data_def s get_file_size_def)
    moreover have "read_at_block_cache offset len s = Some (take len (drop offset (file_data s)), ?s)"
      using False assms(2) m'(1) unfolding data by (simp add: read_at_block_cache_def s)
    ultimately show ?thesis using s by (intro exI [of _ ?s]) simp
  qed
qed

section \<open>Growing\<close>

lemma same_secs [simp]:
  "cluster_sec (efs\<lparr>efs_fat := f\<rparr>) = cluster_sec efs" "file_pages (efs\<lparr>efs_fat := f\<rparr>) = file_pages efs"
  "page_secs (efs\<lparr>efs_fat := f\<rparr>) = page_secs efs" "clus_bytes (efs\<lparr>efs_fat := f\<rparr>) = clus_bytes efs"
  by (simp_all add: cluster_sec_def file_pages_def page_secs_def clus_bytes_def fun_eq_iff)

lemma same_file_page [simp]: "file_page (efs\<lparr>efs_fat := f\<rparr>) = file_page efs"
  by (simp add: file_page_def fun_eq_iff)

lemma same_efs_geom:
  assumes "tot_ent f = tot_ent (efs_fat efs)"
  shows "efs_geom S (efs\<lparr>efs_fat := f\<rparr>) = efs_geom S efs" and "data_clusters (efs\<lparr>efs_fat := f\<rparr>) = data_clusters efs"
    and "file_ok (efs\<lparr>efs_fat := f\<rparr>) = file_ok efs"
  using assms by (simp_all add: efs_geom_def data_clusters_def file_ok_def fun_eq_iff)

lemma page_secs_append:
  assumes "8 dvd unat (sec_per_clus efs)" and "sec_per_clus efs \<noteq> 0" and "c < file_pages efs cl"
  shows "page_secs efs (cl @ cs) c = page_secs efs cl c" and "c < file_pages efs (cl @ cs)"
proof -
  have "0 < unat (sec_per_clus efs)" using assms(2) by (simp add: unat_gt_0)
  then have "8 * c div unat (sec_per_clus efs) < length cl" using page_cluster_lt [OF assms(1)] assms(3) by (simp add: file_pages_def)
  moreover show "c < file_pages efs (cl @ cs)" using assms(3) by (simp add: file_pages_def add_mult_distrib)
  ultimately show "page_secs efs (cl @ cs) c = page_secs efs cl c" using assms(3) by (simp add: page_secs_def nth_append)
qed

text \<open>More clusters and changes of the table do not touch the pages a file has.\<close>

lemma file_ok_grow:
  assumes g: "efs_geom S efs" and f: "file_ok efs cl d m" and cl': "data_clusters efs (cl @ cs)"
    and same: "\<And>b. b \<notin> S \<Longrightarrow> b \<noteq> USIZE_MAX \<Longrightarrow> d' b = d b \<and> length (d' b) = 512"
  shows "file_ok efs (cl @ cs) d' m" and "c < file_pages efs cl \<Longrightarrow> file_page efs (cl @ cs) d' m c = file_page efs cl d m c"
proof -
  note fd = file_okD [OF f]
  have s: "8 dvd unat (sec_per_clus efs)" "sec_per_clus efs \<noteq> 0" using g by (simp_all add: efs_geom_def)
  have max: "b < 2 ^ 32 \<Longrightarrow> b \<noteq> USIZE_MAX" for b :: nat by (auto simp: USIZE_MAX_def)
  have sec: "d' b = d b \<and> length (d' b) = 512" if "b \<in> set (page_secs efs (cl @ cs) k)" for b k
    using page_secs_data [OF g cl' that] same max by blast
  have eq: "map d' (page_secs efs cl k) = map d (page_secs efs cl k)" if "k < file_pages efs cl" for k
    using sec [of _ k] page_secs_append(1) [OF s that, of cs] by simp
  show "file_page efs (cl @ cs) d' m c = file_page efs cl d m c" if "c < file_pages efs cl"
    unfolding file_page_def page_view_def page_secs_append(1) [OF s that] eq [OF that] ..
  have so: "slots_ok (page_secs efs cl) (pcm_pool m) d" using fd(2) by (simp add: pcm_invar_def)
  have "slots_ok (page_secs efs (cl @ cs)) (pcm_pool m) d'" unfolding slots_ok_def
  proof (intro allI impI)
    fix k pc assume k: "slot (pcm_pool m) k = Some pc"
    then show "length (pc_page pc) = PAGE_BUFFERS \<and> (\<not> pc_dirty pc \<longrightarrow>
        take (length (page_secs efs (cl @ cs) k)) (pc_page pc) = map d' (page_secs efs (cl @ cs) k))"
      using slots_okD [OF so k] page_secs_append(1) [OF s fd(3) [OF k], of cs] eq [OF fd(3) [OF k]] by simp
  qed
  then have "pcm_invar (page_secs efs (cl @ cs)) d' m" using fd(2) by (simp add: pcm_invar_def)
  then show "file_ok efs (cl @ cs) d' m" unfolding file_ok_def
    using cl' fd(3,4) page_secs_append(2) [OF s] sec by metis
qed

lemma ceil_div_diff:
  assumes "o1 \<le> n1" and "n1 < 2 ^ 32"
  shows "nat ((int n1 - int o1) mod 2 ^ 64) = n1 - o1"
proof -
  have "int n1 - int o1 = int (n1 - o1)" using assms(1) by simp
  moreover have "int (n1 - o1) mod 2 ^ 64 = int (n1 - o1)" using assms(2) by (intro mod_pos_pos_trivial) simp_all
  ultimately show ?thesis by (simp only: nat_int)
qed

lemma total_clus_eq:
  assumes "efs_geom S efs"
  shows "total_clus efs sz = Some (ceil_div (unat sz) (clus_bytes efs))"
proof -
  have "unat (sec_per_clus efs) < 256" using unsigned_less [of "sec_per_clus efs"] by simp
  moreover have "unat (ucast (efs_byts_per_sec efs) :: u32) = 512" using assms by (simp add: efs_geom_def)
  ultimately have u: "unat (efs_clus_size efs) = clus_bytes efs"
    by (simp add: efs_clus_size_def clus_bytes_def unat_word_ariths(2))
  then have "efs_clus_size efs \<noteq> 0" using clus_bytes_pos [OF assms] by auto
  then show ?thesis by (simp add: total_clus_def u ceil_div_def Let_def)
qed

lemma free_cluster_range:
  assumes "table_ok S D (efs, st)" and "c \<in> free_clusters (tot_ent (efs_fat efs)) (fat_view (efs_fat efs) st)"
  shows "2 \<le> c" and "c < tot_ent (efs_fat efs)" and "c < 0x0FFFFFF0" and "unat (of_nat c :: u32) = c"
proof -
  note t = table_okD [OF assms(1)]
  have "c \<noteq> 0" "c \<noteq> 1" using assms(2) t(6,7) unfolding free_clusters_def by (metis (mono_tags, lifting) mem_Collect_eq)+
  then show "2 \<le> c" by linarith
  show lt: "c < tot_ent (efs_fat efs)" using assms(2) by (simp add: free_clusters_def)
  then show "c < 0x0FFFFFF0" using t(2) by (simp add: fat_geom_def)
  then show "unat (of_nat c :: u32) = c" by (intro unat_of_nat32) simp
qed

lemma alloc_clus_ok:
  assumes ok: "inode_ok S D (ino, efs, st)" and n: "n \<le> free_count (efs, st)" and small: "n < 2 ^ 32"
  shows "\<exists>cs efs' st'. alloc_clus n (ino, efs, st) =
      Some (ino\<lparr>file_content := (file_content ino)\<lparr>fc_clus_list := ino_clusters ino @ cs\<rparr>\<rparr>, efs', st')
    \<and> length cs = n \<and> table_ok S D (efs', st') \<and> file_ok efs' (ino_clusters ino @ cs) (snd st') (file_cache_mgr ino)
    \<and> clus_bytes efs' = clus_bytes efs \<and> n + free_count (efs', st') = free_count (efs, st)
    \<and> (ino_clusters ino @ cs = [] \<or> chain (fat_view (efs_fat efs') st') (map unat (ino_clusters ino @ cs)))
    \<and> (\<forall>c \<in> set (ino_clusters ino @ cs). fat_view (efs_fat efs') st' (unat c) \<noteq> 0)
    \<and> (\<forall>c < file_pages efs (ino_clusters ino). file_page efs' (ino_clusters ino @ cs) (snd st') (file_cache_mgr ino) c
        = file_page efs (ino_clusters ino) (snd st) (file_cache_mgr ino) c)"
proof -
  note io = inode_okD [OF ok] and t = table_okD [OF inode_okD(1) [OF ok]]
  let ?fat = "efs_fat efs" and ?V = "fat_view (efs_fat efs) st" and ?cl = "ino_clusters ino"
  define prev where "prev = map_option unat (last_opt ?cl)"
  have dc: "data_clusters efs ?cl" using io(2) by (rule file_okD)
  have prev: "\<forall>l \<in> set_option prev. l < tot_ent ?fat \<and> ?V l \<noteq> 0"
    using dc io(4) last_in_set [of ?cl] by (auto simp: prev_def last_opt_def data_clusters_def)
  have prev': "map_option of_nat prev = last_opt ?cl" by (cases "last_opt ?cl") (simp_all add: prev_def)
  obtain cs st' h' where al: "fat_alloc n (last_opt ?cl) (?fat, st) = Some (map of_nat cs, ?fat\<lparr>hint := h'\<rparr>, st')"
    "length cs = n" "distinct cs" "set cs \<subseteq> free_clusters (tot_ent ?fat) ?V" "h' \<le> tot_ent ?fat"
    "fat_ok S D st'" "fat_view ?fat st' = link_chain ?V prev cs"
    using fat_alloc_ok [OF t(2-5) prev _ t(6), of n] n unfolding prev' by (simp add: free_count_def) blast
  note fr = free_cluster_range [OF io(1)]
  have cs: "2 \<le> c" "c < tot_ent ?fat" "c < 0x0FFFFFF0" "unat (of_nat c :: u32) = c" "?V c = 0" if "c \<in> set cs" for c
    using al(4) that fr [of c] by (auto simp: free_clusters_def)
  have un: "map unat (map of_nat cs :: u32 list) = cs" using cs(4) by (intro nth_equalityI) simp_all
  let ?efs = "efs\<lparr>efs_fat := ?fat\<lparr>hint := h'\<rparr>\<rparr>" and ?cs = "map of_nat cs :: u32 list" and ?W = "link_chain ?V prev cs"
  have disj: "unat c \<notin> set cs" if "c \<in> set ?cl" for c using io(4) [OF that] cs(5) by auto
  have dist: "distinct (map unat ?cl @ cs)"
  proof -
    have "distinct (map unat ?cl)" using dc by (simp add: data_clusters_def distinct_map inj_on_def unat_eqD)
    then show ?thesis using al(3) disj by auto
  qed
  have dc': "data_clusters efs (?cl @ ?cs)"
  proof -
    have "distinct (map unat (?cl @ ?cs))" using dist un by simp
    then have "distinct (?cl @ ?cs)" unfolding distinct_map by blast
    then show ?thesis using dc cs(1,2,4) by (auto simp: data_clusters_def)
  qed
  have range: "\<forall>c \<in> set cs. 0 < c \<and> c < 0x0FFFFFF0" using cs(1,3) by fastforce
  have nz: "\<forall>c \<in> set cs. (of_nat c :: u32) \<noteq> 0" using range of_nat_nz by blast
  have data: "snd st' b = snd st b \<and> length (snd st' b) = 512" if "b \<notin> S" "b \<noteq> USIZE_MAX" for b
  proof -
    have "b \<notin> cached_ids (fst st')" using al(6) that by (auto simp: fat_ok_def)
    moreover have "length (cache_blocks st' b) = 512" using al(6) that(2) by (simp add: fat_ok_def BUFFER_SIZE_def)
    ultimately have "length (snd st' b) = 512" using not_cached_blocks [of b st'] that(2) by simp
    then show ?thesis using al(6) t(3) that by (simp add: fat_ok_def)
  qed
  note grow = file_ok_grow [OF t(1) io(2) dc', of "snd st'", OF data]
  have W01: "?W 0 \<noteq> 0" "?W 1 \<noteq> 0"
  proof -
    have "2 \<le> k" if "k \<in> set_option prev \<union> set cs" for k
      using that cs(1) dc last_in_set [of ?cl] by (auto simp: prev_def last_opt_def data_clusters_def split: if_splits)
    then have "0 \<notin> set_option prev \<union> set cs" "1 \<notin> set_option prev \<union> set cs" by fastforce+
    then show "?W 0 \<noteq> 0" "?W 1 \<noteq> 0" using t(6,7) by (simp_all add: link_chain_other)
  qed
  have "table_ok S D (?efs, st')"
    using t(1,2,4) al(5,6,7) W01 same_efs_geom(1) [of "?fat\<lparr>hint := h'\<rparr>" efs S] by (simp add: table_ok_def Let_def)
  moreover have "?cl @ ?cs = [] \<or> chain ?W (map unat (?cl @ ?cs))"
  proof (cases "?cl = []")
    case True
    then have "prev = None" by (simp add: prev_def last_opt_def)
    then show ?thesis using True un link_chain_chain [of cs None ?V] al(3) range by (cases "cs = []") simp_all
  next
    case False
    then have "prev = Some (last (map unat ?cl))" by (simp add: prev_def last_opt_def last_map)
    then show ?thesis using False un io(3) chain_append [of "map unat ?cl" ?V cs] dist range by simp
  qed
  moreover have "?W (unat c) \<noteq> 0" if "c \<in> set (?cl @ ?cs)" for c
  proof (cases "unat c \<in> set_option prev \<union> set cs")
    case True
    then show ?thesis by (rule link_chain_nz [OF nz])
  next
    case False
    then show ?thesis using that io(4) cs(4) by (auto simp: link_chain_other)
  qed
  moreover have "n + free_count (?efs, st') = free_count (efs, st)"
  proof -
    have "?W k = 0 \<longleftrightarrow> ?V k = 0 \<and> k \<notin> set cs" for k
      using link_chain_nz [OF nz, of k prev ?V] link_chain_other [of k prev cs ?V] prev by (cases "k \<in> set_option prev \<union> set cs") auto
    then have "free_clusters (tot_ent ?fat) ?W = free_clusters (tot_ent ?fat) ?V - set cs" by (auto simp: free_clusters_def)
    moreover have "card (free_clusters (tot_ent ?fat) ?V - set cs) = card (free_clusters (tot_ent ?fat) ?V) - n"
      using card_Diff_subset [OF _ al(4)] distinct_card [OF al(3)] al(2) by simp
    ultimately show ?thesis using al(7) n by (simp add: free_count_def)
  qed
  moreover have "alloc_clus n (ino, efs, st) = Some (ino\<lparr>file_content := (file_content ino)\<lparr>fc_clus_list := ?cl @ ?cs\<rparr>\<rparr>, ?efs, st')"
    using al(1) small by (simp add: alloc_clus_def efs_alloc_def Let_def)
  moreover have "file_ok ?efs (?cl @ ?cs) (snd st') (file_cache_mgr ino)"
    using grow(1) same_efs_geom(3) [of "?fat\<lparr>hint := h'\<rparr>" efs] by simp
  ultimately show ?thesis using al(2,7) grow(2)
    by (intro exI [of _ ?cs] exI [of _ ?efs] exI [of _ st']) simp
qed

lemma uint_less_int: "uint w < int n \<longleftrightarrow> unat w < n"
proof -
  have "int (unat w) = uint w" by simp
  then show ?thesis by (metis of_nat_less_iff)
qed

lemma grow_ok:
  assumes ok: "inode_ok S D (ino, efs, st)" and sz: "unat (get_file_size ino) < n" and n: "n < 2 ^ 32"
    and room: "ceil_div n (clus_bytes efs) - length (ino_clusters ino) \<le> free_count (efs, st)"
  shows "\<exists>ino' efs' st'. modify_size_lock (int n - int (unat (get_file_size ino))) False (ino, efs, st) = Some (ino', efs', st')
    \<and> inode_ok S D (ino', efs', st') \<and> unat (get_file_size ino') = n
    \<and> quota (ino', efs', st') = quota (ino, efs, st) \<and> clus_bytes efs' = clus_bytes efs
    \<and> take (unat (get_file_size ino)) (file_data (ino', efs', st')) = file_data (ino, efs, st)"
proof -
  note io = inode_okD [OF ok] and t = table_okD [OF inode_okD(1) [OF ok]]
  let ?cl = "ino_clusters ino" and ?old = "unat (get_file_size ino)" and ?b = "clus_bytes efs"
  have b: "0 < ?b" using clus_bytes_pos [OF t(1)] .
  let ?k = "ceil_div n ?b - length ?cl"
  have mono: "ceil_div ?old ?b \<le> ceil_div n ?b" using sz by (intro ceil_div_mono) simp
  have small: "ceil_div n ?b < 2 ^ 32" using ceil_div_le [OF b, of n] n by simp
  obtain cs efs' st' where al: "alloc_clus ?k (ino, efs, st) =
      Some (ino\<lparr>file_content := (file_content ino)\<lparr>fc_clus_list := ?cl @ cs\<rparr>\<rparr>, efs', st')"
    "length cs = ?k" "table_ok S D (efs', st')" "file_ok efs' (?cl @ cs) (snd st') (file_cache_mgr ino)" "clus_bytes efs' = ?b" "?k + free_count (efs', st') = free_count (efs, st)"
    "?cl @ cs = [] \<or> chain (fat_view (efs_fat efs') st') (map unat (?cl @ cs))"
    "\<forall>c \<in> set (?cl @ cs). fat_view (efs_fat efs') st' (unat c) \<noteq> 0"
    "\<forall>c < file_pages efs ?cl. file_page efs' (?cl @ cs) (snd st') (file_cache_mgr ino) c = file_page efs ?cl (snd st) (file_cache_mgr ino) c"
    using alloc_clus_ok [OF ok room] small by fastforce
  let ?ino = "ino\<lparr>file_content := (file_content ino)\<lparr>fc_clus_list := ?cl @ cs, fc_size := of_nat n\<rparr>\<rparr>"
  have un: "unat (of_nat n :: u32) = n" using n by (rule unat_of_nat32)
  have "uint (get_file_size ino) + (int n - int ?old) = int n" by simp
  then have new: "(of_int (uint (get_file_size ino) + (int n - int ?old)) :: u32) = of_nat n" by (simp only: of_int_of_nat_eq)
  have diff: "nat ((int (ceil_div n ?b) - int (ceil_div ?old ?b)) mod 2 ^ 64) = ?k"
    using ceil_div_diff [OF mono small] io(5) by simp
  have "0 < int n - int ?old" using sz by linarith
  then have run: "modify_size_lock (int n - int ?old) False (ino, efs, st) = Some (?ino, efs', st')"
    unfolding modify_size_lock_def Let_def fst_conv snd_conv new total_clus_eq [OF t(1)] un Option.bind.bind_lunit
    by (simp only: if_True diff al(1)) simp
  have len: "length (?cl @ cs) = ceil_div n (clus_bytes efs')" using al(2,5) io(5) mono by simp
  have "inode_ok S D (?ino, efs', st')"
    using al(3,4,7,8) len un by (simp add: inode_ok_def Let_def get_file_size_def)
  moreover have "take ?old (file_data (?ino, efs', st')) = file_data (ino, efs, st)"
  proof -
    have "byte_at (file_page efs' (?cl @ cs) (snd st') (file_cache_mgr ino)) i = byte_at (file_page efs ?cl (snd st) (file_cache_mgr ino)) i"
      if "i < ?old" for i
    proof -
      have "i div 4096 < file_pages efs ?cl" using that size_in_pages [OF ok] by (rule page_lt)
      then show ?thesis using al(9) by (simp add: byte_at_def)
    qed
    then show ?thesis using sz by (simp add: file_data_def take_map un get_file_size_def)
  qed
  moreover have "quota (?ino, efs', st') = quota (ino, efs, st)" using al(2,6) by (simp add: quota_def)
  ultimately show ?thesis using run un al(5) by (intro exI [of _ ?ino] exI [of _ efs'] exI [of _ st']) (simp add: get_file_size_def)
qed

section \<open>Writing\<close>

lemma sint_diff:
  assumes "a < 2 ^ 62" and "b < 2 ^ 62"
  shows "sint (of_nat a - of_nat b :: 64 word) = int a - int b"
proof -
  have "(of_nat a - of_nat b :: 64 word) = of_int (int a - int b)" by simp
  moreover have "signed_take_bit 63 (int a - int b) = int a - int b" using assms by (intro signed_take_bit_int_eq_self) simp_all
  ultimately show ?thesis by (simp only: signed_of_int) simp
qed

lemma splice_data:
  assumes "offset + length buf \<le> sz" and "buf \<noteq> []"
    and "\<And>i. g i = (if offset \<le> i \<and> i < offset + length buf then buf ! (0 + (i - offset)) else f i)"
  shows "map g [0..<sz] = take offset (map f [0..<sz]) @ buf @ drop (offset + length buf) (map f [0..<sz])"
  using assms by (intro nth_equalityI) (auto simp: nth_append)

lemma write_in_place:
  assumes ok: "inode_ok S D (ino, efs, st)" and buf: "buf \<noteq> []" and fit: "offset + length buf \<le> unat (get_file_size ino)"
  shows "\<exists>m. page_loop (store_access buf) efs (ino_clusters ino) (snd st) offset (offset + length buf) (offset div 4096) 0 (file_cache_mgr ino)
      = Some (length buf, [], m) \<and> inode_ok S D (ino\<lparr>file_cache_mgr := m\<rparr>, efs, st)
    \<and> file_data (ino\<lparr>file_cache_mgr := m\<rparr>, efs, st) =
        take offset (file_data (ino, efs, st)) @ buf @ drop (offset + length buf) (file_data (ino, efs, st))"
proof -
  note io = inode_okD [OF ok] and g = table_okD(1) [OF inode_okD(1) [OF ok]]
  have fin: "offset + length buf \<le> 4096 * file_pages efs (ino_clusters ino)" using size_in_pages [OF ok] fit by simp
  have lt: "offset < offset + length buf" using buf by simp
  obtain m where m: "page_loop (store_access buf) efs (ino_clusters ino) (snd st) offset (offset + length buf) (offset div 4096) 0 (file_cache_mgr ino)
      = Some (0 + (offset + length buf - offset), [], m)" "file_ok efs (ino_clusters ino) (snd st) m"
    "\<And>i. byte_at (file_page efs (ino_clusters ino) (snd st) m) i = (if offset \<le> i \<and> i < offset + length buf then buf ! (0 + (i - offset))
       else byte_at (file_page efs (ino_clusters ino) (snd st) (file_cache_mgr ino)) i)"
    using write_loop_ok [OF g io(2) lt fin, of 0 buf] by fastforce
  have "inode_ok S D (ino\<lparr>file_cache_mgr := m\<rparr>, efs, st)" using ok m(2) by (simp add: inode_ok_def Let_def get_file_size_def)
  moreover have "file_data (ino\<lparr>file_cache_mgr := m\<rparr>, efs, st) =
        take offset (file_data (ino, efs, st)) @ buf @ drop (offset + length buf) (file_data (ino, efs, st))"
    using splice_data [OF fit buf m(3)] by (simp add: file_data_def get_file_size_def)
  ultimately show ?thesis using m(1) by (intro exI [of _ m]) simp
qed

lemma write_at_ok:
  assumes ok: "inode_ok S D s" and buf: "buf \<noteq> []" and off: "offset \<le> length (file_data s)" and fit: "offset + length buf < 2 ^ 32"
    and room: "ceil_div (offset + length buf) (clus_bytes (fst (snd s))) - length (ino_clusters (fst s)) \<le> free_count (snd s)"
  shows "\<exists>s'. write_at_block_cache_lock offset buf s = Some (length buf, s') \<and> inode_ok S D s' \<and> quota s' = quota s \<and> clus_bytes (fst (snd s')) = clus_bytes (fst (snd s))
    \<and> file_data s' = take offset (file_data s) @ buf @ drop (offset + length buf) (file_data s)"
proof -
  obtain ino efs st where s: "s = (ino, efs, st)" by (cases s) auto
  let ?old = "unat (get_file_size ino)" and ?n = "offset + length buf"
  have old: "?old < 2 ^ 32" using unsigned_less [of "get_file_size ino"] by simp
  have d: "sint (of_nat (length buf) + of_nat offset - of_nat ?old :: 64 word) = int ?n - int ?old"
    using sint_diff [of ?n ?old] fit old by (simp add: add.commute)
  have wrap: "?n mod 2 ^ 64 = ?n" using fit by simp
  show ?thesis
  proof (cases "?n \<le> ?old")
    case True
    obtain m where m: "page_loop (store_access buf) efs (ino_clusters ino) (snd st) offset ?n (offset div 4096) 0 (file_cache_mgr ino)
      = Some (length buf, [], m)" "inode_ok S D (ino\<lparr>file_cache_mgr := m\<rparr>, efs, st)"
      "file_data (ino\<lparr>file_cache_mgr := m\<rparr>, efs, st) = take offset (file_data s) @ buf @ drop ?n (file_data s)"
      using write_in_place [OF ok [unfolded s] buf True] unfolding s by blast
    have no: "(0 < int ?n - int ?old) = False" using True by (simp only: diff_gt_0_iff_gt of_nat_less_iff not_less simp_thms)
    have "min ?n ?old = ?n" using True by simp
    then have "write_at_block_cache_lock offset buf s = Some (length buf, ino\<lparr>file_cache_mgr := m\<rparr>, efs, st)"
      using m(1) unfolding write_at_block_cache_lock_def s Let_def fst_conv d wrap no if_False by simp
    then show ?thesis using m(2,3) by (intro exI [of _ "(ino\<lparr>file_cache_mgr := m\<rparr>, efs, st)"]) (simp add: s quota_def)
  next
    case False
    then have lt: "?old < ?n" by simp
    obtain ino' efs' st' where g: "modify_size_lock (int ?n - int ?old) False (ino, efs, st) = Some (ino', efs', st')"
      "inode_ok S D (ino', efs', st')" "unat (get_file_size ino') = ?n" "take ?old (file_data (ino', efs', st')) = file_data (ino, efs, st)"
      "quota (ino', efs', st') = quota (ino, efs, st)" "clus_bytes efs' = clus_bytes efs"
      using grow_ok [OF ok [unfolded s] lt fit] room unfolding s by auto
    have le: "?n \<le> unat (get_file_size ino')" using g(3) by simp
    obtain m where m: "page_loop (store_access buf) efs' (ino_clusters ino') (snd st') offset ?n (offset div 4096) 0 (file_cache_mgr ino')
      = Some (length buf, [], m)" "inode_ok S D (ino'\<lparr>file_cache_mgr := m\<rparr>, efs', st')"
      "file_data (ino'\<lparr>file_cache_mgr := m\<rparr>, efs', st') = take offset (file_data (ino', efs', st')) @ buf @ drop ?n (file_data (ino', efs', st'))"
      using write_in_place [OF g(2) buf le] by blast
    have yes: "(0 < int ?n - int ?old) = True" using lt by (simp only: diff_gt_0_iff_gt of_nat_less_iff)
    have le': "offset \<le> ?old" using off by (simp add: s length_file_data)
    have "take offset (file_data (ino', efs', st')) = take offset (file_data s)"
      using arg_cong [OF g(4), of "take offset"] le' by (simp add: s min_def)
    moreover have "drop ?n (file_data (ino', efs', st')) = []" "drop ?n (file_data s) = []"
      using g(3) lt by (simp_all add: length_file_data s)
    moreover have "write_at_block_cache_lock offset buf s = Some (length buf, ino'\<lparr>file_cache_mgr := m\<rparr>, efs', st')"
      using m(1) g(3) unfolding write_at_block_cache_lock_def s Let_def fst_conv d wrap yes if_True g(1) by simp
    ultimately show ?thesis using m(2,3) g(5,6)
      by (intro exI [of _ "(ino'\<lparr>file_cache_mgr := m\<rparr>, efs', st')"]) (simp add: s quota_def)
  qed
qed

section \<open>The contract of a file\<close>

text \<open>What a client of a file relies on: reads and writes up to a limit behave as on the
  list of the file's bytes.\<close>

locale byte_file =
  fixes ok :: "'s \<Rightarrow> bool" and bytes :: "'s \<Rightarrow> u8 list" and limit :: nat
    and rd :: "nat \<Rightarrow> nat \<Rightarrow> 's \<Rightarrow> (u8 list \<times> 's) run" and wr :: "nat \<Rightarrow> u8 list \<Rightarrow> 's \<Rightarrow> (nat \<times> 's) run"
  assumes rd_law: "ok s \<Longrightarrow> off + len < 2 ^ 64 \<Longrightarrow>
      \<exists>s'. rd off len s = Some (take len (drop off (bytes s)), s') \<and> ok s' \<and> bytes s' = bytes s"
    and wr_law: "ok s \<Longrightarrow> buf \<noteq> [] \<Longrightarrow> off \<le> length (bytes s) \<Longrightarrow> off + length buf \<le> limit \<Longrightarrow>
      \<exists>s'. wr off buf s = Some (length buf, s') \<and> ok s' \<and> bytes s' = take off (bytes s) @ buf @ drop (off + length buf) (bytes s)"
begin

lemma write_read:
  assumes "ok s" and "buf \<noteq> []" and "off \<le> length (bytes s)" and "off + length buf \<le> limit" and "off + length buf < 2 ^ 64"
  shows "\<exists>s1 s2. wr off buf s = Some (length buf, s1) \<and> rd off (length buf) s1 = Some (buf, s2) \<and> ok s2"
proof -
  obtain s1 where s1: "wr off buf s = Some (length buf, s1)" "ok s1" "bytes s1 = take off (bytes s) @ buf @ drop (off + length buf) (bytes s)"
    using wr_law [OF assms(1-4)] by blast
  have "take (length buf) (drop off (bytes s1)) = buf" using s1(3) assms(3) by simp
  then show ?thesis using s1 rd_law [OF s1(2) assms(5)] by auto
qed

end

datatype file_op = FRead nat nat | FWrite nat "u8 list"

text \<open>The reference: operations on a list of bytes, with the bytes read or the number written.\<close>

fun list_step :: "file_op \<Rightarrow> u8 list \<Rightarrow> (u8 list + nat) \<times> u8 list" where
  "list_step (FRead off len) bs = (Inl (take len (drop off bs)), bs)"
| "list_step (FWrite off buf) bs = (Inr (length buf), take off bs @ buf @ drop (off + length buf) bs)"

fun list_run :: "file_op list \<Rightarrow> u8 list \<Rightarrow> (u8 list + nat) list \<times> u8 list" where
  "list_run [] bs = ([], bs)"
| "list_run (op # ops) bs = (let (r, bs1) = list_step op bs; (rs, bs2) = list_run ops bs1 in (r # rs, bs2))"

text \<open>Reads do not overflow; writes are not empty, leave no gap and stay below the limit.\<close>

fun ops_ok :: "nat \<Rightarrow> file_op list \<Rightarrow> u8 list \<Rightarrow> bool" where
  "ops_ok limit [] bs = True"
| "ops_ok limit (op # ops) bs =
    ((case op of FRead off len \<Rightarrow> off + len < 2 ^ 64
      | FWrite off buf \<Rightarrow> buf \<noteq> [] \<and> off \<le> length bs \<and> off + length buf \<le> limit)
     \<and> ops_ok limit ops (snd (list_step op bs)))"

fun file_run :: "(nat \<Rightarrow> nat \<Rightarrow> 's \<Rightarrow> (u8 list \<times> 's) run) \<Rightarrow> (nat \<Rightarrow> u8 list \<Rightarrow> 's \<Rightarrow> (nat \<times> 's) run) \<Rightarrow>
    file_op list \<Rightarrow> 's \<Rightarrow> ((u8 list + nat) list \<times> 's) run" where
  "file_run rd wr [] s = ret ([], s)"
| "file_run rd wr (FRead off len # ops) s = do {
     (bs, s) \<leftarrow> rd off len s;
     (rs, s) \<leftarrow> file_run rd wr ops s;
     ret (Inl bs # rs, s) }"
| "file_run rd wr (FWrite off buf # ops) s = do {
     (n, s) \<leftarrow> wr off buf s;
     (rs, s) \<leftarrow> file_run rd wr ops s;
     ret (Inr n # rs, s) }"

context byte_file
begin

lemma run_refines:
  assumes "ok s" and "ops_ok limit ops (bytes s)"
  shows "\<exists>s'. file_run rd wr ops s = Some (fst (list_run ops (bytes s)), s') \<and> ok s' \<and> bytes s' = snd (list_run ops (bytes s))"
  using assms
proof (induction ops arbitrary: s)
  case (Cons op ops)
  show ?case
  proof (cases op)
    case (FRead off len)
    obtain s1 where s1: "rd off len s = Some (take len (drop off (bytes s)), s1)" "ok s1" "bytes s1 = bytes s"
      using rd_law [OF Cons.prems(1), of off len] Cons.prems(2) FRead by auto
    have "ops_ok limit ops (bytes s1)" using Cons.prems(2) FRead s1(3) by simp
    from Cons.IH [OF s1(2) this] show ?thesis using s1 FRead by (auto simp: split_beta)
  next
    case (FWrite off buf)
    obtain s1 where s1: "wr off buf s = Some (length buf, s1)" "ok s1"
      "bytes s1 = take off (bytes s) @ buf @ drop (off + length buf) (bytes s)"
      using wr_law [OF Cons.prems(1), of buf off] Cons.prems(2) FWrite by auto
    have "ops_ok limit ops (bytes s1)" using Cons.prems(2) FWrite s1(3) by simp
    from Cons.IH [OF s1(2) this] show ?thesis using s1 FWrite by (auto simp: split_beta)
  qed
qed simp

end

definition inode_room :: "nat set \<Rightarrow> u8 list disk \<Rightarrow> nat \<Rightarrow> inode_state \<Rightarrow> bool" where
  "inode_room S D N s \<longleftrightarrow> inode_ok S D s \<and> N < 2 ^ 32 \<and> ceil_div N (clus_bytes (fst (snd s))) \<le> quota s"

interpretation fat_file: byte_file "inode_room S D N" file_data N read_at_block_cache write_at_block_cache_lock for S D N
proof
  fix s :: inode_state and off len :: nat
  assume ok: "inode_room S D N s" and lt: "off + len < 2 ^ 64"
  then show "\<exists>s'. read_at_block_cache off len s = Some (take len (drop off (file_data s)), s') \<and> inode_room S D N s' \<and> file_data s' = file_data s"
  proof -
    obtain s' where s': "read_at_block_cache off len s = Some (take len (drop off (file_data s)), s')" "inode_ok S D s'"
      "file_data s' = file_data s" "snd s' = snd s"
      using read_at_ok [of S D s off len] ok lt prod_eqI [of "snd _" "snd s"] unfolding inode_room_def by blast
    have eq: "unat (get_file_size (fst s')) = unat (get_file_size (fst s))" using s'(3) length_file_data by metis
    have "inode_ok S D (fst s', fst (snd s), snd (snd s))" "inode_ok S D (fst s, fst (snd s), snd (snd s))"
      using s'(2) ok by (simp_all add: inode_room_def flip: s'(4)) (simp_all add: s'(4))
    then have "length (ino_clusters (fst s')) = length (ino_clusters (fst s))"
      by (simp only: inode_okD(5) [of S D "fst s'" "fst (snd s)" "snd (snd s)"] inode_okD(5) [of S D "fst s" "fst (snd s)" "snd (snd s)"] eq)
    then have "quota s' = quota s" using s'(4) by (simp add: quota_def)
    then show ?thesis using s' ok by (auto simp: inode_room_def)
  qed
next
  fix s :: inode_state and off :: nat and buf :: "u8 list"
  assume ok: "inode_room S D N s" and buf: "buf \<noteq> []" "off \<le> length (file_data s)" "off + length buf \<le> N"
  have io: "inode_ok S D s" and N: "N < 2 ^ 32" "ceil_div N (clus_bytes (fst (snd s))) \<le> quota s" using ok by (simp_all add: inode_room_def)
  have "ceil_div (off + length buf) (clus_bytes (fst (snd s))) \<le> quota s" using ceil_div_mono [OF buf(3)] N(2) le_trans by blast
  then have room: "ceil_div (off + length buf) (clus_bytes (fst (snd s))) - length (ino_clusters (fst s)) \<le> free_count (snd s)"
    by (simp add: quota_def)
  have fit: "off + length buf < 2 ^ 32" using buf(3) N(1) by simp
  show "\<exists>s'. write_at_block_cache_lock off buf s = Some (length buf, s') \<and> inode_room S D N s'
      \<and> file_data s' = take off (file_data s) @ buf @ drop (off + length buf) (file_data s)"
    using write_at_ok [OF io buf(1,2) fit room] N by (auto simp: inode_room_def)
qed

text \<open>C2: an open file is a sequence of bytes. Over any sequence of reads and writes that leave no gap
  behind the end of the file and for which the volume has clusters enough, \<^verbatim>\<open>read_at_block_cache\<close> and
  \<^verbatim>\<open>write_at_block_cache_lock\<close> never panic, give back exactly the bytes and counts that the same operations
  give on a list of bytes, end with that list as the contents of the file, and keep the invariant that ties the
  page cache, the cluster list, the file size and the allocation table together.\<close>

theorem file_refines_bytes:
  assumes "inode_room S D N s" and "ops_ok N ops (file_data s)"
  shows "\<exists>s'. file_run read_at_block_cache write_at_block_cache_lock ops s = Some (fst (list_run ops (file_data s)), s')
    \<and> inode_room S D N s' \<and> file_data s' = snd (list_run ops (file_data s))"
  by (rule fat_file.run_refines [OF assms])

definition ex_efs :: EasyFileSystem where
  "ex_efs = \<lparr>efs_fat = ex_fat, data_area_start_block = 2, root_clus = 2, sec_per_clus = 8, efs_byts_per_sec = 512\<rparr>"

definition ex_inode :: Inode where
  "ex_inode = \<lparr>file_content = \<lparr>fc_size = 0, fc_clus_list = [], fc_hint = 0\<rparr>, file_cache_mgr = PageCacheManager_new,
     file_type = File, parent_dir = None, inode_time = \<lparr>create_time = 0, access_time = 0, modify_time = 0\<rparr>, deleted = False\<rparr>"

lemma replicate_two: "replicate 2 x = [x, x]"
  by (simp add: numeral_2_eq_2)

lemma ex_inode_room: "inode_room {..<2} (\<lambda>_. replicate 512 0) 20000 (ex_inode, ex_efs, ex_disk)"
proof -
  let ?s = "(ex_efs, ex_disk)"
  have [simp]: "efs_fat ex_efs = ex_fat" "clus_bytes ex_efs = 4096" by (simp_all add: ex_efs_def clus_bytes_def)
  have [simp]: "tot_ent ex_fat = 100" "vacant_clus ex_fat = []" "hint ex_fat = 2" by (simp_all add: ex_fat_def)
  have [simp]: "ino_clusters ex_inode = []" "get_file_size ex_inode = 0" "file_cache_mgr ex_inode = PageCacheManager_new"
    by (simp_all add: ex_inode_def get_file_size_def)
  have "efs_geom {..<2} ex_efs" by (simp add: efs_geom_def) (simp add: ex_efs_def)
  then have "table_ok {..<2} (\<lambda>_. replicate 512 0) ?s"
    using ex_disk_ok(1,2) ex_disk_ok(3) [of 0] ex_disk_ok(3) [of 1] by (simp add: table_ok_def Let_def EOC_def)
  moreover have "file_ok ex_efs [] (snd ex_disk) PageCacheManager_new"
    by (simp add: file_ok_def data_clusters_def pcm_invar_def slots_ok_def slot_def PageCacheManager_new_def page_secs_def file_pages_def)
  ultimately have "inode_ok {..<2} (\<lambda>_. replicate 512 0) (ex_inode, ?s)"
    by (simp add: inode_ok_def Let_def ceil_div_def)
  moreover have "quota (ex_inode, ?s) = 98" by (simp add: quota_def free_count_def ex_free)
  ultimately show ?thesis by (simp add: inode_room_def ceil_div_def)
qed

theorem file_refines_bytes_witness:
  "\<exists>s'. file_run read_at_block_cache write_at_block_cache_lock [FWrite 0 [1, 2, 3], FWrite 3 (replicate 5000 7), FRead 1 4]
      (ex_inode, ex_efs, ex_disk) = Some ([Inr 3, Inr 5000, Inl [2, 3, 7, 7]], s')
    \<and> file_data s' = [1, 2, 3] @ replicate 5000 7"
proof -
  have e: "file_data (ex_inode, ex_efs, ex_disk) = []" by (simp add: file_data_def ex_inode_def get_file_size_def)
  let ?ops = "[FWrite 0 [1, 2, 3], FWrite 3 (replicate 5000 7), FRead 1 4]"
  have "ops_ok 20000 ?ops []" by simp
  moreover have "list_run ?ops [] = ([Inr 3, Inr 5000, Inl [2, 3, 7, 7]], [1, 2, 3] @ replicate 5000 7)"
    by (simp add: take_Cons' drop_Cons' replicate_two)
  ultimately show ?thesis using file_refines_bytes [OF ex_inode_room, of ?ops] e by auto
qed

end
