(* ===== verification/Dir_Iter.thy ===== *)
theory Dir_Iter
  imports File_Refine Fat_Names
begin

text \<open>
  Directories: the iterators of \<^verbatim>\<open>kernel/src/fs/fat32/dir_iter.rs\<close> and the directory part of
  \<^verbatim>\<open>kernel/src/fs/fat32/vfs.rs\<close>.  A directory is a file of 32-byte entries; every access
  goes through \<^verbatim>\<open>read_at_block_cache\<close> and \<^verbatim>\<open>write_at_block_cache_lock\<close>, so that the state of
  an operation is the state of the directory's inode.  Loops that the code does not bound are
  partial functions whose value is \<open>None\<close> when they do not end.
\<close>

unbundle bit_operations_syntax

section \<open>Iterators\<close>

datatype DirIterMode = Long | Short | Used | Unused | Enum

definition FORWARD :: bool where [simp]: "FORWARD = True"
definition BACKWARD :: bool where [simp]: "BACKWARD = False"

definition STEP_SIZE :: u32 where "STEP_SIZE = 32"

record DirIter =
  it_offset :: "u32 option"
  it_mode :: DirIterMode
  it_direction :: bool

definition DirIter_new :: "u32 option \<Rightarrow> DirIterMode \<Rightarrow> bool \<Rightarrow> DirIter" where
  "DirIter_new offset mode direction = \<lparr>it_offset = offset, it_mode = mode, it_direction = direction\<rparr>"

definition set_iter_offset :: "u32 \<Rightarrow> DirIter \<Rightarrow> DirIter" where
  "set_iter_offset offset it =
    (if it_direction it then
       (if offset = 0 then it\<lparr>it_offset := None\<rparr> else it\<lparr>it_offset := Some (offset - STEP_SIZE)\<rparr>)
     else it\<lparr>it_offset := Some (offset + STEP_SIZE)\<rparr>)"

text \<open>An entry read into a fresh \<^verbatim>\<open>FATDirEnt\<close>: what is read replaces its first bytes.\<close>

definition read_ent :: "u32 \<Rightarrow> inode_state \<Rightarrow> (nat \<times> FATDirEnt \<times> inode_state) run" where
  "read_ent offset s = do {
     (bs, s) \<leftarrow> read_at_block_cache (unat offset) 32 s;
     ret (length bs, bs @ drop (length bs) DirEnt_empty, s) }"

definition current_clone :: "DirIter \<Rightarrow> inode_state \<Rightarrow> (FATDirEnt option \<times> inode_state) run" where
  "current_clone it s =
    (case it_offset it of
       None \<Rightarrow> ret (None, s)
     | Some offset \<Rightarrow>
         if offset < get_file_size (fst s) then do {
           (n, ent, s) \<leftarrow> read_ent offset s;
           ret (if n \<noteq> 0 then Some ent else None, s) }
         else ret (None, s))"

definition write_to_current_ent :: "FATDirEnt \<Rightarrow> DirIter \<Rightarrow> inode_state \<Rightarrow> inode_state run" where
  "write_to_current_ent ent it s = do {
     offset \<leftarrow> it_offset it;
     (n, s) \<leftarrow> write_at_block_cache_lock (unat offset) ent s;
     rust_assert (n = length ent);
     ret s }"

definition it_step :: "DirIter \<Rightarrow> inode_state \<Rightarrow> (FATDirEnt option \<times> DirIter \<times> inode_state) run" where
  "it_step it s =
    (if it_direction it then do {
       let offset = (case it_offset it of Some off \<Rightarrow> off + STEP_SIZE | None \<Rightarrow> 0);
       if get_file_size (fst s) \<le> offset then ret (None, it, s)
       else do {
         (_, ent, s) \<leftarrow> read_ent offset s;
         if it_mode it \<noteq> Enum \<and> last_and_unused ent then ret (None, it, s)
         else ret (Some ent, it\<lparr>it_offset := Some offset\<rparr>, s) } }
     else case it_offset it of
       None \<Rightarrow> ret (None, it, s)
     | Some off \<Rightarrow>
         if off = 0 then ret (None, it\<lparr>it_offset := None\<rparr>, s)
         else do {
           let offset = off - STEP_SIZE;
           (_, ent, s) \<leftarrow> read_ent offset s;
           ret (Some ent, it\<lparr>it_offset := Some offset\<rparr>, s) })"

definition check_dir_ent_legality :: "DirIterMode \<Rightarrow> FATDirEnt \<Rightarrow> bool" where
  "check_dir_ent_legality mode ent =
    (case mode of
       Unused \<Rightarrow> unused_not_last ent
     | Used \<Rightarrow> \<not> ent_unused ent
     | Long \<Rightarrow> \<not> ent_unused ent \<and> is_long ent
     | Short \<Rightarrow> \<not> ent_unused ent \<and> is_short ent
     | Enum \<Rightarrow> True)"

partial_function (option) it_next :: "DirIter \<Rightarrow> inode_state \<Rightarrow> (FATDirEnt option \<times> DirIter \<times> inode_state) run" where
  "it_next it s = do {
     (r, it, s) \<leftarrow> it_step it s;
     case r of
       None \<Rightarrow> ret (None, it, s)
     | Some ent \<Rightarrow> if check_dir_ent_legality (it_mode it) ent then ret (Some ent, it, s) else it_next it s }"

text \<open>\<^verbatim>\<open>collect\<close>: the entries that are left.\<close>

partial_function (option) it_collect :: "DirIter \<Rightarrow> inode_state \<Rightarrow> (FATDirEnt list \<times> inode_state) run" where
  "it_collect it s = do {
     (r, it, s) \<leftarrow> it_next it s;
     case r of
       None \<Rightarrow> ret ([], s)
     | Some ent \<Rightarrow> do { (rest, s) \<leftarrow> it_collect it s; ret (ent # rest, s) } }"

text \<open>\<^verbatim>\<open>DirWalker::next\<close>, with the name put together so far and the expected number of the next long
  entry.\<close>

partial_function (option) walk_loop :: "rstring \<Rightarrow> usize \<Rightarrow> DirIter \<Rightarrow> inode_state \<Rightarrow>
    ((rstring \<times> FATShortDirEnt) option \<times> DirIter \<times> inode_state) run" where
  "walk_loop name should_be_ord it s = do {
     (r, it, s) \<leftarrow> it_next it s;
     case r of
       None \<Rightarrow> ret (None, it, s)
     | Some ent \<Rightarrow>
         if is_long ent then
           (if is_last_long_dir_ent ent then walk_loop (get_name ent @ name) (of_nat (ent_ord ent) - 1) it s
            else if of_nat (ent_ord ent) = should_be_ord then walk_loop (get_name ent @ name) (should_be_ord - 1) it s
            else panic)
         else ret (Some (if name = [] then get_name ent else name, short_entry ent), it, s) }"

definition walk_next :: "DirIter \<Rightarrow> inode_state \<Rightarrow> ((rstring \<times> FATShortDirEnt) option \<times> DirIter \<times> inode_state) run" where
  "walk_next it s = walk_loop [] (-1) it s"

section \<open>Reading a directory\<close>

text \<open>The rest of the files, each with the offset of the iterator after it.\<close>

partial_function (option) walk_collect :: "DirIter \<Rightarrow> inode_state \<Rightarrow> ((rstring \<times> FATShortDirEnt \<times> u32) list \<times> inode_state) run" where
  "walk_collect it s = do {
     (r, it, s) \<leftarrow> walk_next it s;
     case r of
       None \<Rightarrow> ret ([], s)
     | Some (name, ent) \<Rightarrow> do {
         off \<leftarrow> it_offset it;
         (rest, s) \<leftarrow> walk_collect it s;
         ret ((name, ent, off) # rest, s) } }"

definition used_walker :: DirIter where
  "used_walker = DirIter_new None Used FORWARD"

definition ls_lock :: "inode_state \<Rightarrow> ((unit + (rstring \<times> FATShortDirEnt) list) \<times> inode_state) run" where
  "ls_lock s =
    (if \<not> inode_is_dir (fst s) then ret (Inl (), s)
     else do { (fs, s) \<leftarrow> walk_collect used_walker s; ret (Inr (map (\<lambda>(n, e, _). (n, e)) fs), s) })"

definition dot :: rstring where "dot = [46]"
definition dotdot :: rstring where "dotdot = [46, 46]"

partial_function (option) only_dots :: "DirIter \<Rightarrow> inode_state \<Rightarrow> (bool \<times> inode_state) run" where
  "only_dots it s = do {
     (r, it, s) \<leftarrow> walk_next it s;
     case r of
       None \<Rightarrow> ret (True, s)
     | Some (name, _) \<Rightarrow> if name = dot \<or> name = dotdot then only_dots it s else ret (False, s) }"

definition is_empty_dir_lock :: "inode_state \<Rightarrow> (bool \<times> inode_state) run" where
  "is_empty_dir_lock s = (if \<not> inode_is_dir (fst s) then ret (False, s) else only_dots used_walker s)"

definition to_ascii_lowercase :: "nat \<Rightarrow> nat" where
  "to_ascii_lowercase c = (if 65 \<le> c \<and> c \<le> 90 then c + 32 else c)"

definition eq_ignore_ascii_case :: "rstring \<Rightarrow> rstring \<Rightarrow> bool" where
  "eq_ignore_ascii_case a b \<longleftrightarrow> map to_ascii_lowercase a = map to_ascii_lowercase b"

partial_function (option) find_walk :: "rstring \<Rightarrow> DirIter \<Rightarrow> inode_state \<Rightarrow> ((rstring \<times> FATShortDirEnt \<times> u32) option \<times> inode_state) run" where
  "find_walk req_name it s = do {
     (r, it, s) \<leftarrow> walk_next it s;
     case r of
       None \<Rightarrow> ret (None, s)
     | Some (name, ent) \<Rightarrow>
         if str_len name = str_len req_name \<and> eq_ignore_ascii_case name req_name then do {
           off \<leftarrow> it_offset it;
           ret (Some (name, ent, off), s) }
         else find_walk req_name it s }"

definition find_local_lock :: "rstring \<Rightarrow> inode_state \<Rightarrow> ((unit + (rstring \<times> FATShortDirEnt \<times> u32) option) \<times> inode_state) run" where
  "find_local_lock req_name s =
    (if \<not> inode_is_dir (fst s) then ret (Inl (), s)
     else do { (r, s) \<leftarrow> find_walk req_name used_walker s; ret (Inr r, s) })"

definition get_all_files_lock :: "inode_state \<Rightarrow> ((rstring \<times> FATShortDirEnt \<times> u32) list \<times> inode_state) run" where
  "get_all_files_lock s = do {
     (fs, s) \<leftarrow> walk_collect used_walker s;
     ret (filter (\<lambda>(n, _). n \<noteq> dot \<and> n \<noteq> dotdot) fs, s) }"

text \<open>\<^verbatim>\<open>dirent_info_lock\<close>: at most \<open>length\<close> files from \<open>offset\<close>, each with the offset of the next
  one; the last of the directory has the size instead.\<close>

fun dirent_loop :: "nat \<Rightarrow> usize \<Rightarrow> rstring \<times> FATShortDirEnt \<Rightarrow> DirIter \<Rightarrow> inode_state \<Rightarrow>
    ((rstring \<times> usize \<times> u64 \<times> u8) list \<times> inode_state) run" where
  "dirent_loop 0 sz last_ent it s = ret ([], s)"
| "dirent_loop (Suc n) sz last_ent it s = do {
     off \<leftarrow> it_offset it;
     let next_dirent_offset = ucast off + 32;
     let (name, ent) = last_ent;
     (r, it, s) \<leftarrow> walk_next it s;
     case r of
       None \<Rightarrow> ret ([(name, sz, ucast (get_first_clus ent), se_attr ent)], s)
     | Some next_ent \<Rightarrow> do {
         (rest, s) \<leftarrow> dirent_loop n sz next_ent it s;
         ret ((name, next_dirent_offset, ucast (get_first_clus ent), se_attr ent) # rest, s) } }"

definition dirent_info_lock :: "u32 \<Rightarrow> nat \<Rightarrow> inode_state \<Rightarrow> ((unit + (rstring \<times> usize \<times> u64 \<times> u8) list) \<times> inode_state) run" where
  "dirent_info_lock offset len s =
    (if \<not> inode_is_dir (fst s) then ret (Inl (), s)
     else do {
       let sz = get_file_size (fst s);
       (r, it, s) \<leftarrow> walk_next (set_iter_offset offset used_walker) s;
       case r of
         None \<Rightarrow> ret (Inr [], s)
       | Some first \<Rightarrow> do {
           (v, s) \<leftarrow> dirent_loop len (ucast sz) first it s;
           ret (Inr v, s) } })"

section \<open>Changing a directory\<close>

definition with_hint :: "u32 \<Rightarrow> inode_state \<Rightarrow> inode_state" where
  "with_hint h s = ((fst s)\<lparr>file_content := (file_content (fst s))\<lparr>fc_hint := h\<rparr>\<rparr>, snd s)"

definition get_hint :: "inode_state \<Rightarrow> u32" where
  "get_hint s = fc_hint (file_content (fst s))"

partial_function (option) set_hint_loop :: "DirIter \<Rightarrow> inode_state \<Rightarrow> inode_state run" where
  "set_hint_loop it s = do {
     (r, it, s) \<leftarrow> it_next it s;
     case r of
       None \<Rightarrow> ret (with_hint (get_file_size (fst s)) s)
     | Some ent \<Rightarrow>
         if last_and_unused ent then do { off \<leftarrow> it_offset it; ret (with_hint off s) }
         else set_hint_loop it s }"

definition set_hint :: "inode_state \<Rightarrow> inode_state run" where
  "set_hint s = set_hint_loop (DirIter_new None Enum FORWARD) s"

definition expand_dir_size :: "inode_state \<Rightarrow> inode_state run" where
  "expand_dir_size s = modify_size_lock (uint (efs_clus_size (fst (snd s)))) False s"

definition div_ceil32 :: "u32 \<Rightarrow> u32 \<Rightarrow> u32" where
  "div_ceil32 a b = (if a mod b = 0 then a div b else a div b + 1)"

definition shrink_dir_size :: "inode_state \<Rightarrow> inode_state run" where
  "shrink_dir_size s = do {
     let cs = efs_clus_size (fst (snd s));
     rust_assert (cs \<noteq> 0);
     let new_size = max (div_ceil32 (get_hint s) cs * cs) cs;
     modify_size_lock (uint new_size - uint (get_file_size (fst s))) False s }"

text \<open>The loop of \<^verbatim>\<open>alloc_dir_ent\<close>: it grows the directory until enough entries follow the hint.\<close>

partial_function (option) alloc_ent_loop :: "nat \<Rightarrow> nat \<Rightarrow> DirIter \<Rightarrow> inode_state \<Rightarrow> (u32 \<times> inode_state) run" where
  "alloc_ent_loop alloc_num found_free_dir_ent it s = do {
     (r, it, s) \<leftarrow> it_next it s;
     case r of
       None \<Rightarrow> do { s \<leftarrow> expand_dir_size s; alloc_ent_loop alloc_num found_free_dir_ent it s }
     | Some _ \<Rightarrow>
         if alloc_num \<le> found_free_dir_ent + 1 then do {
           offset \<leftarrow> it_offset it;
           (r, it, s) \<leftarrow> it_next it s;
           case r of
             Some _ \<Rightarrow> do {
               s \<leftarrow> write_to_current_ent unused_and_last_entry it s;
               h \<leftarrow> it_offset it;
               ret (offset, with_hint h s) }
           | None \<Rightarrow> ret (offset, with_hint (get_file_size (fst s)) s) }
         else alloc_ent_loop alloc_num (found_free_dir_ent + 1) it s }"

definition alloc_dir_ent :: "nat \<Rightarrow> inode_state \<Rightarrow> (u32 \<times> inode_state) run" where
  "alloc_dir_ent alloc_num s = alloc_ent_loop alloc_num 0 (set_iter_offset (get_hint s) (DirIter_new None Enum FORWARD)) s"

definition get_dir_ent :: "u32 \<Rightarrow> inode_state \<Rightarrow> (FATDirEnt option \<times> inode_state) run" where
  "get_dir_ent offset s = do {
     (n, ent, s) \<leftarrow> read_ent offset s;
     ret (if n \<noteq> 32 then None else Some ent, s) }"

definition set_dir_ent :: "u32 \<Rightarrow> FATDirEnt \<Rightarrow> inode_state \<Rightarrow> (bool \<times> inode_state) run" where
  "set_dir_ent offset ent s = do {
     (n, s) \<leftarrow> write_at_block_cache_lock (unat offset) ent s;
     ret (n = length ent, s) }"

text \<open>\<^verbatim>\<open>get_all_dir_ent\<close> reads the same entry again until it is the last long one.\<close>

partial_function (option) get_long_loop :: "DirIter \<Rightarrow> inode_state \<Rightarrow> (FATLongDirEnt list option \<times> inode_state) run" where
  "get_long_loop it s = do {
     (r, s) \<leftarrow> current_clone it s;
     case r of
       None \<Rightarrow> ret (None, s)
     | Some ent \<Rightarrow>
         (case get_long_ent ent of
            None \<Rightarrow> ret (None, s)
          | Some l \<Rightarrow>
              if is_last_long_dir_ent ent then ret (Some [l], s)
              else do { (ls, s) \<leftarrow> get_long_loop it s; ret (map_option ((#) l) ls, s) }) }"

definition get_all_dir_ent :: "u32 \<Rightarrow> inode_state \<Rightarrow> ((FATShortDirEnt \<times> FATLongDirEnt list) option \<times> inode_state) run" where
  "get_all_dir_ent offset s = do {
     let it = DirIter_new (Some offset) Enum BACKWARD;
     (cur, s) \<leftarrow> current_clone it s;
     ent \<leftarrow> cur;
     short_ent \<leftarrow> get_short_ent ent;
     (r, it, s) \<leftarrow> it_next it s;
     case r of
       None \<Rightarrow> ret (Some (short_ent, []), s)
     | Some ent \<Rightarrow>
         if \<not> is_long ent then ret (Some (short_ent, []), s)
         else do { (ls, s) \<leftarrow> get_long_loop it s; ret (map_option (Pair short_ent) ls, s) } }"

text \<open>The three loops of \<^verbatim>\<open>delete_dir_ent\<close>; the flag tells success.\<close>

partial_function (option) remove_long_loop :: "DirIter \<Rightarrow> inode_state \<Rightarrow> (bool \<times> inode_state) run" where
  "remove_long_loop it s = do {
     (r, s) \<leftarrow> current_clone it s;
     case r of
       None \<Rightarrow> ret (False, s)
     | Some ent \<Rightarrow>
         if \<not> is_long ent then ret (False, s)
         else do {
           s \<leftarrow> write_to_current_ent unused_not_last_entry it s;
           (_, it, s) \<leftarrow> it_next it s;
           if is_last_long_dir_ent ent then ret (True, s) else remove_long_loop it s } }"

partial_function (option) trim_loop :: "DirIter \<Rightarrow> inode_state \<Rightarrow> inode_state run" where
  "trim_loop it s = do {
     (r, it, s) \<leftarrow> it_next it s;
     case r of
       None \<Rightarrow> ret (with_hint 0 s)
     | Some ent \<Rightarrow>
         if ent_unused ent then do {
           off \<leftarrow> it_offset it;
           s \<leftarrow> write_to_current_ent unused_and_last_entry it (with_hint off s);
           trim_loop it s }
         else ret s }"

definition delete_dir_ent :: "u32 \<Rightarrow> inode_state \<Rightarrow> (bool \<times> inode_state) run" where
  "delete_dir_ent offset s = do {
     let it = DirIter_new (Some offset) Used BACKWARD;
     s \<leftarrow> write_to_current_ent unused_not_last_entry it s;
     (r, it, s) \<leftarrow> it_next it s;
     case r of
       None \<Rightarrow> ret (True, s)
     | Some ent \<Rightarrow>
         if \<not> is_long ent then ret (True, s)
         else do {
           (good, s) \<leftarrow> remove_long_loop it s;
           if \<not> good then ret (False, s)
           else do {
             s \<leftarrow> trim_loop (DirIter_new (Some (get_hint s)) Enum BACKWARD) s;
             s \<leftarrow> shrink_dir_size s;
             ret (True, s) } } }"

fun write_long_ents :: "FATLongDirEnt list \<Rightarrow> DirIter \<Rightarrow> inode_state \<Rightarrow> inode_state run" where
  "write_long_ents [] it s = ret s"
| "write_long_ents (l # ls) it s = do {
     (_, it, s) \<leftarrow> it_next it s;
     s \<leftarrow> write_to_current_ent (long_bytes l) it s;
     write_long_ents ls it s }"

definition create_dir_ent :: "FATShortDirEnt \<Rightarrow> FATLongDirEnt list \<Rightarrow> inode_state \<Rightarrow> (u32 \<times> inode_state) run" where
  "create_dir_ent short_ent long_ents s = do {
     (offset, s) \<leftarrow> alloc_dir_ent (1 + length long_ents) s;
     let it = DirIter_new (Some offset) Enum BACKWARD;
     s \<leftarrow> write_to_current_ent (short_bytes short_ent) it s;
     s \<leftarrow> write_long_ents long_ents it s;
     ret (offset, s) }"

partial_function (option) modify_parent_loop :: "u32 \<Rightarrow> DirIter \<Rightarrow> inode_state \<Rightarrow> (bool \<times> inode_state) run" where
  "modify_parent_loop parent_dir_clus_num it s = do {
     (r, it, s) \<leftarrow> it_next it s;
     case r of
       None \<Rightarrow> ret (False, s)
     | Some ent \<Rightarrow>
         if get_name ent = dotdot then do {
           ent \<leftarrow> set_fst_clus parent_dir_clus_num ent;
           s \<leftarrow> write_to_current_ent ent it s;
           ret (True, s) }
         else modify_parent_loop parent_dir_clus_num it s }"

definition modify_parent_dir_entry :: "u32 \<Rightarrow> inode_state \<Rightarrow> (bool \<times> inode_state) run" where
  "modify_parent_dir_entry parent_dir_clus_num s = modify_parent_loop parent_dir_clus_num used_walker s"

section \<open>Making, linking and unlinking files\<close>

definition Inode_new :: "u32 \<Rightarrow> DiskInodeType \<Rightarrow> u32 option \<Rightarrow> (nat \<times> u32) option \<Rightarrow> fs_state \<Rightarrow> inode_state run" where
  "Inode_new fst_clus ftype sz parent fs = do {
     s \<leftarrow> Inode_init fst_clus sz ftype parent fs;
     if ftype = Directory then set_hint s else ret s }"

text \<open>\<open>par\<close> is the number of the parent directory.\<close>

definition from_ent :: "nat \<Rightarrow> FATShortDirEnt \<Rightarrow> u32 \<Rightarrow> fs_state \<Rightarrow> inode_state run" where
  "from_ent par ent offset fs =
    Inode_new (get_first_clus ent) (if short_is_dir ent then Directory else File)
      (if short_is_file ent then Some (file_size ent) else None) (Some (par, offset)) fs"

text \<open>\<^verbatim>\<open>gen_dir_ent\<close> with the short entries of the parent read from its file.\<close>

definition gen_dir_ent_in :: "rstring \<Rightarrow> u32 \<Rightarrow> DiskInodeType \<Rightarrow> inode_state \<Rightarrow> (FATShortDirEnt \<times> FATLongDirEnt list \<times> inode_state) run" where
  "gen_dir_ent_in name fst_clus ftype s = do {
     (v, s) \<leftarrow> it_collect (DirIter_new None Short FORWARD) s;
     (short_ent, long_ents) \<leftarrow> gen_dir_ent v name fst_clus ftype;
     ret (short_ent, long_ents, s) }"

text \<open>Both entries of an empty directory name clusters; \<open>par_clus\<close> is the one of the parent.\<close>

definition dot_name :: "nat \<Rightarrow> u8 list" where
  "dot_name n = replicate n 46 @ replicate (11 - n) 32"

definition fill_empty_dir :: "u32 option \<Rightarrow> u32 \<Rightarrow> inode_state \<Rightarrow> inode_state run" where
  "fill_empty_dir par_clus fst_clus s = do {
     let it = DirIter_new None Enum FORWARD;
     (_, it, s) \<leftarrow> it_next it s;
     s \<leftarrow> write_to_current_ent (short_bytes (ShortDirEnt_from_name (dot_name 1) fst_clus Directory)) it s;
     (_, it, s) \<leftarrow> it_next it s;
     parent_clus \<leftarrow> par_clus;
     s \<leftarrow> write_to_current_ent (short_bytes (ShortDirEnt_from_name (dot_name 2) parent_clus Directory)) it s;
     (_, it, s) \<leftarrow> it_next it s;
     write_to_current_ent unused_and_last_entry it s }"

text \<open>\<^verbatim>\<open>create_lock\<close>: the new inode, or nothing when it fails, and the state of the parent.  The file
  system is shared by the two inodes.\<close>

definition create_lock :: "nat \<Rightarrow> rstring \<Rightarrow> DiskInodeType \<Rightarrow> inode_state \<Rightarrow> (Inode option \<times> inode_state) run" where
  "create_lock par name ftype s =
    (if inode_is_file (fst s) \<or> 256 \<le> str_len name then ret (None, s)
     else do {
       (cs, fs) \<leftarrow> (if ftype = Directory then efs_alloc 1 None (snd s) else ret ([0], snd s));
       let s = (fst s, fs);
       case cs of
         [] \<Rightarrow> ret (None, s)
       | fst_clus # _ \<Rightarrow> do {
           (short_ent, long_ents, s) \<leftarrow> gen_dir_ent_in name fst_clus ftype s;
           (offset, s) \<leftarrow> create_dir_ent short_ent long_ents s;
           (ino, fs) \<leftarrow> from_ent par short_ent offset (snd s);
           if ftype = Directory then do {
             (ino, fs) \<leftarrow> fill_empty_dir (get_first_clus_lock (fst s)) fst_clus (with_hint 64 (ino, fs));
             ret (Some ino, fst s, fs) }
           else ret (Some ino, fst s, fs) } })"

text \<open>\<^verbatim>\<open>link_par_lock\<close>: a new name for the inode \<open>ino\<close> in the directory; the flag tells success.\<close>

definition link_par_lock :: "nat \<Rightarrow> rstring \<Rightarrow> Inode \<Rightarrow> inode_state \<Rightarrow> (bool \<times> Inode \<times> inode_state) run" where
  "link_par_lock par name ino s = do {
     (short_ent, long_ents, s) \<leftarrow> gen_dir_ent_in name (case get_first_clus_lock ino of Some c \<Rightarrow> c | None \<Rightarrow> 0) (file_type ino) s;
     (offset, s) \<leftarrow> create_dir_ent short_ent long_ents s;
     (good, ino, fs) \<leftarrow> (if inode_is_dir ino then do {
         par_clus \<leftarrow> get_first_clus_lock (fst s);
         modify_parent_dir_entry par_clus (ino, snd s) }
       else ret (True, ino, snd s));
     ret (if good then (True, ino\<lparr>parent_dir := Some (par, offset)\<rparr>, fst s, fs) else (False, ino, fst s, fs)) }"

text \<open>\<^verbatim>\<open>unlink_lock\<close> of \<open>ino\<close>, with the state of its parent directory.\<close>

definition delete_self_dir_ent :: "Inode \<Rightarrow> inode_state \<Rightarrow> (bool \<times> inode_state) run" where
  "delete_self_dir_ent ino s =
    (case parent_dir ino of
       Some (_, offset) \<Rightarrow> delete_dir_ent offset s
     | None \<Rightarrow> ret (False, s))"

definition unlink_lock :: "bool \<Rightarrow> Inode \<Rightarrow> inode_state \<Rightarrow> (Inode \<times> inode_state) run" where
  "unlink_lock delete ino s =
    (if parent_dir ino = None then ret (ino, s)
     else do {
       (good, s) \<leftarrow> delete_self_dir_ent ino s;
       rust_assert good;
       ret (ino\<lparr>deleted := deleted ino \<or> delete, parent_dir := None\<rparr>, s) })"

text \<open>Dropping an inode.  The entry that is written back is the one that was read; the copy
  with the new size and first cluster is not used.\<close>

definition Inode_drop :: "Inode \<Rightarrow> inode_state \<Rightarrow> inode_state run" where
  "Inode_drop ino s =
    (if deleted ino then do {
       (_, fs) \<leftarrow> dealloc_clus (length (fc_clus_list (file_content ino))) (ino, snd s);
       ret (fst s, fs) }
     else case parent_dir ino of
       None \<Rightarrow> ret s
     | Some (_, offset) \<Rightarrow> do {
         (r, s) \<leftarrow> get_dir_ent offset s;
         dir_ent \<leftarrow> r;
         _ \<leftarrow> get_short_ent dir_ent;
         (good, s) \<leftarrow> set_dir_ent offset dir_ent s;
         rust_assert good;
         ret s })"

end
