(* ===== verification/Dir_Scan.thy ===== *)
theory Dir_Scan
  imports Dir_Iter
begin

text \<open>
  Directories as lists of entries.  \<open>ends r Q\<close> says that a computation returns, without panic and
  after finitely many steps, with a result that satisfies \<open>Q\<close>; with its rules the operations of
  \<^verbatim>\<open>Dir_Iter\<close> are followed through the changes of the page cache, and the iterators of
  \<^verbatim>\<open>dir_iter.rs\<close> become walks along the list of entries.
\<close>

section \<open>Computations that return\<close>

definition ends :: "'a run \<Rightarrow> ('a \<Rightarrow> bool) \<Rightarrow> bool" where
  "ends r Q \<longleftrightarrow> (\<exists>x. r = Some x \<and> Q x)"

lemma ends_simps [simp]: "ends (Some x) Q = Q x" "\<not> ends None Q"
  by (simp_all add: ends_def)

lemma ends_bind [simp]: "ends (Option.bind r f) Q = ends r (\<lambda>x. ends (f x) Q)"
  by (cases r) simp_all

lemma ends_mono: "ends r P \<Longrightarrow> (\<And>x. P x \<Longrightarrow> Q x) \<Longrightarrow> ends r Q"
  by (auto simp: ends_def)

lemma ends_case [simp]: "(\<lambda>x. ends (case x of (a, b) \<Rightarrow> f a b) Q) = (\<lambda>(a, b). ends (f a b) Q)"
  by (auto simp: fun_eq_iff)

section \<open>A directory and its entries\<close>

text \<open>\<open>G\<close> holds the blocks of the table, the device outside it, the size the directory may grow to and
  the bytes of a cluster; \<open>h\<close> is the hint and \<open>es\<close> are the entries.\<close>

type_synonym dir_env = "nat set \<times> u8 list disk \<times> nat \<times> nat"

definition dir_ok :: "dir_env \<Rightarrow> nat \<Rightarrow> FATDirEnt list \<Rightarrow> inode_state \<Rightarrow> bool" where
  "dir_ok G h es s \<longleftrightarrow> (case G of (S, D, N, B) \<Rightarrow>
      inode_room S D N s \<and> clus_bytes (fst (snd s)) = B \<and> B dvd N \<and> B dvd 32 * length es \<and> 32 * length es \<le> N)
    \<and> inode_is_dir (fst s) \<and> get_hint s = of_nat h \<and> h < 2 ^ 32
    \<and> file_data s = concat es \<and> (\<forall>e \<in> set es. length e = 32)"

lemma concat_32:
  assumes "\<forall>e \<in> set es. length e = 32"
  shows "length (concat es) = 32 * length es"
    and "i < length es \<Longrightarrow> take 32 (drop (32 * i) (concat es)) = es ! i"
    and "i < length es \<Longrightarrow> length e = 32 \<Longrightarrow> take (32 * i) (concat es) @ e @ drop (32 * i + 32) (concat es) = concat (es[i := e])"
  using assms
proof (induction es arbitrary: i)
  case (Cons a es)
  {
    case 1
    then show ?case using Cons.IH(1) by simp
  next
    case 2
    then show ?case using Cons.IH(2) by (cases i) auto
  next
    case 3
    then show ?case using Cons.IH(3) by (cases i) (auto simp: add.commute)
  }
qed simp_all

lemma dir_size:
  assumes "dir_ok G h es s"
  shows "unat (get_file_size (fst s)) = 32 * length es" and "32 * length es < 2 ^ 32"
proof -
  have "length (file_data s) = 32 * length es" using assms concat_32(1) by (auto simp: dir_ok_def)
  then show "unat (get_file_size (fst s)) = 32 * length es" by (simp add: length_file_data)
  moreover have "unat (get_file_size (fst s)) < 2 ^ 32" using unsigned_less [of "get_file_size (fst s)"] by simp
  ultimately show "32 * length es < 2 ^ 32" by linarith
qed

lemma unat32: "n < 2 ^ 32 \<Longrightarrow> unat (of_nat n :: u32) = n"
  by (rule unat_of_nat32) simp

lemma read_frame:
  assumes "read_at_block_cache off len s = Some (bs, s')"
  shows "\<exists>m. s' = ((fst s)\<lparr>file_cache_mgr := m\<rparr>, snd s)"
proof -
  obtain ino efs st where s: "s = (ino, efs, st)" by (cases s) auto
  show ?thesis
  proof (cases "min ((off + len) mod 2 ^ 64) (unat (get_file_size ino)) \<le> off")
    case True
    then have "s' = (ino\<lparr>file_cache_mgr := file_cache_mgr ino\<rparr>, efs, st)" using assms by (simp add: read_at_block_cache_def s Let_def)
    then show ?thesis unfolding s fst_conv snd_conv by (rule exI)
  next
    case False
    then show ?thesis using assms by (auto simp: read_at_block_cache_def s Let_def elim!: bind_eq_SomeE)
  qed
qed

lemma size_frame:
  assumes "modify_size_lock diff False s = Some s'"
  shows "get_hint s' = get_hint s \<and> file_type (fst s') = file_type (fst s)"
  using assms
  by (auto simp: modify_size_lock_def alloc_clus_def dealloc_clus_def Let_def get_hint_def split: if_splits prod.splits elim!: bind_eq_SomeE)

lemma write_frame:
  assumes "write_at_block_cache_lock off bs s = Some (n, s')"
  shows "get_hint s' = get_hint s \<and> file_type (fst s') = file_type (fst s)"
proof -
  let ?d = "sint (of_nat (length bs) + of_nat off - of_nat (unat (get_file_size (fst s))) :: 64 word)"
  obtain ino efs st where t: "(if 0 < ?d then modify_size_lock ?d False s else Some s) = Some (ino, efs, st)"
    and s': "\<exists>m. s' = (ino\<lparr>file_cache_mgr := m\<rparr>, efs, st)"
    using assms unfolding write_at_block_cache_lock_def Let_def by (elim bind_eq_SomeE) (auto elim!: bind_eq_SomeE, blast)
  have "get_hint (ino, efs, st) = get_hint s \<and> file_type ino = file_type (fst s)"
    using t size_frame [of ?d s "(ino, efs, st)"] by (auto split: if_splits)
  then show ?thesis using s' by (auto simp: get_hint_def)
qed

lemma read_ent_ok:
  assumes "dir_ok G h es s" and "i < length es"
  shows "ends (read_ent (of_nat (32 * i)) s) (\<lambda>(n, e, s'). n = 32 \<and> e = es ! i \<and> dir_ok G h es s')"
proof -
  obtain S D N B where G: "G = (S, D, N, B)" by (cases G)
  have d: "inode_room S D N s" "file_data s = concat es" "\<forall>e \<in> set es. length e = 32"
    using assms(1) by (auto simp: dir_ok_def G)
  have lt: "32 * i < 2 ^ 32" using dir_size(2) [OF assms(1)] assms(2) by linarith
  have "32 * i + 32 < 2 ^ 64" using lt by simp
  then obtain s' where s': "read_at_block_cache (32 * i) 32 s = Some (take 32 (drop (32 * i) (file_data s)), s')"
    "inode_room S D N s'" "file_data s' = file_data s" using fat_file.rd_law [OF d(1)] by blast
  moreover have "take 32 (drop (32 * i) (file_data s)) = es ! i" "length (es ! i) = 32"
    using concat_32(2) [OF d(3) assms(2)] d(2,3) assms(2) by simp_all
  moreover obtain m where "s' = ((fst s)\<lparr>file_cache_mgr := m\<rparr>, snd s)" using read_frame [OF s'(1)] by blast
  then have "dir_ok G h es s'" using s'(2,3) assms(1) by (auto simp: dir_ok_def G get_hint_def inode_is_dir_def)
  moreover have "drop 32 DirEnt_empty = []" by (simp add: DirEnt_empty_def length_short_bytes ShortDirEnt_empty_def)
  ultimately show ?thesis using unat32 [OF lt] by (simp add: read_ent_def)
qed

lemma write_ent_ok:
  assumes "dir_ok G h es s" and "i < length es" and "length e = 32"
  shows "ends (write_at_block_cache_lock (32 * i) e s) (\<lambda>(n, s'). n = 32 \<and> dir_ok G h (es[i := e]) s')"
proof -
  obtain S D N B where G: "G = (S, D, N, B)" by (cases G)
  have d: "inode_ok S D s" "N < 2 ^ 32" "ceil_div N B \<le> quota s" "clus_bytes (fst (snd s)) = B"
    "file_data s = concat es" "\<forall>e \<in> set es. length e = 32"
    using assms(1) by (auto simp: dir_ok_def G inode_room_def)
  note sz = dir_size [OF assms(1)]
  have fit: "32 * i + 32 \<le> 32 * length es" using assms(2) by simp
  have "length (ino_clusters (fst s)) = ceil_div (32 * length es) B"
    using inode_okD(5) [of S D "fst s" "fst (snd s)" "snd (snd s)"] d(1,4) sz(1) by simp
  then have room: "ceil_div (32 * i + length e) (clus_bytes (fst (snd s))) - length (ino_clusters (fst s)) \<le> free_count (snd s)"
    using ceil_div_mono [OF fit, of B] d(4) assms(3) by simp
  have off: "32 * i \<le> length (file_data s)" and lt: "32 * i + length e < 2 ^ 32"
    using sz fit assms(3) length_file_data [of s] by simp_all
  have ne: "e \<noteq> []" using assms(3) by auto
  obtain s' where s': "write_at_block_cache_lock (32 * i) e s = Some (length e, s')" "inode_ok S D s'" "quota s' = quota s"
    "clus_bytes (fst (snd s')) = clus_bytes (fst (snd s))"
    "file_data s' = take (32 * i) (file_data s) @ e @ drop (32 * i + length e) (file_data s)"
    using write_at_ok [OF d(1) ne off lt room] by blast
  have "file_data s' = concat (es[i := e])" using s'(5) concat_32(3) [OF d(6) assms(2,3)] d(5) assms(3) by simp
  moreover have "\<forall>x \<in> set (es[i := e]). length x = 32" using d(6) assms(3) by (auto dest: set_update_subset_insert [THEN subsetD])
  ultimately have "dir_ok G h (es[i := e]) s'" using s'(2-4) d(2,3) assms(1) write_frame [OF s'(1)]
    by (simp add: dir_ok_def G inode_room_def inode_is_dir_def)
  then show ?thesis using s'(1) assms(3) by simp
qed

section \<open>Steps of an iterator\<close>

definition fwd :: "DirIterMode \<Rightarrow> nat \<Rightarrow> DirIter" where
  "fwd m i = \<lparr>it_offset = (if i = 0 then None else Some (of_nat (32 * (i - 1)))), it_mode = m, it_direction = True\<rparr>"

definition bwd :: "DirIterMode \<Rightarrow> nat \<Rightarrow> DirIter" where
  "bwd m i = \<lparr>it_offset = Some (of_nat (32 * i)), it_mode = m, it_direction = False\<rparr>"

lemma fwd_simps [simp]: "it_mode (fwd m i) = m" "it_direction (fwd m i)" "it_offset (fwd m (Suc i)) = Some (of_nat (32 * i))"
  "(case it_offset (fwd m i) of Some off \<Rightarrow> off + STEP_SIZE | None \<Rightarrow> 0) = of_nat (32 * i)"
  "(fwd m i)\<lparr>it_offset := Some (of_nat (32 * i))\<rparr> = fwd m (Suc i)"
  "DirIter_new None m True = fwd m 0"
proof -
  show "(case it_offset (fwd m i) of Some off \<Rightarrow> off + STEP_SIZE | None \<Rightarrow> 0) = of_nat (32 * i)"
    by (cases i) (simp_all add: fwd_def STEP_SIZE_def algebra_simps)
qed (simp_all add: fwd_def DirIter_new_def)

lemma bwd_simps [simp]: "it_mode (bwd m i) = m" "\<not> it_direction (bwd m i)" "it_offset (bwd m i) = Some (of_nat (32 * i))"
  "(bwd m (Suc i))\<lparr>it_offset := Some (of_nat (32 * i))\<rparr> = bwd m i"
  "DirIter_new (Some (of_nat (32 * i))) m False = bwd m i"
  by (simp_all add: bwd_def DirIter_new_def)

lemma size_le:
  assumes "dir_ok G h es s" and "i \<le> length es"
  shows "get_file_size (fst s) \<le> of_nat (32 * i) \<longleftrightarrow> length es \<le> i"
proof -
  have "32 * i < 2 ^ 32" using dir_size(2) [OF assms(1)] assms(2) by linarith
  then show ?thesis using dir_size(1) [OF assms(1)] unat32 [of "32 * i"] by (simp only: word_le_nat_alt) linarith
qed

lemma step_fwd:
  assumes d: "dir_ok G h es s" and i: "i < length es"
  shows "ends (it_step (fwd m i) s) (\<lambda>(r, it, s'). dir_ok G h es s' \<and>
    (if m \<noteq> Enum \<and> last_and_unused (es ! i) then r = None \<and> it = fwd m i else r = Some (es ! i) \<and> it = fwd m (Suc i)))"
proof -
  have "\<not> get_file_size (fst s) \<le> of_nat (32 * i)" using size_le [OF d, of i] i by simp
  then have "it_step (fwd m i) s = Option.bind (read_ent (of_nat (32 * i)) s) (\<lambda>(_, ent, s).
      if m \<noteq> Enum \<and> last_and_unused ent then ret (None, fwd m i, s) else ret (Some ent, fwd m (Suc i), s))"
    unfolding it_step_def fwd_simps(4) Let_def by (simp del: of_nat_mult of_nat_numeral cong: if_cong)
  then show ?thesis by (simp only: ends_bind) (rule ends_mono [OF read_ent_ok [OF d i]], auto)
qed

lemma step_fwd_end:
  assumes "dir_ok G h es s" and "i = length es"
  shows "it_step (fwd m i) s = Some (None, fwd m i, s)"
  using size_le [OF assms(1), of i] assms(2) unfolding it_step_def fwd_simps(4) Let_def by simp

lemma step_bwd:
  assumes d: "dir_ok G h es s" and i: "i < length es"
  shows "ends (it_step (bwd m (Suc i)) s) (\<lambda>(r, it, s'). dir_ok G h es s' \<and> r = Some (es ! i) \<and> it = bwd m i)"
proof -
  have "32 * Suc i \<le> 32 * length es" using i by simp
  then have lt: "32 * Suc i < 2 ^ 32" using dir_size(2) [OF d] by linarith
  have "(of_nat (32 * Suc i) :: u32) \<noteq> 0" using unat32 [OF lt] by auto
  moreover have "(of_nat (32 * Suc i) :: u32) - STEP_SIZE = of_nat (32 * i)" by (simp add: STEP_SIZE_def)
  ultimately show ?thesis unfolding it_step_def bwd_simps(3) option.case Let_def
    by (simp del: of_nat_mult of_nat_numeral of_nat_Suc) (rule ends_mono [OF read_ent_ok [OF d i]], auto simp del: of_nat_mult)
qed

lemma step_bwd_end: "it_step (bwd m 0) s = Some (None, (bwd m 0)\<lparr>it_offset := None\<rparr>, s)"
  by (simp add: it_step_def)

section \<open>The next entry\<close>

lemma next_step:
  "ends (it_step it s) (\<lambda>(r, it, s). case r of None \<Rightarrow> Q (None, it, s)
      | Some ent \<Rightarrow> if check_dir_ent_legality (it_mode it) ent then Q (Some ent, it, s) else ends (it_next it s) Q)
    \<Longrightarrow> ends (it_next it s) Q"
  by (subst it_next.simps) (auto elim!: ends_mono split: option.splits)

lemma next_fwd_hit:
  assumes "dir_ok G h es s" and "i < length es" and "m = Enum \<or> \<not> last_and_unused (es ! i)" and "check_dir_ent_legality m (es ! i)"
    and "\<And>s'. dir_ok G h es s' \<Longrightarrow> Q (Some (es ! i), fwd m (Suc i), s')"
  shows "ends (it_next (fwd m i) s) Q"
  by (rule next_step, rule ends_mono [OF step_fwd [OF assms(1,2)]]) (use assms(3-) in auto)

lemma next_fwd_skip:
  assumes "dir_ok G h es s" and "i < length es" and "m = Enum \<or> \<not> last_and_unused (es ! i)" and "\<not> check_dir_ent_legality m (es ! i)"
    and "\<And>s'. dir_ok G h es s' \<Longrightarrow> ends (it_next (fwd m (Suc i)) s') Q"
  shows "ends (it_next (fwd m i) s) Q"
  by (rule next_step, rule ends_mono [OF step_fwd [OF assms(1,2)]]) (use assms(3-) in auto)

lemma next_fwd_end:
  assumes "dir_ok G h es s" and "i = length es \<or> i < length es \<and> m \<noteq> Enum \<and> last_and_unused (es ! i)"
    and "\<And>s'. dir_ok G h es s' \<Longrightarrow> Q (None, fwd m i, s')"
  shows "ends (it_next (fwd m i) s) Q"
proof (cases "i = length es")
  case True
  then show ?thesis using assms(3) [OF assms(1)] by (intro next_step) (simp add: step_fwd_end [OF assms(1)])
next
  case False
  then have i: "i < length es" "m \<noteq> Enum" "last_and_unused (es ! i)" using assms(2) by auto
  show ?thesis by (rule next_step, rule ends_mono [OF step_fwd [OF assms(1) i(1)]]) (use assms(3) i in auto)
qed

lemma next_bwd:
  assumes "dir_ok G h es s" and "i < length es" and "check_dir_ent_legality m (es ! i)"
    and "\<And>s'. dir_ok G h es s' \<Longrightarrow> Q (Some (es ! i), bwd m i, s')"
  shows "ends (it_next (bwd m (Suc i)) s) Q"
  by (rule next_step, rule ends_mono [OF step_bwd [OF assms(1,2)]]) (use assms(3-) in auto)

lemma next_bwd_end:
  assumes "Q (None, (bwd m 0)\<lparr>it_offset := None\<rparr>, s)"
  shows "ends (it_next (bwd m 0) s) Q"
  by (rule next_step) (simp add: step_bwd_end assms)

lemma next_bwd_total:
  assumes "dir_ok G h es s" and "i \<le> length es"
  shows "ends (it_next (bwd m i) s) (\<lambda>(r, it, s'). dir_ok G h es s')"
  using assms
proof (induction i arbitrary: s)
  case 0
  then show ?case by (intro next_bwd_end) simp
next
  case (Suc i)
  then show ?case by (intro next_step, intro ends_mono [OF step_bwd [OF Suc.prems(1)]]) auto
qed

section \<open>Collecting entries\<close>

text \<open>The entries up to the end mark.\<close>

definition live :: "FATDirEnt list \<Rightarrow> FATDirEnt list" where
  "live es = takeWhile (\<lambda>e. \<not> last_and_unused e) es"

lemma collect_fwd:
  assumes "dir_ok G h es s" and "i \<le> length es" and "m \<noteq> Enum"
  shows "ends (it_collect (fwd m i) s) (\<lambda>(v, s'). v = filter (check_dir_ent_legality m) (live (drop i es)) \<and> dir_ok G h es s')"
proof -
  have next_ok: "ends (it_next (fwd m i) s) (\<lambda>(r, it, s'). dir_ok G h es s' \<and>
      (case r of None \<Rightarrow> filter (check_dir_ent_legality m) (live (drop i es)) = []
       | Some e \<Rightarrow> \<exists>j > i. j \<le> length es \<and> it = fwd m j
           \<and> filter (check_dir_ent_legality m) (live (drop i es)) = e # filter (check_dir_ent_legality m) (live (drop j es))))"
    if "dir_ok G h es s" "i \<le> length es" for i s
    using that
  proof (induction "length es - i" arbitrary: i s)
    case 0
    then show ?case by (intro next_fwd_end [OF 0(2)]) (simp_all add: live_def)
  next
    case (Suc n)
    have i: "i < length es" using Suc.hyps(2) by simp
    have d: "drop i es = es ! i # drop (Suc i) es" by (rule Cons_nth_drop_Suc [OF i, symmetric])
    consider "last_and_unused (es ! i)" | "\<not> last_and_unused (es ! i)" "check_dir_ent_legality m (es ! i)"
      | "\<not> last_and_unused (es ! i)" "\<not> check_dir_ent_legality m (es ! i)" by blast
    then show ?case
    proof cases
      case 1
      then show ?thesis by (intro next_fwd_end [OF Suc.prems(1)]) (use i assms(3) in \<open>simp_all add: live_def d\<close>)
    next
      case 2
      then show ?thesis by (intro next_fwd_hit [OF Suc.prems(1) i]) (use i in \<open>auto simp: live_def d intro!: exI [of _ "Suc i"]\<close>)
    next
      case 3
      show ?thesis
      proof (rule next_fwd_skip [OF Suc.prems(1) i _ 3(2)])
        fix s' assume s': "dir_ok G h es s'"
        have "ends (it_next (fwd m (Suc i)) s') (\<lambda>(r, it, s'). dir_ok G h es s' \<and>
          (case r of None \<Rightarrow> filter (check_dir_ent_legality m) (live (drop (Suc i) es)) = []
           | Some e \<Rightarrow> \<exists>j > Suc i. j \<le> length es \<and> it = fwd m j
               \<and> filter (check_dir_ent_legality m) (live (drop (Suc i) es)) = e # filter (check_dir_ent_legality m) (live (drop j es))))"
          using Suc.hyps(1) [of "Suc i" s'] Suc.hyps(2) s' i by simp
        then show "ends (it_next (fwd m (Suc i)) s') (\<lambda>(r, it, s'). dir_ok G h es s' \<and>
          (case r of None \<Rightarrow> filter (check_dir_ent_legality m) (live (drop i es)) = []
           | Some e \<Rightarrow> \<exists>j > i. j \<le> length es \<and> it = fwd m j
               \<and> filter (check_dir_ent_legality m) (live (drop i es)) = e # filter (check_dir_ent_legality m) (live (drop j es))))"
          using 3 by (elim ends_mono) (auto simp: live_def d split: option.splits, metis Suc_lessD)
      qed (use 3 in simp)
    qed
  qed
  show ?thesis using assms(1,2)
  proof (induction "length es - i" arbitrary: i s rule: less_induct)
    case less
    show ?case
      by (subst it_collect.simps, simp, rule ends_mono [OF next_ok [OF less.prems]])
        (auto split: option.splits intro!: less.hyps diff_less_mono2)
  qed
qed

end
