(* ===== verification/Dir_Files.thy ===== *)
theory Dir_Files
  imports Dir_Scan
begin

text \<open>
  Directories as lists of files: a file takes its long entries, the last part of the name first,
  and one short entry; deleted entries are holes.  The walkers of \<^verbatim>\<open>dir_iter.rs\<close> list the files,
  \<^verbatim>\<open>create_dir_ent\<close> appends one and \<^verbatim>\<open>delete_dir_ent\<close> makes holes and cuts them off at the end.
\<close>

section \<open>Files in a directory\<close>

datatype dslot = Hole FATDirEnt | Filed "FATLongDirEnt list" FATShortDirEnt

fun slot_ents :: "dslot \<Rightarrow> FATDirEnt list" where
  "slot_ents (Hole e) = [e]"
| "slot_ents (Filed ls sh) = map long_bytes (rev ls) @ [short_bytes sh]"

fun slot_ok :: "dslot \<Rightarrow> bool" where
  "slot_ok (Hole e) \<longleftrightarrow> length e = 32 \<and> unused_not_last e"
| "slot_ok (Filed ls sh) \<longleftrightarrow> length ls < 64 \<and> length (se_name sh) = 11 \<and> is_short (short_bytes sh) \<and> \<not> ent_unused (short_bytes sh)
    \<and> (\<forall>i < length ls. long_ok (ls ! i) \<and> is_long (long_bytes (ls ! i)) \<and> \<not> ent_unused (long_bytes (ls ! i))
        \<and> ent_ord (long_bytes (ls ! i)) = i + 1 \<and> is_last_long_dir_ent (long_bytes (ls ! i)) = (i + 1 = length ls))"

definition file_name :: "FATLongDirEnt list \<Rightarrow> FATShortDirEnt \<Rightarrow> rstring" where
  "file_name ls sh = (let n = concat (map long_name ls) in if n = [] then short_name sh else n)"

definition all_ents :: "dslot list \<Rightarrow> FATDirEnt list" where
  "all_ents gs = concat (map slot_ents gs)"

lemma all_ents_simps [simp]: "all_ents [] = []" "all_ents (g # gs) = slot_ents g @ all_ents gs"
  "all_ents (gs @ gs') = all_ents gs @ all_ents gs'"
  by (simp_all add: all_ents_def)

text \<open>What follows the files: nothing, or an end mark and anything.\<close>

definition tail_ok :: "FATDirEnt list \<Rightarrow> bool" where
  "tail_ok rest \<longleftrightarrow> rest = [] \<or> last_and_unused (hd rest)"

fun first_file :: "nat \<Rightarrow> dslot list \<Rightarrow> (rstring \<times> FATShortDirEnt \<times> nat \<times> dslot list) option" where
  "first_file i [] = None"
| "first_file i (Hole e # gs) = first_file (Suc i) gs"
| "first_file i (Filed ls sh # gs) = Some (file_name ls sh, sh, i + length ls, gs)"

lemma first_file_rest:
  "first_file i gs = Some (n, e, j, gs') \<Longrightarrow> \<forall>g \<in> set gs. slot_ok g \<Longrightarrow> es = A @ all_ents gs @ rest \<Longrightarrow> length A = i \<Longrightarrow>
    length gs' < length gs \<and> (\<forall>g \<in> set gs'. slot_ok g) \<and> (\<exists>A'. es = A' @ all_ents gs' @ rest \<and> length A' = Suc j)"
proof (induction i gs arbitrary: A rule: first_file.induct)
  case (2 i e' gs)
  have "es = (A @ [e']) @ all_ents gs @ rest" using "2.prems"(3) by simp
  then show ?case using "2.IH" [of "A @ [e']"] "2.prems" by force
next
  case (3 i ls sh gs)
  have "es = (A @ slot_ents (Filed ls sh)) @ all_ents gs @ rest" using "3.prems"(3) by simp
  moreover have "length (A @ slot_ents (Filed ls sh)) = Suc j" using "3.prems"(1,4) by simp
  ultimately have "\<exists>A'. es = A' @ all_ents gs @ rest \<and> length A' = Suc j" by blast
  then show ?case using "3.prems" by auto
qed simp

section \<open>Walking\<close>

text \<open>What the walker does with the next used entry.\<close>

definition walk_then :: "rstring \<Rightarrow> usize \<Rightarrow> ((rstring \<times> FATShortDirEnt) option \<times> DirIter \<times> inode_state \<Rightarrow> bool) \<Rightarrow>
    FATDirEnt option \<times> DirIter \<times> inode_state \<Rightarrow> bool" where
  "walk_then nm n Q = (\<lambda>(r, it, s). case r of None \<Rightarrow> Q (None, it, s)
    | Some ent \<Rightarrow> if is_long ent then
           (if is_last_long_dir_ent ent then ends (walk_loop (get_name ent @ nm) (of_nat (ent_ord ent) - 1) it s) Q
            else of_nat (ent_ord ent) = n \<and> ends (walk_loop (get_name ent @ nm) (n - 1) it s) Q)
         else Q (Some (if nm = [] then get_name ent else nm, short_entry ent), it, s))"

lemma walk_loop_next: "ends (it_next it s) (walk_then nm n Q) \<Longrightarrow> ends (walk_loop nm n it s) Q"
  by (subst walk_loop.simps, simp, erule ends_mono) (auto simp: walk_then_def split: option.splits if_splits)

lemma walk_then_simps:
  "\<not> is_long ent \<Longrightarrow> walk_then nm n Q (Some ent, it, s) = Q (Some (if nm = [] then get_name ent else nm, short_entry ent), it, s)"
  "is_long ent \<Longrightarrow> walk_then nm n Q (Some ent, it, s) =
    (if is_last_long_dir_ent ent then ends (walk_loop (get_name ent @ nm) (of_nat (ent_ord ent) - 1) it s) Q
     else of_nat (ent_ord ent) = n \<and> ends (walk_loop (get_name ent @ nm) (n - 1) it s) Q)"
  by (simp_all add: walk_then_def)

lemma walk_longs:
  assumes ok: "slot_ok (Filed ls sh)" and es: "es = A @ slot_ents (Filed ls sh) @ R"
    and Q: "\<And>s'. dir_ok G h es s' \<Longrightarrow> Q (Some (file_name ls sh, sh), fwd Used (length A + length ls + 1), s')"
    and "dir_ok G h es s" and "k \<le> length ls" and "k < length ls \<Longrightarrow> n = of_nat k"
  shows "ends (walk_loop (concat (map long_name (drop k ls))) n (fwd Used (length A + (length ls - k))) s) Q"
  using assms(4-)
proof (induction k arbitrary: n s)
  case 0
  have at: "es ! (length A + length ls) = short_bytes sh" "length A + length ls < length es" by (simp_all add: es nth_append)
  have legal: "check_dir_ent_legality Used (short_bytes sh)" "\<not> last_and_unused (short_bytes sh)" "\<not> is_long (short_bytes sh)"
    using ok by (auto simp: check_dir_ent_legality_def ent_unused_def is_short_def)
  have sh: "short_entry (short_bytes sh) = sh" using ok short_entry_short_bytes by simp
  then have "get_name (short_bytes sh) = short_name sh" using legal(3) by (simp add: get_name_def)
  then have nm: "(if concat (map long_name (drop 0 ls)) = [] then get_name (short_bytes sh) else concat (map long_name (drop 0 ls))) = file_name ls sh"
    unfolding file_name_def Let_def drop_0 by (simp only:)
  show ?case
  proof (rule walk_loop_next, rule next_fwd_hit [OF "0.prems"(1)], unfold diff_zero at)
    fix s' assume s': "dir_ok G h es s'"
    then show "walk_then (concat (map long_name (drop 0 ls))) n Q (Some (short_bytes sh), fwd Used (Suc (length A + length ls)), s')"
      unfolding walk_then_simps(1) [OF legal(3)] nm sh using Q by simp
  qed (use legal at in simp_all)
next
  case (Suc k)
  let ?i = "length A + (length ls - Suc k)" and ?e = "long_bytes (ls ! k)"
  have k: "k < length ls" using Suc.prems(2) by simp
  have lt: "length ls - Suc k < length ls" using k by linarith
  have "rev ls ! (length ls - Suc k) = ls ! k" using k by (simp add: rev_nth)
  then have "(slot_ents (Filed ls sh) @ R) ! (length ls - Suc k) = ?e"
    using k lt by (simp add: nth_append)
  then have at: "es ! ?i = ?e" "?i < length es" "Suc ?i = length A + (length ls - k)"
    using k unfolding es by (simp_all only: nth_append_length_plus) simp_all
  have o: "long_ok (ls ! k)" "is_long ?e" "\<not> ent_unused ?e" "ent_ord ?e = k + 1" "is_last_long_dir_ent ?e = (k + 1 = length ls)"
    using ok k by auto
  have legal: "check_dir_ent_legality Used ?e" "\<not> last_and_unused ?e" using o(3) by (auto simp: check_dir_ent_legality_def ent_unused_def)
  have nm: "get_name ?e = long_name (ls ! k)" using o(2) long_entry_long_bytes [OF o(1)] by (simp add: get_name_def)
  have name: "get_name ?e @ concat (map long_name (drop (Suc k) ls)) = concat (map long_name (drop k ls))"
    using k by (simp add: nm flip: Cons_nth_drop_Suc)
  show ?case
  proof (rule walk_loop_next, rule next_fwd_hit [OF Suc.prems(1) at(2)], unfold at)
    fix s' assume s': "dir_ok G h es s'"
    have go: "ends (walk_loop (concat (map long_name (drop k ls))) (of_nat k) (fwd Used (length A + (length ls - k))) s') Q"
      by (rule Suc.IH [OF s']) (use k in simp_all)
    have w: "(of_nat (k + 1) :: usize) - 1 = of_nat k" by simp
    have "n = of_nat (Suc k)" if "k + 1 \<noteq> length ls" using Suc.prems(3) k that by simp
    then show "walk_then (concat (map long_name (drop (Suc k) ls))) n Q (Some ?e, fwd Used (length A + (length ls - k)), s')"
      using go unfolding walk_then_simps(2) [OF o(2)] o(4,5) name w by auto
  qed (use legal in simp_all)
qed

lemma walk_hole:
  assumes "dir_ok G h es s" and "i < length es" and "slot_ok (Hole (es ! i))"
    and "\<And>s'. dir_ok G h es s' \<Longrightarrow> ends (walk_loop nm n (fwd Used (Suc i)) s') Q"
  shows "ends (walk_loop nm n (fwd Used i) s) Q"
proof -
  have "unused_not_last (es ! i)" using assms(3) by simp
  then have "\<not> last_and_unused (es ! i)" "\<not> check_dir_ent_legality Used (es ! i)"
    by (auto simp: unused_not_last_def last_and_unused_def DIR_ENTRY_UNUSED_def DIR_ENTRY_LAST_AND_UNUSED_def check_dir_ent_legality_def
        ent_unused_def)
  moreover have "ends (it_next (fwd Used (Suc i)) s') (walk_then nm n Q)" if "dir_ok G h es s'" for s'
    using assms(4) [OF that] unfolding walk_then_def
    by (subst (asm) walk_loop.simps, simp, elim ends_mono) (auto split: option.splits if_splits)
  ultimately show ?thesis by (intro walk_loop_next next_fwd_skip [OF assms(1,2)]) auto
qed

lemma walk_next_ok:
  assumes "dir_ok G h es s" and "es = A @ all_ents gs @ rest" and "\<forall>g \<in> set gs. slot_ok g" and "tail_ok rest"
    and "\<And>s' it. dir_ok G h es s' \<Longrightarrow> (case first_file (length A) gs of None \<Rightarrow> Q (None, it, s')
        | Some (n, e, j, gs') \<Rightarrow> Q (Some (n, e), fwd Used (Suc j), s'))"
  shows "ends (walk_next (fwd Used (length A)) s) Q"
  using assms
proof (induction "length A" gs arbitrary: A s rule: first_file.induct)
  case (1 A)
  have "length A = length es \<or> length A < length es \<and> last_and_unused (es ! length A)"
    using "1.prems"(2,4) by (cases rest) (auto simp: tail_ok_def nth_append)
  then show ?case using "1.prems"(5) unfolding walk_next_def
    by (intro walk_loop_next next_fwd_end [OF "1.prems"(1)]) (auto simp: walk_then_def)
next
  case (2 e gs A)
  have at: "length A < length es" "es ! length A = e" using "2.prems"(2) by simp_all
  show ?case unfolding walk_next_def
  proof (rule walk_hole [OF "2.prems"(1) at(1)])
    fix s' assume s': "dir_ok G h es s'"
    have "ends (walk_next (fwd Used (length (A @ [e]))) s') Q"
      by (rule "2.hyps" [OF _ s']) (use "2.prems" in \<open>auto\<close>)
    then show "ends (walk_loop [] (-1) (fwd Used (Suc (length A))) s') Q" by (simp add: walk_next_def)
  qed (use "2.prems"(3) at in simp)
next
  case (3 ls sh gs A)
  have es: "es = A @ slot_ents (Filed ls sh) @ (all_ents gs @ rest)" using "3.prems"(2) by simp
  have "ends (walk_loop (concat (map long_name (drop (length ls) ls))) (-1) (fwd Used (length A + (length ls - length ls))) s) Q"
    by (rule walk_longs [OF _ es _ "3.prems"(1)]) (use "3.prems" in \<open>auto simp: slot_ok.simps\<close>)
  then show ?case by (simp add: walk_next_def)
qed

section \<open>Listing and finding\<close>

fun dir_files :: "nat \<Rightarrow> dslot list \<Rightarrow> (rstring \<times> FATShortDirEnt \<times> nat) list" where
  "dir_files i [] = []"
| "dir_files i (Hole e # gs) = dir_files (Suc i) gs"
| "dir_files i (Filed ls sh # gs) = (file_name ls sh, sh, i + length ls) # dir_files (Suc (i + length ls)) gs"

lemma dir_files_first:
  "dir_files i gs = (case first_file i gs of None \<Rightarrow> [] | Some (n, e, j, gs') \<Rightarrow> (n, e, j) # dir_files (Suc j) gs')"
  by (induction i gs rule: first_file.induct) simp_all

definition same_name :: "rstring \<Rightarrow> rstring \<Rightarrow> bool" where
  "same_name req n \<longleftrightarrow> str_len n = str_len req \<and> eq_ignore_ascii_case n req"

definition ent_at :: "rstring \<times> FATShortDirEnt \<times> nat \<Rightarrow> rstring \<times> FATShortDirEnt \<times> u32" where
  "ent_at = (\<lambda>(n, e, i). (n, e, of_nat (32 * i)))"

lemma find_walk_ok:
  assumes "dir_ok G h es s" and "es = A @ all_ents gs @ rest" and "\<forall>g \<in> set gs. slot_ok g" and "tail_ok rest"
  shows "ends (find_walk req (fwd Used (length A)) s) (\<lambda>(r, s'). dir_ok G h es s'
    \<and> r = map_option ent_at (find (\<lambda>(n, _). same_name req n) (dir_files (length A) gs)))"
  using assms
proof (induction "length gs" arbitrary: A gs s rule: less_induct)
  case less
  show ?case
  proof (subst find_walk.simps, simp, rule walk_next_ok [OF less.prems])
    fix s' it assume s': "dir_ok G h es s'"
    show "case first_file (length A) gs of None \<Rightarrow> (case (None, it, s') of (r, it, s) \<Rightarrow> ends (case r of None \<Rightarrow> ret (None, s)
        | Some (name, ent) \<Rightarrow> if str_len name = str_len req \<and> eq_ignore_ascii_case name req
            then it_offset it \<bind> (\<lambda>off. ret (Some (name, ent, off), s)) else find_walk req it s)
        (\<lambda>(r, s'). dir_ok G h es s' \<and> r = map_option ent_at (find (\<lambda>(n, _). same_name req n) (dir_files (length A) gs))))
      | Some (n, e, j, gs') \<Rightarrow> (case (Some (n, e), fwd Used (Suc j), s') of (r, it, s) \<Rightarrow> ends (case r of None \<Rightarrow> ret (None, s)
        | Some (name, ent) \<Rightarrow> if str_len name = str_len req \<and> eq_ignore_ascii_case name req
            then it_offset it \<bind> (\<lambda>off. ret (Some (name, ent, off), s)) else find_walk req it s)
        (\<lambda>(r, s'). dir_ok G h es s' \<and> r = map_option ent_at (find (\<lambda>(n, _). same_name req n) (dir_files (length A) gs))))"
    proof (cases "first_file (length A) gs")
      case None
      then show ?thesis using s' dir_files_first [of "length A" gs] by simp
    next
      case (Some x)
      then obtain n e j gs' where x: "first_file (length A) gs = Some (n, e, j, gs')" by (cases x) auto
      obtain A' where A': "length gs' < length gs" "\<forall>g \<in> set gs'. slot_ok g" "es = A' @ all_ents gs' @ rest" "length A' = Suc j"
        using first_file_rest [OF x less.prems(3,2) refl] by blast
      have f: "dir_files (length A) gs = (n, e, j) # dir_files (Suc j) gs'" using dir_files_first [of "length A" gs] x by simp
      show ?thesis using less.hyps [OF A'(1) s' A'(3,2) less.prems(4)] s'
        by (auto simp: x f A'(4) same_name_def ent_at_def)
    qed
  qed
qed

lemma walk_collect_ok:
  assumes "dir_ok G h es s" and "es = A @ all_ents gs @ rest" and "\<forall>g \<in> set gs. slot_ok g" and "tail_ok rest"
  shows "ends (walk_collect (fwd Used (length A)) s) (\<lambda>(r, s'). dir_ok G h es s' \<and> r = map ent_at (dir_files (length A) gs))"
  using assms
proof (induction "length gs" arbitrary: A gs s rule: less_induct)
  case less
  show ?case
  proof (subst walk_collect.simps, simp, rule walk_next_ok [OF less.prems], goal_cases)
    case (1 s' it)
    show ?case
    proof (cases "first_file (length A) gs")
      case None
      then show ?thesis using 1 dir_files_first [of "length A" gs] by simp
    next
      case (Some x)
      then obtain n e j gs' where x: "first_file (length A) gs = Some (n, e, j, gs')" by (cases x) auto
      obtain A' where A': "length gs' < length gs" "\<forall>g \<in> set gs'. slot_ok g" "es = A' @ all_ents gs' @ rest" "length A' = Suc j"
        using first_file_rest [OF x less.prems(3,2) refl] by blast
      have f: "dir_files (length A) gs = (n, e, j) # dir_files (Suc j) gs'" using dir_files_first [of "length A" gs] x by simp
      show ?thesis using less.hyps [OF A'(1) 1 A'(3,2) less.prems(4)]
        by (auto simp: x f A'(4) ent_at_def elim!: ends_mono)
    qed
  qed
qed

lemma find_local_ok:
  assumes "dir_ok G h es s" and "es = all_ents gs @ rest" and "\<forall>g \<in> set gs. slot_ok g" and "tail_ok rest"
  shows "ends (find_local_lock req s) (\<lambda>(r, s'). dir_ok G h es s'
    \<and> r = Inr (map_option ent_at (find (\<lambda>(n, _). same_name req n) (dir_files 0 gs))))"
proof -
  have "inode_is_dir (fst s)" using assms(1) by (auto simp: dir_ok_def)
  then show ?thesis using find_walk_ok [of G h es s "[]" gs rest req] assms
    by (auto simp: find_local_lock_def used_walker_def elim!: ends_mono)
qed

section \<open>Growing\<close>

lemma chunks_32: "length (xs :: u8 list) = 32 * n \<Longrightarrow> \<exists>es. concat es = xs \<and> (\<forall>e \<in> set es. length e = 32) \<and> length es = n"
proof (induction n arbitrary: xs)
  case (Suc n)
  have "length (drop 32 xs) = 32 * n" using Suc.prems by simp
  then obtain es where "concat es = drop 32 xs" "\<forall>e \<in> set es. length e = 32" "length es = n" using Suc.IH by blast
  then show ?case using Suc.prems by (intro exI [of _ "take 32 xs # es"]) simp
qed simp

lemma expand_ok:
  assumes "dir_ok G h es s" and "G = (S, D, N, B)" and "32 * length es < N"
  shows "ends (expand_dir_size s) (\<lambda>s'. \<exists>es'. es' \<noteq> [] \<and> dir_ok G h (es @ es') s' \<and> 32 * length (es @ es') \<le> N)"
proof -
  obtain ino efs st where s: "s = (ino, efs, st)" by (cases s) auto
  have d: "inode_ok S D s" "N < 2 ^ 32" "ceil_div N B \<le> quota s" "clus_bytes efs = B" "B dvd N" "B dvd 32 * length es"
    "file_data s = concat es" "\<forall>e \<in> set es. length e = 32"
    using assms(1,2) by (auto simp: dir_ok_def inode_room_def s)
  note sz = dir_size [OF assms(1)]
  have g: "efs_geom S efs" using d(1) inode_okD(1) table_okD(1) unfolding s by blast
  have B: "0 < B" "B = 512 * unat (sec_per_clus efs)" using clus_bytes_pos [OF g] d(4) by (simp_all add: clus_bytes_def)
  have cs: "unat (efs_clus_size efs) = B"
  proof -
    have "unat (sec_per_clus efs) < 256" using unsigned_less [of "sec_per_clus efs"] by simp
    moreover have "unat (ucast (efs_byts_per_sec efs) :: u32) = 512" using g by (simp add: efs_geom_def)
    ultimately show ?thesis by (simp add: efs_clus_size_def B(2) unat_word_ariths(2))
  qed
  obtain a b where ab: "N = B * a" "32 * length es = B * b" using d(5,6) by (auto elim!: dvdE)
  have "B * b < B * a" using assms(3) ab by simp
  then have "b + 1 \<le> a" using B(1) by simp
  then have "B * (b + 1) \<le> B * a" by (rule mult_le_mono2)
  then have fit: "32 * length es + B \<le> N" using ab by simp
  have "length (ino_clusters ino) = ceil_div (32 * length es) B"
    using inode_okD(5) [of S D ino efs st] d(1,4) sz(1) by (simp add: s)
  moreover have "ceil_div (32 * length es + B) B \<le> ceil_div N B" by (rule ceil_div_mono [OF fit])
  ultimately have room: "ceil_div (32 * length es + B) (clus_bytes efs) - length (ino_clusters ino) \<le> free_count (efs, st)"
    using d(3,4) by (simp add: quota_def s)
  have lt: "unat (get_file_size ino) < 32 * length es + B" "32 * length es + B < 2 ^ 32" using sz(1) B(1) fit d(2) by (simp_all add: s)
  obtain ino' efs' st' where s': "modify_size_lock (int (32 * length es + B) - int (unat (get_file_size ino))) False (ino, efs, st) = Some (ino', efs', st')"
    "inode_ok S D (ino', efs', st')" "unat (get_file_size ino') = 32 * length es + B" "quota (ino', efs', st') = quota (ino, efs, st)"
    "clus_bytes efs' = clus_bytes efs" "take (unat (get_file_size ino)) (file_data (ino', efs', st')) = file_data (ino, efs, st)"
    using grow_ok [OF d(1) [unfolded s] lt room] by blast
  let ?new = "drop (32 * length es) (file_data (ino', efs', st'))" and ?n = "16 * unat (sec_per_clus efs)"
  have len: "length ?new = 32 * ?n" using s'(3) B(2) length_file_data [of "(ino', efs', st')"] by simp
  obtain es' where es': "concat es' = ?new" "\<forall>e \<in> set es'. length e = 32" "length es' = ?n" using chunks_32 [OF len] by blast
  have "take (32 * length es) (file_data (ino', efs', st')) @ ?new = file_data (ino', efs', st')" by (rule append_take_drop_id)
  then have data: "file_data (ino', efs', st') = concat (es @ es')" using s'(6) sz(1) d(7) es'(1) unfolding s by (simp del: append_take_drop_id)
  have "dir_ok G h (es @ es') (ino', efs', st')"
    using s' data d assms(1,2) es'(2,3) size_frame [OF s'(1)] B(2) fit
    by (auto simp: dir_ok_def s inode_room_def inode_is_dir_def)
  moreover have "es' \<noteq> []" using es'(3) B by auto
  moreover have "32 * length (es @ es') \<le> N" using fit B(2) es'(3) by simp
  moreover have "int (32 * length es + B) - int (unat (get_file_size ino)) = uint (efs_clus_size efs)"
  proof -
    have "uint (efs_clus_size efs) = int (unat (efs_clus_size efs))" by simp
    then show ?thesis using cs sz(1) by (simp add: s)
  qed
  ultimately show ?thesis using s'(1) by (auto simp: expand_dir_size_def s)
qed

end
