(* ===== verification/Dir_Update.thy ===== *)
theory Dir_Update
  imports Dir_Files
begin

text \<open>
  Changes of a directory: \<^verbatim>\<open>create_dir_ent\<close> appends a file behind the others, growing the directory by
  clusters when the entries do not fit, and \<^verbatim>\<open>delete_dir_ent\<close> turns the entries of a file into holes
  and moves the end mark back over holes at the end.
\<close>

section \<open>Writing entries\<close>

lemma write_cur:
  assumes "dir_ok G h es s" and "i < length es" and "length e = 32" and "it_offset it = Some (of_nat (32 * i))"
    and "\<And>s'. dir_ok G h (es[i := e]) s' \<Longrightarrow> Q s'"
  shows "ends (write_to_current_ent e it s) Q"
proof -
  have "32 * i < 2 ^ 32" using dir_size(2) [OF assms(1)] assms(2) by linarith
  then have u: "unat (of_nat (32 * i) :: u32) = 32 * i" by (rule unat32)
  have "ends (write_at_block_cache_lock (unat (of_nat (32 * i) :: u32)) e s) (\<lambda>(n, s). ends (rust_assert (n = length e) \<bind> (\<lambda>_. ret s)) Q)"
    unfolding u by (rule ends_mono [OF write_ent_ok [OF assms(1-3)]]) (use assms(3,5) in \<open>auto simp: rust_assert_def\<close>)
  then show ?thesis unfolding write_to_current_ent_def assms(4) by simp
qed

lemma hint_ok:
  assumes "dir_ok G h es s" and "h' < 2 ^ 32"
  shows "dir_ok G h' es (with_hint (of_nat h') s)"
proof -
  obtain ino efs st where s: "s = (ino, efs, st)" by (cases s) auto
  have [simp]: "get_file_size (ino\<lparr>file_content := (file_content ino)\<lparr>fc_hint := w\<rparr>\<rparr>) = get_file_size ino" for w
    by (simp add: get_file_size_def)
  show ?thesis using assms
    by (auto simp: dir_ok_def s with_hint_def inode_room_def inode_ok_def quota_def file_data_def get_hint_def inode_is_dir_def Let_def)
qed

lemma length_marks [simp]: "length unused_and_last_entry = 32" "length unused_not_last_entry = 32"
  by (simp_all add: unused_and_last_entry_def unused_not_last_entry_def DirEnt_empty_def length_short_bytes ShortDirEnt_empty_def)

lemma marks [simp]: "last_and_unused unused_and_last_entry" "unused_not_last unused_not_last_entry"
  by (simp_all add: last_and_unused_def unused_not_last_def long_entry_def unused_and_last_entry_def unused_not_last_entry_def
      DirEnt_empty_def short_bytes_def ShortDirEnt_empty_def)

section \<open>Creating\<close>

text \<open>What \<^verbatim>\<open>alloc_dir_ent\<close> does with the next entry, and with the one after the last it takes.\<close>

definition alloc_end :: "u32 \<Rightarrow> (u32 \<times> inode_state \<Rightarrow> bool) \<Rightarrow> FATDirEnt option \<times> DirIter \<times> inode_state \<Rightarrow> bool" where
  "alloc_end off Q = (\<lambda>(r, it, s). case r of
     Some _ \<Rightarrow> ends (write_to_current_ent unused_and_last_entry it s) (\<lambda>s. \<exists>h. it_offset it = Some h \<and> Q (off, with_hint h s))
   | None \<Rightarrow> Q (off, with_hint (get_file_size (fst s)) s))"

definition alloc_then :: "nat \<Rightarrow> nat \<Rightarrow> (u32 \<times> inode_state \<Rightarrow> bool) \<Rightarrow> FATDirEnt option \<times> DirIter \<times> inode_state \<Rightarrow> bool" where
  "alloc_then n j Q = (\<lambda>(r, it, s). case r of
     None \<Rightarrow> ends (expand_dir_size s) (\<lambda>s. ends (alloc_ent_loop n j it s) Q)
   | Some _ \<Rightarrow> if n \<le> j + 1 then \<exists>off. it_offset it = Some off \<and> ends (it_next it s) (alloc_end off Q)
       else ends (alloc_ent_loop n (j + 1) it s) Q)"

lemma alloc_end_cases:
  assumes "alloc_end off Q x"
  shows "case x of (r, it, s) \<Rightarrow> ends (case r of
      Some _ \<Rightarrow> do { s \<leftarrow> write_to_current_ent unused_and_last_entry it s; h \<leftarrow> it_offset it; ret (off, with_hint h s) }
    | None \<Rightarrow> ret (off, with_hint (get_file_size (fst s)) s)) Q"
proof -
  obtain r it s where x: "x = (r, it, s)" by (rule prod_cases3)
  show ?thesis using assms by (cases r) (auto simp: x alloc_end_def elim!: ends_mono)
qed

lemma alloc_loop_next: "ends (it_next it s) (alloc_then n j Q) \<Longrightarrow> ends (alloc_ent_loop n j it s) Q"
proof (subst alloc_ent_loop.simps, simp only: ends_bind, erule ends_mono, goal_cases)
  case (1 x)
  obtain r it s where x: "x = (r, it, s)" by (rule prod_cases3)
  show ?case
  proof (cases r)
    case None
    then show ?thesis using 1 by (simp add: x alloc_then_def)
  next
    case (Some e)
    show ?thesis
    proof (cases "n \<le> j + 1")
      case True
      obtain off where off: "it_offset it = Some off" "ends (it_next it s) (alloc_end off Q)" using 1 True by (auto simp: x Some alloc_then_def)
      show ?thesis using True by (simp add: x Some off(1)) (rule ends_mono [OF off(2) alloc_end_cases])
    next
      case False
      then show ?thesis using 1 by (simp add: x Some alloc_then_def)
    qed
  qed
qed

lemma size_word: "dir_ok G h es s \<Longrightarrow> get_file_size (fst s) = of_nat (32 * length es)"
  by (rule unat_eqD) (simp only: dir_size unat32)

lemma alloc_end_ok:
  assumes d: "dir_ok G h es s" and p: "p \<le> length es" "32 * p < 2 ^ 32"
    and Q: "\<And>es' s'. dir_ok G (32 * p) es' s' \<Longrightarrow> take p es' = take p es \<Longrightarrow> length es' = length es \<Longrightarrow> tail_ok (drop p es') \<Longrightarrow> Q (off, s')"
  shows "ends (it_next (fwd Enum p) s) (alloc_end off Q)"
proof (cases "p < length es")
  case True
  show ?thesis
  proof (rule next_fwd_hit [OF d True])
    fix s' assume s': "dir_ok G h es s'"
    let ?es = "es[p := unused_and_last_entry]"
    have "tail_ok (drop p ?es)" using True by (simp add: tail_ok_def hd_drop_conv_nth)
    then have "Q (off, with_hint (of_nat (32 * p)) t)" if "dir_ok G h ?es t" for t
      using Q [OF hint_ok [OF that p(2)]] True by simp
    then show "alloc_end off Q (Some (es ! p), fwd Enum (Suc p), s')" unfolding alloc_end_def prod.case option.case fwd_simps(3)
      by (intro write_cur [OF s' True]) (simp_all only: length_marks fwd_simps(3), blast)
  qed (simp_all add: check_dir_ent_legality_def)
next
  case False
  then have e: "p = length es" using p(1) by simp
  show ?thesis
  proof (rule next_fwd_end [OF d])
    fix s' assume s': "dir_ok G h es s'"
    show "alloc_end off Q (None, fwd Enum p, s')" unfolding alloc_end_def prod.case option.case size_word [OF s']
      using Q [OF hint_ok [OF s' p(2)]] e by (simp add: tail_ok_def)
  qed (use e in simp)
qed

lemma alloc_ent_loop_ok:
  assumes "dir_ok G h es s" and "G = (S, D, N, B)" and "j < n" and "k + j \<le> length es" and "32 * (k + n) \<le> N"
    and Q: "\<And>es' s'. dir_ok G (32 * (k + n)) es' s' \<Longrightarrow> take k es' = take k es \<Longrightarrow> k + n \<le> length es' \<Longrightarrow> tail_ok (drop (k + n) es')
      \<Longrightarrow> (k + n \<le> length es \<Longrightarrow> length es' = length es) \<Longrightarrow> Q (of_nat (32 * (k + n - 1)), s')"
  shows "ends (alloc_ent_loop n j (fwd Enum (k + j)) s) Q"
  using assms(1,3,4) Q
proof (induction "n - j" arbitrary: j es s rule: less_induct)
  case less
  have "N < 2 ^ 32" using assms(1,2) by (auto simp: dir_ok_def inode_room_def)
  then have lt: "32 * (k + n) < 2 ^ 32" using assms(5) by linarith
  have hit: "ends (alloc_ent_loop n j (fwd Enum (k + j)) t) Q" if d: "dir_ok G h xs t" and l: "k + j < length xs" and x: "take k xs = take k es" "k + n \<le> length es \<Longrightarrow> length xs = length es" for xs t
  proof (rule alloc_loop_next, rule next_fwd_hit [OF d l])
    fix t1 assume t1: "dir_ok G h xs t1"
    show "alloc_then n j Q (Some (xs ! (k + j)), fwd Enum (Suc (k + j)), t1)"
    proof (cases "n \<le> j + 1")
      case True
      then have n: "n = Suc j" "Suc (k + j) = k + n" "k + j = k + n - 1" using less.prems(2) by simp_all
      have tk: "take k ys = take k es" if "take (k + n) ys = take (k + n) xs" for ys
        using that x(1) by (metis le_add1 min.absorb1 take_take)
      have "ends (it_next (fwd Enum (k + n)) t1) (alloc_end (of_nat (32 * (k + n - 1))) Q)"
        by (rule alloc_end_ok [OF t1 _ lt]) (use l n(2) less.prems(4) tk x(2) in auto)
      moreover have "it_offset (fwd Enum (k + n)) = Some (of_nat (32 * (k + n - 1)))" using fwd_simps(3) [of Enum "k + n - 1"] n(1) by simp
      ultimately show ?thesis using True unfolding alloc_then_def prod.case option.case n(2) by (simp only: if_True) blast
    next
      case False
      have "ends (alloc_ent_loop n (j + 1) (fwd Enum (k + (j + 1))) t1) Q"
        by (rule less.hyps [OF _ t1]) (use False l less.prems(4) x in auto)
      then show ?thesis using False unfolding alloc_then_def by simp
    qed
  qed (simp_all add: check_dir_ent_legality_def)
  show ?case
  proof (cases "k + j < length es")
    case True
    then show ?thesis by (rule hit [OF less.prems(1)]) simp_all
  next
    case False
    then have e: "k + j = length es" using less.prems(3) by simp
    have "length es < k + n" using e less.prems(2) by simp
    then have "32 * length es < 32 * (k + n)" by simp
    then have small: "32 * length es < N" using assms(5) by (rule less_le_trans)
    show ?thesis
    proof (rule alloc_loop_next, rule next_fwd_end [OF less.prems(1)])
      fix t assume t: "dir_ok G h es t"
      have "ends (expand_dir_size t) (\<lambda>s. ends (alloc_ent_loop n j (fwd Enum (k + j)) s) Q)"
        by (rule ends_mono [OF expand_ok [OF t assms(2) small]], elim exE conjE, rule hit, assumption) (use e less.prems(2) in auto)
      then show "alloc_then n j Q (None, fwd Enum (k + j), t)" unfolding alloc_then_def by simp
    qed (use e in simp)
  qed
qed

lemma start_at_hint:
  assumes "32 * k < 2 ^ 32"
  shows "set_iter_offset (of_nat (32 * k)) (fwd Enum 0) = fwd Enum k"
proof (cases k)
  case (Suc n)
  have "(of_nat (32 * k) :: u32) \<noteq> 0" using unat32 [OF assms] Suc by auto
  then show ?thesis by (simp add: set_iter_offset_def fwd_def STEP_SIZE_def Suc)
qed (simp add: set_iter_offset_def fwd_def)

lemma write_longs_ok:
  assumes "dir_ok G h es s" and "length ls \<le> p" and "p \<le> length es" and "\<forall>l \<in> set ls. long_ok l"
  shows "ends (write_long_ents ls (bwd Enum p) s)
    (\<lambda>s'. dir_ok G h (take (p - length ls) es @ map long_bytes (rev ls) @ drop p es) s')"
  using assms
proof (induction ls arbitrary: p es s)
  case (Cons l ls)
  obtain q where p: "p = Suc q" using Cons.prems(2) by (cases p) auto
  have q: "q < length es" using Cons.prems(3) p by simp
  show ?case
  proof (simp add: p, rule next_bwd [OF Cons.prems(1) q], goal_cases)
    case (2 s1)
    show ?case
    proof (simp, rule write_cur [OF 2 q], goal_cases)
      case (3 s2)
      have "ends (write_long_ents ls (bwd Enum q) s2)
        (\<lambda>s'. dir_ok G h (take (q - length ls) (es[q := long_bytes l]) @ map long_bytes (rev ls) @ drop q (es[q := long_bytes l])) s')"
        by (rule Cons.IH [OF 3]) (use Cons.prems p in auto)
      moreover have "drop q (es[q := long_bytes l]) = long_bytes l # drop (Suc q) es" using q
        by (simp add: drop_update_swap flip: Cons_nth_drop_Suc)
      ultimately show ?case using q by (simp add: p)
    qed (use Cons.prems(4) length_long_bytes in auto)
  qed (simp add: check_dir_ent_legality_def)
qed simp

lemma create_dir_ent_ok:
  assumes "dir_ok G (32 * length (all_ents gs)) (all_ents gs @ rest) s" and "G = (S, D, N, B)" and "slot_ok (Filed ls sh)"
    and "32 * (length (all_ents gs) + length ls + 1) \<le> N"
    and Q: "\<And>rest' s'. dir_ok G (32 * length (all_ents (gs @ [Filed ls sh]))) (all_ents (gs @ [Filed ls sh]) @ rest') s' \<Longrightarrow> tail_ok rest'
      \<Longrightarrow> (length (all_ents (gs @ [Filed ls sh])) \<le> length (all_ents gs @ rest) \<Longrightarrow>
        length (all_ents (gs @ [Filed ls sh]) @ rest') = length (all_ents gs @ rest)) \<Longrightarrow> Q (of_nat (32 * (length (all_ents gs) + length ls)), s')"
  shows "ends (create_dir_ent sh ls s) Q"
proof -
  let ?k = "length (all_ents gs)" and ?n = "1 + length ls"
  let ?p = "?k + length ls"
  have hint: "get_hint s = of_nat (32 * ?k)" "32 * ?k < 2 ^ 32" using assms(1) by (simp_all add: dir_ok_def)
  have sh: "length (short_bytes sh) = 32" using assms(3) length_short_bytes by simp
  have longs: "\<forall>l \<in> set ls. long_ok l" using assms(3) by (auto simp: in_set_conv_nth)
  have p2: "?k + ?n - 1 = ?p" by simp
  have "ends (alloc_ent_loop ?n 0 (fwd Enum (?k + 0)) s) (\<lambda>(off, s). ends (do {
     let it = DirIter_new (Some off) Enum BACKWARD;
     s \<leftarrow> write_to_current_ent (short_bytes sh) it s;
     s \<leftarrow> write_long_ents ls it s;
     ret (off, s) }) Q)"
  proof (rule alloc_ent_loop_ok [OF assms(1,2)], unfold p2 prod.case Let_def BACKWARD_def bwd_simps ends_bind)
    fix es' s1 assume a: "dir_ok G (32 * (?k + ?n)) es' s1" "take ?k es' = take ?k (all_ents gs @ rest)" "?k + ?n \<le> length es'" "tail_ok (drop (?k + ?n) es')"
      "?k + ?n \<le> length (all_ents gs @ rest) \<Longrightarrow> length es' = length (all_ents gs @ rest)"
    have p: "?p < length es'" using a(3) by simp
    let ?es = "es'[?p := short_bytes sh]"
    show "ends (write_to_current_ent (short_bytes sh) (bwd Enum ?p) s1)
      (\<lambda>s. ends (write_long_ents ls (bwd Enum ?p) s) (\<lambda>s. ends (ret (of_nat (32 * ?p), s)) Q))"
    proof (rule write_cur [OF a(1) p sh bwd_simps(3)])
      fix s2 assume s2: "dir_ok G (32 * (?k + ?n)) ?es s2"
      have "take ?k ?es = all_ents gs" using a(2) by simp
      moreover have "drop ?p ?es = short_bytes sh # drop (?k + ?n) es'" using p by (simp add: drop_update_swap flip: Cons_nth_drop_Suc)
      ultimately have eq: "take (?p - length ls) ?es @ map long_bytes (rev ls) @ drop ?p ?es
          = all_ents (gs @ [Filed ls sh]) @ drop (?k + ?n) es'" by simp
      have "ends (write_long_ents ls (bwd Enum ?p) s2) (\<lambda>s'. dir_ok G (32 * (?k + ?n)) (all_ents (gs @ [Filed ls sh]) @ drop (?k + ?n) es') s')"
        using write_longs_ok [OF s2, of ls ?p] longs p unfolding eq by simp
      then show "ends (write_long_ents ls (bwd Enum ?p) s2) (\<lambda>s. ends (ret (of_nat (32 * ?p), s)) Q)"
        by (rule ends_mono) (use a(3-5) Q in simp)
    qed
  qed (use assms(4) in simp_all)
  then show ?thesis unfolding create_dir_ent_def alloc_dir_ent_def ends_bind
    by (simp only: hint(1) FORWARD_def fwd_simps(6) start_at_hint [OF hint(2)] ends_case add_0_right)
qed

end
