(* ===== verification/Dir_Delete.thy ===== *)
theory Dir_Delete
  imports Dir_Update
begin

text \<open>
  The end of \<^verbatim>\<open>delete_dir_ent\<close>: setting the size of a directory that keeps its clusters.  The code goes the
  way of a shrinking file with nothing to free: the last cluster is marked as the end of the chain
  again and the page caches beyond the size are dropped.
\<close>

section \<open>Nothing to free\<close>

lemma free_none_ok:
  assumes ok: "inode_ok S D (ino, efs, st)"
  shows "\<exists>st'. efs_free [] (last_opt (ino_clusters ino)) (efs, st) = Some (efs, st') \<and> inode_ok S D (ino, efs, st')
    \<and> file_data (ino, efs, st') = file_data (ino, efs, st) \<and> free_count (efs, st') = free_count (efs, st)"
proof -
  note io = inode_okD [OF ok] and t = table_okD [OF inode_okD(1) [OF ok]]
  let ?fat = "efs_fat efs" and ?V = "fat_view (efs_fat efs) st" and ?cl = "ino_clusters ino"
  define prev where "prev = map_option unat (last_opt ?cl)"
  have dc: "data_clusters efs ?cl" using io(2) by (rule file_okD)
  have prev: "\<forall>l \<in> set_option prev. l < tot_ent ?fat \<and> 2 \<le> l \<and> ?V l \<noteq> 0"
    using dc io(4) last_in_set [of ?cl] by (auto simp: prev_def last_opt_def data_clusters_def)
  have prev': "map_option of_nat prev = last_opt ?cl" by (cases "last_opt ?cl") (simp_all add: prev_def)
  obtain st' where st': "set_next_clus ?fat (last_opt ?cl) EOC st = Some st'" "fat_ok S D st'" "fat_view ?fat st' = link ?V prev EOC"
    using set_next_opt_ok [OF t(2,3), of prev EOC] prev unfolding prev' EOC_and by blast
  let ?W = "link ?V prev EOC"
  have eoc: "EOC \<noteq> 0" by (simp add: EOC_def)
  have zero: "?W k = 0 \<longleftrightarrow> ?V k = 0" for k using prev eoc by (auto simp: link_def split: option.splits)
  have chn: "?cl = [] \<or> chain ?W (map unat ?cl)"
  proof (cases "?cl = []")
    case False
    have "distinct (map unat ?cl @ [])" using dc by (simp add: data_clusters_def distinct_map inj_on_def unat_eqD)
    moreover have "prev = Some (last (map unat ?cl))" using False by (simp add: prev_def last_opt_def last_map)
    ultimately show ?thesis using False io(3) chain_append [of "map unat ?cl" ?V "[]"] by (simp add: link_chain_def)
  qed simp
  have data: "snd st' b = snd st b \<and> length (snd st' b) = 512" if "b \<notin> S" "b \<noteq> USIZE_MAX" for b
  proof -
    have "b \<notin> cached_ids (fst st')" using st'(2) that by (auto simp: fat_ok_def)
    moreover have "length (cache_blocks st' b) = 512" using st'(2) that(2) by (simp add: fat_ok_def BUFFER_SIZE_def)
    ultimately have "length (snd st' b) = 512" using not_cached_blocks [of b st'] that(2) by simp
    then show ?thesis using st'(2) t(3) that by (simp add: fat_ok_def)
  qed
  have dc2: "data_clusters efs (?cl @ [])" using dc by simp
  note grow = file_ok_grow [OF t(1) io(2) dc2, of "snd st'", OF data]
  have same: "file_ok efs ?cl (snd st') (file_cache_mgr ino)"
    "c < file_pages efs ?cl \<Longrightarrow> file_page efs ?cl (snd st') (file_cache_mgr ino) c = file_page efs ?cl (snd st) (file_cache_mgr ino) c" for c
    using grow by simp_all
  have "table_ok S D (efs, st')" using t st'(2,3) zero by (simp add: table_ok_def Let_def)
  then have ok': "inode_ok S D (ino, efs, st')" using same(1) chn io(4,5) st'(3) zero by (simp add: inode_ok_def Let_def)
  have "byte_at (file_page efs ?cl (snd st') (file_cache_mgr ino)) i = byte_at (file_page efs ?cl (snd st) (file_cache_mgr ino)) i"
    if "i < unat (get_file_size ino)" for i
    using same(2) [of "i div 4096"] size_in_pages [OF ok] that page_lt [of i "unat (get_file_size ino)"] by (simp add: byte_at_def)
  then have "file_data (ino, efs, st') = file_data (ino, efs, st)" by (simp add: file_data_def)
  moreover have "free_count (efs, st') = free_count (efs, st)" using st'(3) zero by (simp add: free_count_def free_clusters_def)
  moreover have "efs_free [] (last_opt ?cl) (efs, st) = Some (efs, st')" using st'(1) by (simp add: efs_free_def fat_free_def)
  ultimately show ?thesis using ok' by blast
qed

lemma notify_same:
  assumes f: "file_ok efs cl d m"
  shows "\<exists>m'. notify_new_size (4096 * file_pages efs cl) m = Some m' \<and> file_ok efs cl d m' \<and> file_page efs cl d m' = file_page efs cl d m"
proof -
  note fd = file_okD [OF f]
  let ?n = "file_pages efs cl"
  let ?m = "m\<lparr>pcm_pool := take ?n (pcm_pool m), allocated_cache := filter (\<lambda>cid. cid < ?n) (allocated_cache m)\<rparr>"
  have n: "(4096 * ?n + 4096 - 1) div 4096 = ?n" by simp
  have sl: "slot (pcm_pool ?m) c = slot (pcm_pool m) c" for c using fd(3) [of c] by (fastforce simp: slot_def)
  have none: "c = None" if "c \<in> set (drop ?n (pcm_pool m))" for c
  proof -
    obtain i where i: "i < length (pcm_pool m) - ?n" "c = drop ?n (pcm_pool m) ! i" using \<open>c \<in> _\<close> by (auto simp: in_set_conv_nth)
    then have "?n + i < length (pcm_pool m)" by linarith
    then have "slot (pcm_pool m) (?n + i) = c" using i(2) by (simp add: slot_def)
    then show ?thesis using fd(3) [of "?n + i"] by (cases c) auto
  qed
  have run: "notify_new_size (4096 * ?n) m = Some ?m"
    using none unfolding notify_new_size_def Let_def n by (fastforce simp: rust_assert_def)
  have "pcm_invar (page_secs efs cl) d ?m"
    using fd(2,3) unfolding pcm_invar_def slots_ok_def sl by auto
  then have "file_ok efs cl d ?m" using f unfolding file_ok_def sl by simp
  moreover have "file_page efs cl d ?m = file_page efs cl d m"
    unfolding file_page_def page_view_def sl by simp
  ultimately show ?thesis using run by blast
qed

lemma resize_same_ok:
  assumes ok: "inode_ok S D s" and full: "unat (get_file_size (fst s)) = 4096 * file_pages (fst (snd s)) (ino_clusters (fst s))"
  shows "\<exists>s'. modify_size_lock 0 False s = Some s' \<and> inode_ok S D s' \<and> file_data s' = file_data s \<and> quota s' = quota s
    \<and> clus_bytes (fst (snd s')) = clus_bytes (fst (snd s))"
proof -
  obtain ino efs st where s: "s = (ino, efs, st)" by (cases s) auto
  let ?cl = "ino_clusters ino"
  have g: "efs_geom S efs" using ok inode_okD(1) table_okD(1) unfolding s by blast
  obtain st' where st': "efs_free [] (last_opt ?cl) (efs, st) = Some (efs, st')" "inode_ok S D (ino, efs, st')"
    "file_data (ino, efs, st') = file_data (ino, efs, st)" "free_count (efs, st') = free_count (efs, st)"
    using free_none_ok [OF ok [unfolded s]] by blast
  obtain m where m: "notify_new_size (4096 * file_pages efs ?cl) (file_cache_mgr ino) = Some m" "file_ok efs ?cl (snd st') m"
    "file_page efs ?cl (snd st') m = file_page efs ?cl (snd st') (file_cache_mgr ino)"
    using notify_same [OF inode_okD(2) [OF st'(2)]] by blast
  have keep: "ino\<lparr>file_content := (file_content ino)\<lparr>fc_clus_list := ?cl\<rparr>\<rparr> = ino" by simp
  have size: "(of_int (uint (get_file_size ino)) :: u32) = get_file_size ino" by simp
  have "modify_size_lock 0 False (ino, efs, st) = Some (ino\<lparr>file_cache_mgr := m\<rparr>, efs, st')"
    using m(1) full st'(1)
    by (simp add: modify_size_lock_def total_clus_eq [OF g] dealloc_clus_def Let_def s) (simp add: get_file_size_def)
  moreover have "inode_ok S D (ino\<lparr>file_cache_mgr := m\<rparr>, efs, st')" using st'(2) m(2) by (simp add: inode_ok_def Let_def get_file_size_def)
  moreover have "file_data (ino\<lparr>file_cache_mgr := m\<rparr>, efs, st') = file_data s" using st'(3) m(3) by (simp add: file_data_def s get_file_size_def)
  moreover have "quota (ino\<lparr>file_cache_mgr := m\<rparr>, efs, st') = quota s" using st'(4) by (simp add: quota_def s)
  ultimately show ?thesis unfolding s by (intro exI [of _ "(ino\<lparr>file_cache_mgr := m\<rparr>, efs, st')"]) simp
qed

section \<open>The new size\<close>

lemma clus_size_unat:
  assumes "efs_geom S efs"
  shows "unat (efs_clus_size efs) = clus_bytes efs"
proof -
  have "unat (sec_per_clus efs) < 256" using unsigned_less [of "sec_per_clus efs"] by simp
  moreover have "unat (ucast (efs_byts_per_sec efs) :: u32) = 512" using assms by (simp add: efs_geom_def)
  ultimately show ?thesis by (simp add: efs_clus_size_def clus_bytes_def unat_word_ariths(2))
qed

lemma ceil_div_mult: "0 < b \<Longrightarrow> ceil_div (b * a) b = a"
proof -
  assume b: "0 < b"
  then have "b * a + b - 1 = (b - 1) + b * a" by simp
  moreover have "((b - 1) + b * a) div b = a" using b by (subst div_mult_self2) simp_all
  ultimately show ?thesis by (simp only: ceil_div_def)
qed

lemma div_ceil32_unat:
  assumes "b \<noteq> 0"
  shows "unat (div_ceil32 a b) = ceil_div (unat a) (unat b)"
proof -
  have b: "0 < unat b" using assms by (simp add: unat_gt_0)
  have split: "unat a = unat b * (unat a div unat b) + unat a mod unat b" by simp
  have mod_lt: "unat a mod unat b < unat b" using b by simp
  define q r where "q = unat a div unat b" and "r = unat a mod unat b"
  have qr: "unat a = unat b * q + r" "r < unat b" using split mod_lt by (simp_all add: q_def r_def)
  have zero: "a mod b = 0 \<longleftrightarrow> r = 0" by (simp add: r_def unat_mod flip: unat_eq_0)
  have c: "ceil_div (unat a) (unat b) = (if r = 0 then q else q + 1)"
  proof (cases "r = 0")
    case True
    then show ?thesis using ceil_div_mult [OF b, of q] qr by simp
  next
    case False
    then have "unat a + unat b - 1 = unat b * (q + 1) + (r - 1)" using qr by (simp add: algebra_simps)
    moreover have "(unat b * (q + 1) + (r - 1)) div unat b = q + 1" using qr(2) b by (subst div_mult_self4) simp_all
    ultimately show ?thesis using False by (simp add: ceil_div_def)
  qed
  have "unat (a div b) = q" by (simp add: q_def unat_div)
  moreover have "unat (a div b + 1) = q + 1" if "r \<noteq> 0"
  proof -
    have "q + 1 \<le> unat a" using qr b that by (cases "unat b") auto
    moreover have "unat a < 2 ^ 32" using unsigned_less [of a] by simp
    ultimately have "q + 1 < 2 ^ 32" by linarith
    then show ?thesis by (simp add: q_def unat_word_ariths(1) unat_div)
  qed
  ultimately show ?thesis using c zero by (simp add: div_ceil32_def)
qed

lemma shrink_ok:
  assumes d: "dir_ok G h es s" and G: "G = (S, D, N, B)" and keep: "max (ceil_div h B * B) B = 32 * length es"
    and Q: "\<And>s'. dir_ok G h es s' \<Longrightarrow> Q s'"
  shows "ends (shrink_dir_size s) Q"
proof -
  obtain ino efs st where s: "s = (ino, efs, st)" by (cases s) auto
  have r: "inode_ok S D s" "clus_bytes efs = B" "get_hint s = of_nat h" "h < 2 ^ 32" "B dvd 32 * length es"
    using d by (auto simp: dir_ok_def G inode_room_def s)
  have g: "efs_geom S efs" using r(1) inode_okD(1) table_okD(1) unfolding s by blast
  note sz = dir_size [OF d]
  let ?cs = "efs_clus_size efs"
  have cs: "unat ?cs = B" "0 < B" using clus_size_unat [OF g] clus_bytes_pos [OF g] r(2) by simp_all
  then have nz: "?cs \<noteq> 0" by auto
  have "ceil_div h B * B < 2 ^ 32" using keep sz(2) by linarith
  then have u: "unat (div_ceil32 (get_hint s) ?cs * ?cs) = ceil_div h B * B"
    using div_ceil32_unat [OF nz, of "of_nat h"] unat32 [OF r(4)] cs(1) by (simp add: r(3) unat_word_ariths(2))
  have mx: "unat (max x y) = max (unat x) (unat y)" for x y :: u32 by (simp add: max_def word_le_nat_alt)
  have "unat (max (div_ceil32 (get_hint s) ?cs * ?cs) ?cs) = unat (get_file_size ino)"
    unfolding mx u cs(1) keep using sz(1) by (simp add: s)
  then have new: "max (div_ceil32 (get_hint s) ?cs * ?cs) ?cs = get_file_size ino" by (rule unat_eqD)
  have "length (ino_clusters ino) * B = 32 * length es"
    using inode_okD(5) [of S D ino efs st] r(1,2,5) sz(1) ceil_div_mult [OF cs(2)] by (auto simp: s elim!: dvdE)
  then have full: "unat (get_file_size (fst s)) = 4096 * file_pages (fst (snd s)) (ino_clusters (fst s))"
    using pages_of_clusters [OF g, of "ino_clusters ino"] sz(1) r(2) by (simp add: s)
  obtain s' where s': "modify_size_lock 0 False s = Some s'" "inode_ok S D s'" "file_data s' = file_data s" "quota s' = quota s"
    "clus_bytes (fst (snd s')) = clus_bytes (fst (snd s))" using resize_same_ok [OF r(1) full] by blast
  have "dir_ok G h es s'" using d s'(2-) size_frame [OF s'(1)] unfolding dir_ok_def G inode_room_def inode_is_dir_def by auto
  then show ?thesis using Q s'(1) nz new by (simp add: shrink_dir_size_def Let_def rust_assert_def s)
qed

section \<open>Removing the entries of a file\<close>

lemma current_ok:
  assumes d: "dir_ok G h es s" and i: "i < length es" and Q: "\<And>s'. dir_ok G h es s' \<Longrightarrow> Q (Some (es ! i), s')"
  shows "ends (current_clone (bwd m i) s) Q"
proof -
  have "\<not> get_file_size (fst s) \<le> of_nat (32 * i)" using size_le [OF d, of i] i by simp
  then have lt: "of_nat (32 * i) < get_file_size (fst s)" by simp
  show ?thesis unfolding current_clone_def bwd_simps(3) option.case if_P [OF lt] ends_bind
    by (rule ends_mono [OF read_ent_ok [OF d i]]) (use Q in auto)
qed

lemma remove_loop_step:
  assumes d: "dir_ok G h es s" and i: "i < length es" and long: "is_long (es ! i)"
    and go: "\<And>s'. dir_ok G h (es[i := unused_not_last_entry]) s' \<Longrightarrow> ends (it_next (bwd Used i) s')
      (\<lambda>(_, it, s). if is_last_long_dir_ent (es ! i) then Q (True, s) else ends (remove_long_loop it s) Q)"
  shows "ends (remove_long_loop (bwd Used i) s) Q"
proof (subst remove_long_loop.simps, simp only: ends_bind, rule current_ok [OF d i], goal_cases)
  case (1 s')
  have "ends (write_to_current_ent unused_not_last_entry (bwd Used i) s') (\<lambda>s. ends (it_next (bwd Used i) s)
      (\<lambda>(_, it, s). if is_last_long_dir_ent (es ! i) then Q (True, s) else ends (remove_long_loop it s) Q))"
    by (rule write_cur [OF 1 i _ _ go]) simp_all
  then show ?case using long by (auto elim!: ends_mono split: if_splits)
qed

definition longs_ok :: "FATLongDirEnt list \<Rightarrow> bool" where
  "longs_ok ls \<longleftrightarrow> (\<forall>i < length ls. long_ok (ls ! i) \<and> is_long (long_bytes (ls ! i)) \<and> \<not> ent_unused (long_bytes (ls ! i))
    \<and> is_last_long_dir_ent (long_bytes (ls ! i)) = (i + 1 = length ls))"

lemma longs_ok_Cons: "longs_ok (l # ls) \<Longrightarrow> long_ok l \<and> is_long (long_bytes l) \<and> \<not> ent_unused (long_bytes l)
    \<and> is_last_long_dir_ent (long_bytes l) = (ls = []) \<and> longs_ok ls"
  unfolding longs_ok_def by (auto simp: All_less_Suc2)

lemma legal_used [simp]: "check_dir_ent_legality Used e = (\<not> ent_unused e)"
  by (simp add: check_dir_ent_legality_def)

lemma remove_longs_ok:
  assumes "ls \<noteq> []" and "longs_ok ls" and "dir_ok G h (A @ map long_bytes (rev ls) @ R) s"
    and "\<And>s'. dir_ok G h (A @ replicate (length ls) unused_not_last_entry @ R) s' \<Longrightarrow> Q (True, s')"
  shows "ends (remove_long_loop (bwd Used (length A + length ls - 1)) s) Q"
  using assms
proof (induction ls arbitrary: R s)
  case (Cons l ls)
  let ?U = unused_not_last_entry
  let ?es = "A @ map long_bytes (rev (l # ls)) @ R" and ?i = "length A + length ls"
  note l = longs_ok_Cons [OF Cons.prems(2)]
  have at: "?es ! ?i = long_bytes l" "?i < length ?es" by (simp_all add: nth_append)
  have upd: "?es[?i := ?U] = A @ map long_bytes (rev ls) @ ?U # R" by (simp add: list_update_append)
  have "ends (remove_long_loop (bwd Used ?i) s) Q"
  proof (rule remove_loop_step [OF Cons.prems(3) at(2)], unfold at(1) upd)
    fix s' assume s': "dir_ok G h (A @ map long_bytes (rev ls) @ ?U # R) s'"
    show "ends (it_next (bwd Used ?i) s') (\<lambda>(_, it, s). if is_last_long_dir_ent (long_bytes l) then Q (True, s) else ends (remove_long_loop it s) Q)"
    proof (cases "ls = []")
      case True
      then show ?thesis using l Cons.prems(4) by (intro ends_mono [OF next_bwd_total [OF s']]) auto
    next
      case False
      then obtain l2 ls2 where ls: "ls = l2 # ls2" by (cases ls) auto
      let ?es2 = "A @ map long_bytes (rev ls) @ ?U # R"
      define q where "q = length A + length ls - 1"
      have i: "?i = Suc q" using ls by (simp add: q_def)
      have at2: "?es2 ! q = long_bytes l2" "q < length ?es2" by (simp_all add: ls nth_append q_def)
      have l2: "\<not> ent_unused (long_bytes l2)" using longs_ok_Cons [of l2 ls2] l ls by simp
      show ?thesis unfolding i
      proof (rule next_bwd [OF s' at2(2)], unfold at2(1))
        fix t assume t: "dir_ok G h ?es2 t"
        have rem: "ends (remove_long_loop (bwd Used q) t) Q" unfolding q_def
          by (rule Cons.IH [OF False _ t]) (use l Cons.prems(4) in \<open>simp_all add: replicate_app_Cons_same\<close>)
        then show "case (Some (long_bytes l2), bwd Used q, t) of (_, it, s) \<Rightarrow>
          if is_last_long_dir_ent (long_bytes l) then Q (True, s) else ends (remove_long_loop it s) Q" using l False by simp
      qed (use l2 in simp)
    qed
  qed (use l in simp)
  then show ?case by simp
qed simp

section \<open>Cutting off holes\<close>

fun is_hole :: "dslot \<Rightarrow> bool" where
  "is_hole (Hole _) = True"
| "is_hole (Filed _ _) = False"

definition trim :: "dslot list \<Rightarrow> dslot list" where
  "trim gs = rev (dropWhile is_hole (rev gs))"

lemma trim_simps [simp]: "trim [] = []" "trim (gs @ [Hole e]) = trim gs" "trim (gs @ [Filed ls sh]) = gs @ [Filed ls sh]"
  by (simp_all add: trim_def)

lemma trim_loop_next:
  "ends (it_next it s) (\<lambda>(r, it, s). case r of None \<Rightarrow> Q (with_hint 0 s)
     | Some ent \<Rightarrow> if ent_unused ent then \<exists>off. it_offset it = Some off \<and>
           ends (write_to_current_ent unused_and_last_entry it (with_hint off s)) (\<lambda>s. ends (trim_loop it s) Q)
         else Q s) \<Longrightarrow> ends (trim_loop it s) Q"
proof (subst trim_loop.simps, simp only: ends_bind, erule ends_mono, goal_cases)
  case (1 x)
  obtain r it s where x: "x = (r, it, s)" by (rule prod_cases3)
  then show ?case using 1 by (cases r) (auto split: if_splits)
qed

lemma trim_ok:
  assumes "dir_ok G (32 * length (all_ents gs)) (all_ents gs @ rest) s" and "\<forall>g \<in> set gs. slot_ok g" and "tail_ok rest"
    and "\<And>rest' s'. dir_ok G (32 * length (all_ents (trim gs))) (all_ents (trim gs) @ rest') s' \<Longrightarrow> tail_ok rest'
      \<Longrightarrow> length (all_ents (trim gs) @ rest') = length (all_ents gs @ rest) \<Longrightarrow> Q s'"
  shows "ends (trim_loop (bwd Enum (length (all_ents gs))) s) Q"
  using assms
proof (induction gs arbitrary: rest s rule: rev_induct)
  case Nil
  have "Q (with_hint 0 s)" using hint_ok [OF Nil.prems(1), of 0] Nil.prems(3,4) by simp
  then show ?case by (intro trim_loop_next, simp) (rule next_bwd_end, simp)
next
  case (snoc g gs)
  let ?es = "all_ents (gs @ [g]) @ rest"
  show ?case
  proof (cases g)
    case (Hole e)
    let ?k = "length (all_ents gs)"
    have at: "?es ! ?k = e" "?k < length ?es" "?es[?k := unused_and_last_entry] = all_ents gs @ unused_and_last_entry # rest"
      "length (all_ents (gs @ [g])) = Suc ?k"
      by (simp_all add: Hole nth_append list_update_append)
    have un: "ent_unused e" using snoc.prems(2) by (simp add: Hole ent_unused_def)
    have lt: "32 * ?k < 2 ^ 32" using dir_size(2) [OF snoc.prems(1)] at(2) by linarith
    show ?thesis unfolding at(4)
    proof (rule trim_loop_next, rule next_bwd [OF snoc.prems(1) at(2)], unfold at(1) prod.case option.case if_P [OF un] bwd_simps(3))
      fix t assume t: "dir_ok G (32 * length (all_ents (gs @ [g]))) ?es t"
      have "ends (write_to_current_ent unused_and_last_entry (bwd Enum ?k) (with_hint (of_nat (32 * ?k)) t)) (\<lambda>s. ends (trim_loop (bwd Enum ?k) s) Q)"
      proof (rule write_cur [OF hint_ok [OF t lt] at(2)], unfold at(3))
        fix t2 assume t2: "dir_ok G (32 * ?k) (all_ents gs @ unused_and_last_entry # rest) t2"
        show "ends (trim_loop (bwd Enum ?k) t2) Q"
          by (rule snoc.IH [OF t2]) (use snoc.prems(2,4) in \<open>simp_all add: Hole tail_ok_def\<close>)
      qed simp_all
      then show "\<exists>off. Some (of_nat (32 * ?k)) = Some off
        \<and> ends (write_to_current_ent unused_and_last_entry (bwd Enum ?k) (with_hint off t)) (\<lambda>s. ends (trim_loop (bwd Enum ?k) s) Q)" by blast
    qed (simp add: check_dir_ent_legality_def)
  next
    case (Filed ls sh)
    let ?k = "length (all_ents gs) + length ls"
    have at: "?es ! ?k = short_bytes sh" "?k < length ?es" "length (all_ents (gs @ [g])) = Suc ?k"
      by (simp_all add: Filed nth_append)
    have un: "\<not> ent_unused (short_bytes sh)" using snoc.prems(2) by (simp add: Filed)
    show ?thesis unfolding at(3)
      by (rule trim_loop_next, rule next_bwd [OF snoc.prems(1) at(2)], unfold at(1))
        (use un snoc.prems(3,4) in \<open>simp_all add: Filed check_dir_ent_legality_def\<close>)
  qed
qed

section \<open>Deleting a file\<close>

definition holes :: "nat \<Rightarrow> dslot list" where
  "holes n = replicate n (Hole unused_not_last_entry)"

lemma all_ents_holes [simp]: "all_ents (holes n) = replicate n unused_not_last_entry"
  by (induction n) (simp_all add: holes_def)

lemma slot_ok_holes: "\<forall>g \<in> set (holes n). slot_ok g"
  by (simp add: holes_def)

lemma slot_longs_ok: "slot_ok (Filed ls sh) \<Longrightarrow> longs_ok ls"
  by (simp add: longs_ok_def)

lemma delete_dir_ent_ok:
  assumes d: "dir_ok G (32 * length (all_ents gs)) (all_ents gs @ rest) s" and G: "G = (S, D, N, B)"
    and gs: "gs = X @ Filed ls sh # Y" "\<forall>g \<in> set gs. slot_ok g" and tail: "tail_ok rest" and ls: "ls \<noteq> []"
    and gs': "gs' = trim (X @ holes (Suc (length ls)) @ Y)"
    and keep: "max (ceil_div (32 * length (all_ents gs')) B * B) B = 32 * length (all_ents gs @ rest)"
    and Q: "\<And>rest' s'. dir_ok G (32 * length (all_ents gs')) (all_ents gs' @ rest') s' \<Longrightarrow> tail_ok rest'
      \<Longrightarrow> length (all_ents gs' @ rest') = length (all_ents gs @ rest) \<Longrightarrow> Q (True, s')"
  shows "ends (delete_dir_ent (of_nat (32 * (length (all_ents X) + length ls))) s) Q"
proof -
  let ?U = unused_not_last_entry
  let ?es = "all_ents gs @ rest" and ?A = "all_ents X"
  let ?p = "length ?A + length ls" and ?R = "?U # all_ents Y @ rest"
  let ?es1 = "?A @ map long_bytes (rev ls) @ ?R" and ?gs2 = "X @ holes (Suc (length ls)) @ Y"
  obtain l ls2 where l: "ls = l # ls2" using ls by (cases ls) auto
  have "slot_ok (Filed ls sh)" using gs(2) unfolding gs(1) by (simp del: slot_ok.simps)
  then have ok: "longs_ok ls" by (rule slot_longs_ok)
  then have ll: "is_long (long_bytes l)" "\<not> ent_unused (long_bytes l)" using longs_ok_Cons [of l ls2] l by simp_all
  define q where "q = ?p - 1"
  have p: "?p < length ?es" "?es[?p := ?U] = ?es1" "?p = Suc q" "q < length ?es1" "?es1 ! q = long_bytes l"
    by (simp_all add: gs(1) l q_def nth_append list_update_append)
  have es2: "?A @ replicate (length ls) ?U @ ?R = all_ents ?gs2 @ rest" by (simp add: replicate_app_Cons_same)
  have len2: "length (all_ents ?gs2) = length (all_ents gs)" by (simp add: gs(1))
  have ok2: "\<forall>g \<in> set ?gs2. slot_ok g" using gs slot_ok_holes by auto
  have finish: "ends (trim_loop (DirIter_new (Some (get_hint t)) Enum BACKWARD) t \<bind> (\<lambda>s. shrink_dir_size s \<bind> (\<lambda>s. ret (True, s)))) Q"
    if t: "dir_ok G (32 * length (all_ents gs)) (all_ents ?gs2 @ rest) t" for t
  proof -
    have "get_hint t = of_nat (32 * length (all_ents ?gs2))" using t unfolding dir_ok_def len2 by simp
    then have it: "DirIter_new (Some (get_hint t)) Enum BACKWARD = bwd Enum (length (all_ents ?gs2))" by (simp only: BACKWARD_def bwd_simps)
    show ?thesis unfolding it ends_bind
    proof (rule trim_ok [OF t [folded len2] ok2 tail], fold gs')
      fix rest' s' assume a: "dir_ok G (32 * length (all_ents gs')) (all_ents gs' @ rest') s'" "tail_ok rest'"
        "length (all_ents gs' @ rest') = length (all_ents ?gs2 @ rest)"
      show "ends (shrink_dir_size s') (\<lambda>s. ends (ret (True, s)) Q)"
        by (rule shrink_ok [OF a(1) G]) (use keep a Q len2 in simp_all)
    qed
  qed
  have rem: "ends (remove_long_loop (bwd Used q) t) (\<lambda>(good, s). ends (if \<not> good then ret (False, s)
      else trim_loop (DirIter_new (Some (get_hint s)) Enum BACKWARD) s \<bind> (\<lambda>s. shrink_dir_size s \<bind> (\<lambda>s. ret (True, s)))) Q)"
    if "dir_ok G (32 * length (all_ents gs)) ?es1 t" for t
    unfolding q_def by (rule remove_longs_ok [OF ls ok that]) (simp only: es2 prod.case not_True_eq_False if_False finish)
  have "ends (it_next (bwd Used (Suc q)) t) (\<lambda>(r, it, s). ends (case r of None \<Rightarrow> ret (True, s)
     | Some ent \<Rightarrow> if \<not> is_long ent then ret (True, s)
         else do {
           (good, s) \<leftarrow> remove_long_loop it s;
           if \<not> good then ret (False, s)
           else trim_loop (DirIter_new (Some (get_hint s)) Enum BACKWARD) s \<bind> (\<lambda>s. shrink_dir_size s \<bind> (\<lambda>s. ret (True, s))) }) Q)"
    if "dir_ok G (32 * length (all_ents gs)) ?es1 t" for t
    by (rule next_bwd [OF that p(4)], unfold p(5)) (use ll rem in \<open>simp_all del: BACKWARD_def\<close>)
  then show ?thesis unfolding delete_dir_ent_def Let_def BACKWARD_def bwd_simps ends_bind
    by (intro write_cur [OF d p(1)]) (simp_all only: length_marks bwd_simps p(2) [unfolded p(3)] p(3) ends_case BACKWARD_def)
qed

end
