(* ===== verification/Dir_Refine.thy ===== *)
theory Dir_Refine
  imports Dir_Delete
begin

text \<open>
  A directory as a list of named files: what \<^verbatim>\<open>find_local_lock\<close>, \<^verbatim>\<open>create_lock\<close>, \<^verbatim>\<open>link_par_lock\<close> and
  \<^verbatim>\<open>unlink_lock\<close> do to the entries of a directory is looking up, appending and removing names.
\<close>

section \<open>The entries of a new file\<close>

lemma short_bytes_first: "length (se_name sh) = 11 \<Longrightarrow> short_bytes sh ! 0 = se_name sh ! 0"
  by (cases "se_name sh") (simp_all add: short_bytes_def)

lemma new_slot:
  assumes "plain_name name" and "length v < 4446"
  shows "\<exists>sh ls. gen_dir_ent v name c t = Some (sh, ls) \<and> slot_ok (Filed ls sh) \<and> file_name ls sh = name
    \<and> length ls = (length name + 12) div 13 \<and> ls \<noteq> [] \<and> get_first_clus sh = c \<and> short_is_dir sh = (t = Directory)
    \<and> short_is_file sh = (t = File) \<and> file_size sh = 0"
proof -
  define n where "n = (length name + 12) div 13"
  obtain nm where nm: "length nm = 11" "0 < nm ! 0" "nm ! 0 < 128" "gen_dir_ent v name c t =
     Some (ShortDirEnt_from_name nm c t, map (\<lambda>i. from_name_slice (i + 1 = n) (i + 1) (gen_long_name_slice name i)) [0..<n])"
    using gen_dir_ent_ok [OF assms, folded n_def] by blast
  have pl: "\<forall>c \<in> set name. plain_char c" and ne: "name \<noteq> []" and lt: "length name < 256"
    using assms(1) by (auto simp: plain_name_def plain_char_def)
  have n: "length name \<le> 13 * n" "n < 63" using lt by (simp_all add: n_def)
  have "0 < length name" using ne by simp
  then have n3: "0 < n" unfolding n_def div_greater_zero_iff by linarith
  let ?f = "\<lambda>i. from_name_slice (i + 1 = n) (i + 1) (gen_long_name_slice name i)" and ?sh = "ShortDirEnt_from_name nm c t"
  let ?ls = "map ?f [0..<n]"
  have ok: "long_ok (?f i)" for i using gen_slice_plain [OF pl, of i] by (auto intro: long_ok_from_name_slice)
  note le = long_entry_long_bytes [OF ok]
  have attr: "is_long (long_bytes (?f i))" for i
    using arg_cong [OF le [of i], of le_attr]
    by (simp add: is_long_def short_entry_def long_entry_def from_name_slice_def Let_def LongDirEnt_empty_def)
  have ord: "ent_ord (long_bytes (?f i)) = i + 1 \<and> is_last_long_dir_ent (long_bytes (?f i)) = (i + 1 = n) \<and> \<not> ent_unused (long_bytes (?f i))" if "i < n" for i
    using ord_from_name_slice [of "i + 1" "i + 1 = n" "gen_long_name_slice name i"] that n(2) attr [of i] le [of i]
    by (simp add: ent_ord_def is_last_long_dir_ent_def get_long_ent_def ent_unused_def last_and_unused_def unused_not_last_def
        DIR_ENTRY_UNUSED_def DIR_ENTRY_LAST_AND_UNUSED_def)
  have names: "concat (map long_name ?ls) = name"
    using concat_chunks [OF n(1)] by (simp add: long_name_slice [OF pl] comp_def)
  have sh: "se_name ?sh = nm" "get_first_clus ?sh = c" "short_is_dir ?sh = (t = Directory)" "short_is_file ?sh = (t = File)" "file_size ?sh = 0"
    using get_set_fst_clus [of c ShortDirEnt_empty]
    by (cases t; simp add: ShortDirEnt_from_name_def get_first_clus_def short_is_dir_def short_is_file_def attr_defs short_set_fst_clus_def ShortDirEnt_empty_def)+
  have se: "short_entry (short_bytes ?sh) = ?sh" using short_entry_short_bytes [of ?sh] sh(1) nm(1) by simp
  have short: "is_short (short_bytes ?sh)" unfolding is_short_def is_long_def se
    by (cases t) (simp_all add: ShortDirEnt_from_name_def attr_defs)
  have "le_ord (long_entry (short_bytes ?sh)) = nm ! 0" using short_bytes_first [of ?sh] sh(1) nm(1) by (simp add: long_entry_def)
  moreover have "nm ! 0 \<noteq> 0xE5" using nm(3) by auto
  ultimately have used: "\<not> ent_unused (short_bytes ?sh)" using nm(2)
    by (simp add: ent_unused_def last_and_unused_def unused_not_last_def DIR_ENTRY_UNUSED_def DIR_ENTRY_LAST_AND_UNUSED_def)
  have "slot_ok (Filed ?ls ?sh)" using n(2) nm(1) sh(1) short used ord ok attr by simp
  moreover have "file_name ?ls ?sh = name" using names ne by (simp only: file_name_def Let_def if_False)
  ultimately show ?thesis using nm(4) sh n3 unfolding n_def [symmetric] by (intro exI [of _ ?sh] exI [of _ ?ls]) simp
qed

section \<open>The files of a directory\<close>

type_synonym file_list = "(rstring \<times> u32 \<times> bool) list"

fun listing :: "dslot list \<Rightarrow> file_list" where
  "listing [] = []"
| "listing (Hole e # gs) = listing gs"
| "listing (Filed ls sh # gs) = (file_name ls sh, get_first_clus sh, short_is_dir sh) # listing gs"

lemma listing_append [simp]: "listing (gs @ gs') = listing gs @ listing gs'"
  by (induction gs rule: listing.induct) simp_all

lemma listing_holes [simp]: "listing (holes n) = []"
  by (induction n) (simp_all add: holes_def)

lemma listing_trim [simp]: "listing (trim gs) = listing gs"
proof (induction gs rule: rev_induct)
  case (snoc g gs)
  then show ?case by (cases g) simp_all
qed simp

lemma trim_prefix: "\<exists>hs. gs = trim gs @ hs"
proof (induction gs rule: rev_induct)
  case (snoc g gs)
  then show ?case by (cases g) (simp, metis append.assoc, simp)
qed simp

definition file_info :: "rstring \<times> FATShortDirEnt \<times> 'a \<Rightarrow> rstring \<times> u32 \<times> bool" where
  "file_info = (\<lambda>(n, e, _). (n, get_first_clus e, short_is_dir e))"

lemma find_in_listing:
  "map_option file_info (find (\<lambda>(n, _). P n) (dir_files i gs)) = find (\<lambda>(n, _). P n) (listing gs)"
  by (induction i gs rule: dir_files.induct) (simp_all add: file_info_def)

definition remove_first :: "(rstring \<Rightarrow> bool) \<Rightarrow> file_list \<Rightarrow> file_list" where
  "remove_first P fl = takeWhile (\<lambda>(n, _). \<not> P n) fl @ tl (dropWhile (\<lambda>(n, _). \<not> P n) fl)"

lemma find_in_slots:
  assumes "find (\<lambda>(n, _). P n) (dir_files i gs) = Some (n, e, j)"
  shows "\<exists>X ls Y. gs = X @ Filed ls e # Y \<and> j = i + length (all_ents X) + length ls \<and> n = file_name ls e \<and> P n
    \<and> remove_first P (listing gs) = listing X @ listing Y"
  using assms
proof (induction i gs rule: dir_files.induct)
  case (2 i e' gs)
  then obtain X ls Y where "gs = X @ Filed ls e # Y" "j = Suc i + length (all_ents X) + length ls" "n = file_name ls e" "P n"
    "remove_first P (listing gs) = listing X @ listing Y" by auto
  then show ?case by (intro exI [of _ "Hole e' # X"] exI [of _ ls] exI [of _ Y]) simp
next
  case (3 i ls' sh gs)
  show ?case
  proof (cases "P (file_name ls' sh)")
    case True
    then have "sh = e" "n = file_name ls' sh" "j = i + length ls'" using 3(2) by auto
    then show ?thesis using True by (intro exI [of _ "[] :: dslot list"], intro exI [of _ ls'] exI [of _ gs]) (simp add: remove_first_def)
  next
    case False
    then obtain X ls Y where "gs = X @ Filed ls e # Y" "j = Suc (i + length ls') + length (all_ents X) + length ls" "n = file_name ls e" "P n"
      "remove_first P (listing gs) = listing X @ listing Y" using 3 by auto
    then show ?thesis using False by (intro exI [of _ "Filed ls' sh # X"] exI [of _ ls] exI [of _ Y]) (simp add: remove_first_def)
  qed
qed simp

lemma slot_ents_live: "slot_ok g \<Longrightarrow> e \<in> set (slot_ents g) \<Longrightarrow> \<not> last_and_unused e"
  by (cases g) (auto simp: unused_not_last_def last_and_unused_def DIR_ENTRY_UNUSED_def DIR_ENTRY_LAST_AND_UNUSED_def ent_unused_def
      in_set_conv_nth)

lemma live_ents:
  assumes "\<forall>g \<in> set gs. slot_ok g" and "tail_ok rest"
  shows "live (all_ents gs @ rest) = all_ents gs"
proof -
  have "\<forall>e \<in> set (all_ents gs). \<not> last_and_unused e" using assms(1) slot_ents_live by (induction gs) auto
  then have "live (all_ents gs @ rest) = all_ents gs @ live rest" by (simp add: live_def)
  then show ?thesis using assms(2) by (cases rest) (auto simp: live_def tail_ok_def)
qed

lemma ls_lock_ok:
  assumes "dir_ok G h es s" and "es = all_ents gs @ rest" and "\<forall>g \<in> set gs. slot_ok g" and "tail_ok rest"
  shows "ends (ls_lock s) (\<lambda>(r, s'). r = Inr (map (\<lambda>(n, e, _). (n, e)) (dir_files 0 gs)))"
proof -
  have "inode_is_dir (fst s)" using assms(1) by (auto simp: dir_ok_def)
  then show ?thesis using walk_collect_ok [of G h es s "[]" gs rest] assms
    by (auto simp: ls_lock_def used_walker_def ent_at_def elim!: ends_mono)
qed

section \<open>One step\<close>

text \<open>A directory of one cluster with the entries of \<open>gs\<close>; only \<open>.\<close> and \<open>..\<close> have no long entries.\<close>

definition slots_held :: "nat set \<Rightarrow> u8 list disk \<Rightarrow> nat \<Rightarrow> dslot list \<Rightarrow> inode_state \<Rightarrow> bool" where
  "slots_held S D B gs s \<longleftrightarrow> (\<exists>rest. dir_ok (S, D, B, B) (32 * length (all_ents gs)) (all_ents gs @ rest) s \<and> tail_ok rest
    \<and> 32 * length (all_ents gs @ rest) = B)
    \<and> (\<forall>g \<in> set gs. slot_ok g) \<and> (\<forall>ls sh. Filed ls sh \<in> set gs \<longrightarrow> ls = [] \<longrightarrow> file_name ls sh = dot \<or> file_name ls sh = dotdot)"

lemma slots_heldE:
  assumes "slots_held S D B gs s"
  obtains rest where "dir_ok (S, D, B, B) (32 * length (all_ents gs)) (all_ents gs @ rest) s" and "tail_ok rest"
    and "32 * length (all_ents gs @ rest) = B" and "\<forall>g \<in> set gs. slot_ok g"
    and "\<And>ls sh. Filed ls sh \<in> set gs \<Longrightarrow> ls = [] \<Longrightarrow> file_name ls sh = dot \<or> file_name ls sh = dotdot"
  using assms unfolding slots_held_def by blast

lemma one_cluster:
  assumes "slots_held S D B gs s"
  shows "length (all_ents gs) < 4446" and "0 < B" and "32 * length (all_ents gs) \<le> B" and "get_hint s = of_nat (32 * length (all_ents gs))"
    and "unat (get_hint s) = 32 * length (all_ents gs)" and "inode_is_dir (fst s)"
proof -
  obtain rest where r: "dir_ok (S, D, B, B) (32 * length (all_ents gs)) (all_ents gs @ rest) s" "32 * length (all_ents gs @ rest) = B"
    using assms by (rule slots_heldE)
  have b: "inode_ok S D s" "clus_bytes (fst (snd s)) = B" "32 * length (all_ents gs) < 2 ^ 32" "inode_is_dir (fst s)"
    and h: "get_hint s = of_nat (32 * length (all_ents gs))" using r(1) by (auto simp: dir_ok_def inode_room_def)
  have "efs_geom S (fst (snd s))" using b(1) by (cases s) (auto dest!: inode_okD(1) table_okD(1))
  then show "0 < B" using clus_bytes_pos b(2) by blast
  have "unat (sec_per_clus (fst (snd s))) < 256" using unsigned_less [of "sec_per_clus (fst (snd s))"] by simp
  then have "B < 512 * 256" using b(2) by (simp add: clus_bytes_def)
  moreover show "32 * length (all_ents gs) \<le> B" using r(2) by simp
  ultimately show "length (all_ents gs) < 4446" by linarith
  show "get_hint s = of_nat (32 * length (all_ents gs))" by (rule h)
  show "unat (get_hint s) = 32 * length (all_ents gs)" unfolding h by (rule unat32 [OF b(3)])
  show "inode_is_dir (fst s)" by (rule b(4))
qed

lemma find_step:
  assumes h: "slots_held S D B gs s"
    and Q: "\<And>s'. slots_held S D B gs s' \<Longrightarrow> Q (Inr (map_option ent_at (find (\<lambda>(n, _). same_name req n) (dir_files 0 gs))), s')"
  shows "ends (find_local_lock req s) Q"
proof -
  obtain rest where r: "dir_ok (S, D, B, B) (32 * length (all_ents gs)) (all_ents gs @ rest) s" "tail_ok rest"
    "32 * length (all_ents gs @ rest) = B" "\<forall>g \<in> set gs. slot_ok g" using h by (rule slots_heldE)
  have "slots_held S D B gs s'" if "dir_ok (S, D, B, B) (32 * length (all_ents gs)) (all_ents gs @ rest) s'" for s'
    using h that r(2,3) unfolding slots_held_def by blast
  then show ?thesis using Q by (intro ends_mono [OF find_local_ok [OF r(1) refl r(4,2)]]) auto
qed

lemma gen_step:
  assumes h: "slots_held S D B gs s" and nm: "plain_name name"
    and Q: "\<And>sh ls s'. slots_held S D B gs s' \<Longrightarrow> slot_ok (Filed ls sh) \<Longrightarrow> file_name ls sh = name \<Longrightarrow> length ls = (length name + 12) div 13
      \<Longrightarrow> ls \<noteq> [] \<Longrightarrow> get_first_clus sh = c \<Longrightarrow> short_is_dir sh = (t = Directory) \<Longrightarrow> short_is_file sh = (t = File) \<Longrightarrow> file_size sh = 0
      \<Longrightarrow> Q (sh, ls, s')"
  shows "ends (gen_dir_ent_in name c t s) Q"
proof -
  obtain rest where r: "dir_ok (S, D, B, B) (32 * length (all_ents gs)) (all_ents gs @ rest) s" "tail_ok rest"
    "32 * length (all_ents gs @ rest) = B" "\<forall>g \<in> set gs. slot_ok g" using h by (rule slots_heldE)
  let ?v = "filter (check_dir_ent_legality Short) (all_ents gs)"
  have "length ?v < 4446" using one_cluster(1) [OF h] length_filter_le [of "check_dir_ent_legality Short" "all_ents gs"] by linarith
  then obtain sh ls where g: "gen_dir_ent ?v name c t = Some (sh, ls)" "slot_ok (Filed ls sh)" "file_name ls sh = name"
    "length ls = (length name + 12) div 13" "ls \<noteq> []" "get_first_clus sh = c" "short_is_dir sh = (t = Directory)"
    "short_is_file sh = (t = File)" "file_size sh = 0" using new_slot [OF nm] by blast
  have held: "slots_held S D B gs s'" if "dir_ok (S, D, B, B) (32 * length (all_ents gs)) (all_ents gs @ rest) s'" for s'
    using h that r(2,3) unfolding slots_held_def by blast
  show ?thesis unfolding gen_dir_ent_in_def ends_bind FORWARD_def fwd_simps(6)
    by (rule ends_mono [OF collect_fwd [OF r(1), of 0 Short]]) (use live_ents [OF r(4,2)] g held Q in auto)
qed

lemma create_step:
  assumes h: "slots_held S D B gs s" and f: "slot_ok (Filed ls sh)" "ls \<noteq> []" and room: "32 * (length (all_ents gs) + length ls + 1) \<le> B"
    and Q: "\<And>off s'. slots_held S D B (gs @ [Filed ls sh]) s' \<Longrightarrow> Q (off, s')"
  shows "ends (create_dir_ent sh ls s) Q"
proof -
  obtain rest where r: "dir_ok (S, D, B, B) (32 * length (all_ents gs)) (all_ents gs @ rest) s" "tail_ok rest"
    "32 * length (all_ents gs @ rest) = B" "\<forall>g \<in> set gs. slot_ok g"
    "\<And>ls sh. Filed ls sh \<in> set gs \<Longrightarrow> ls = [] \<Longrightarrow> file_name ls sh = dot \<or> file_name ls sh = dotdot" using h by (rule slots_heldE) blast
  let ?gs = "gs @ [Filed ls sh]"
  show ?thesis
  proof (rule create_dir_ent_ok [OF r(1) refl f(1) room], rule Q)
    fix rest' s' assume a: "dir_ok (S, D, B, B) (32 * length (all_ents ?gs)) (all_ents ?gs @ rest') s'" "tail_ok rest'"
      "length (all_ents ?gs) \<le> length (all_ents gs @ rest) \<Longrightarrow> length (all_ents ?gs @ rest') = length (all_ents gs @ rest)"
    have "length (all_ents ?gs) = length (all_ents gs) + length ls + 1" by simp
    then have "32 * length (all_ents ?gs) \<le> 32 * length (all_ents gs @ rest)" using r(3) room by simp
    then have "length (all_ents ?gs) \<le> length (all_ents gs @ rest)" by simp
    then have "length (all_ents ?gs @ rest') = length (all_ents gs @ rest)" by (rule a(3))
    then have "32 * length (all_ents ?gs @ rest') = B" using r(3) by simp
    moreover have "\<forall>g \<in> set ?gs. slot_ok g" using r(4) f(1) by simp
    moreover have "\<forall>ls sh. Filed ls sh \<in> set ?gs \<longrightarrow> ls = [] \<longrightarrow> file_name ls sh = dot \<or> file_name ls sh = dotdot" using r(5) f(2) by auto
    ultimately show "slots_held S D B ?gs s'" using a(1,2) unfolding slots_held_def by blast
  qed
qed

lemma delete_step:
  assumes h: "slots_held S D B gs s" and gs: "gs = X @ Filed ls sh # Y" and ls: "ls \<noteq> []"
    and Q: "\<And>s'. slots_held S D B (trim (X @ holes (Suc (length ls)) @ Y)) s' \<Longrightarrow> Q (True, s')"
  shows "ends (delete_dir_ent (of_nat (32 * (length (all_ents X) + length ls))) s) Q"
proof -
  obtain rest where r: "dir_ok (S, D, B, B) (32 * length (all_ents gs)) (all_ents gs @ rest) s" "tail_ok rest"
    "32 * length (all_ents gs @ rest) = B" "\<forall>g \<in> set gs. slot_ok g"
    "\<And>ls sh. Filed ls sh \<in> set gs \<Longrightarrow> ls = [] \<Longrightarrow> file_name ls sh = dot \<or> file_name ls sh = dotdot" using h by (rule slots_heldE) blast
  let ?gs = "X @ holes (Suc (length ls)) @ Y"
  obtain hs where hs: "?gs = trim ?gs @ hs" using trim_prefix by blast
  have "length (all_ents ?gs) = length (all_ents (trim ?gs)) + length (all_ents hs)" by (subst hs) simp
  moreover have "length (all_ents ?gs) = length (all_ents gs)" by (simp add: gs)
  ultimately have le: "32 * length (all_ents (trim ?gs)) \<le> B" using one_cluster(3) [OF h] by linarith
  have B: "0 < B" by (rule one_cluster(2) [OF h])
  have "ceil_div (32 * length (all_ents (trim ?gs))) B \<le> 1" using ceil_div_mono [OF le, of B] ceil_div_mult [OF B, of 1] by simp
  then have keep: "max (ceil_div (32 * length (all_ents (trim ?gs))) B * B) B = 32 * length (all_ents gs @ rest)"
    unfolding r(3) by (cases "ceil_div (32 * length (all_ents (trim ?gs))) B") simp_all
  have sub: "set (trim ?gs) \<subseteq> set ?gs" using hs by (metis set_append Un_upper1)
  have kept: "Filed a b \<in> set gs" if "Filed a b \<in> set (trim ?gs)" for a b
    using subsetD [OF sub that] by (auto simp: gs holes_def)
  have ok: "\<forall>g \<in> set (trim ?gs). slot_ok g"
    "\<forall>ls sh. Filed ls sh \<in> set (trim ?gs) \<longrightarrow> ls = [] \<longrightarrow> file_name ls sh = dot \<or> file_name ls sh = dotdot"
    using sub r(4) slot_ok_holes [of "Suc (length ls)"] kept r(5) by (auto simp: gs)
  show ?thesis
    by (rule delete_dir_ent_ok [OF r(1) refl gs r(4,2) ls refl keep], rule Q) (use ok r(3) in \<open>unfold slots_held_def, metis\<close>)
qed

section \<open>Directories as lists of files\<close>

datatype dir_op = DFind rstring | DCreate rstring | DLink rstring Inode | DUnlink rstring Inode

datatype dir_res = Found "(rstring \<times> u32 \<times> bool) option" | Done bool

text \<open>The operations of a directory with number \<open>par\<close>: looking up a name, creating an empty file, giving
  an inode a name, and finding a name and unlinking the inode there.\<close>

fun dir_step :: "nat \<Rightarrow> dir_op \<Rightarrow> inode_state \<Rightarrow> (dir_res \<times> inode_state) run" where
  "dir_step par (DFind name) s = do {
     (r, s) \<leftarrow> find_local_lock name s;
     ret (case r of Inr x \<Rightarrow> Found (map_option file_info x) | Inl _ \<Rightarrow> Done False, s) }"
| "dir_step par (DCreate name) s = do {
     (r, s) \<leftarrow> create_lock par name File s;
     ret (Done (r \<noteq> None), s) }"
| "dir_step par (DLink name ino) s = do {
     (good, _, s) \<leftarrow> link_par_lock par name ino s;
     ret (Done good, s) }"
| "dir_step par (DUnlink name ino) s = do {
     (r, s) \<leftarrow> find_local_lock name s;
     case r of
       Inr (Some (_, _, off)) \<Rightarrow> do {
         (_, s) \<leftarrow> unlink_lock True (ino\<lparr>parent_dir := Some (par, off)\<rparr>) s;
         ret (Done True, s) }
     | _ \<Rightarrow> ret (Done False, s) }"

fun list_dir_step :: "dir_op \<Rightarrow> file_list \<Rightarrow> dir_res \<times> file_list" where
  "list_dir_step (DFind name) fl = (Found (find (\<lambda>(n, _). same_name name n) fl), fl)"
| "list_dir_step (DCreate name) fl = (Done True, fl @ [(name, 0, False)])"
| "list_dir_step (DLink name ino) fl = (Done True, fl @ [(name, case get_first_clus_lock ino of Some c \<Rightarrow> c | None \<Rightarrow> 0, False)])"
| "list_dir_step (DUnlink name ino) fl =
    (if find (\<lambda>(n, _). same_name name n) fl = None then (Done False, fl) else (Done True, remove_first (same_name name) fl))"

text \<open>Names are plain, what is linked is a file, and \<open>.\<close> and \<open>..\<close> are not unlinked.\<close>

fun dir_op_ok :: "dir_op \<Rightarrow> bool" where
  "dir_op_ok (DFind name) = True"
| "dir_op_ok (DCreate name) = plain_name name"
| "dir_op_ok (DLink name ino) = (plain_name name \<and> file_type ino = File)"
| "dir_op_ok (DUnlink name ino) = (\<not> same_name name dot \<and> \<not> same_name name dotdot)"

text \<open>The bytes of the entries an operation adds.\<close>

fun dir_need :: "dir_op \<Rightarrow> nat" where
  "dir_need (DCreate name) = 32 * ((length name + 12) div 13 + 1)"
| "dir_need (DLink name ino) = 32 * ((length name + 12) div 13 + 1)"
| "dir_need _ = 0"

definition dir_holds :: "nat set \<Rightarrow> u8 list disk \<Rightarrow> nat \<Rightarrow> file_list \<Rightarrow> inode_state \<Rightarrow> bool" where
  "dir_holds S D B fl s \<longleftrightarrow> (\<exists>gs. slots_held S D B gs s \<and> listing gs = fl)"

definition dir_used :: "inode_state \<Rightarrow> nat" where
  "dir_used s = unat (get_hint s)"

lemma dir_used: "slots_held S D B gs s \<Longrightarrow> dir_used s = 32 * length (all_ents gs)"
  using one_cluster(5) by (simp add: dir_used_def)

lemma added_file:
  assumes "slots_held S D B (gs @ [Filed ls sh]) s" and "file_name ls sh = name" and "length ls = (length name + 12) div 13"
    and "get_first_clus sh = c" and "short_is_dir sh = (t = Directory)"
  shows "dir_holds S D B (listing gs @ [(name, c, t = Directory)]) s \<and> dir_used s = 32 * length (all_ents gs) + 32 * ((length name + 12) div 13 + 1)"
  using assms dir_used [OF assms(1)] unfolding dir_holds_def by (intro conjI exI [of _ "gs @ [Filed ls sh]"]) simp_all

lemma create_lock_step:
  assumes h: "slots_held S D B gs s" and nm: "plain_name name" and room: "32 * (length (all_ents gs) + (length name + 12) div 13 + 1) \<le> B"
  shows "ends (create_lock par name File s) (\<lambda>(r, s'). r \<noteq> None \<and> dir_holds S D B (listing gs @ [(name, 0, False)]) s'
    \<and> dir_used s' = 32 * length (all_ents gs) + 32 * ((length name + 12) div 13 + 1))"
proof -
  have dir: "\<not> inode_is_file (fst s)" using one_cluster(6) [OF h] by (simp add: inode_is_dir_def inode_is_file_def)
  have len: "\<not> 256 \<le> str_len name" using nm str_len_ascii [of name] by (auto simp: plain_name_def)
  have run: "create_lock par name File s = do {
     (short_ent, long_ents, s) \<leftarrow> gen_dir_ent_in name 0 File s;
     (offset, s) \<leftarrow> create_dir_ent short_ent long_ents s;
     (ino, fs) \<leftarrow> from_ent par short_ent offset (snd s);
     ret (Some ino, fst s, fs) }"
    using dir len by (simp add: create_lock_def)
  show ?thesis unfolding run ends_bind
  proof (rule gen_step [OF h nm], simp only: prod.case ends_bind, goal_cases)
    case (1 sh ls s1)
    show ?case
    proof (rule create_step [OF 1(1,2,5)], goal_cases)
      case (2 off s2)
      have "from_ent par sh off (snd s2) = Some (\<lparr>file_content = \<lparr>fc_size = 0, fc_clus_list = [], fc_hint = 0\<rparr>,
          file_cache_mgr = PageCacheManager_new, file_type = File, parent_dir = Some (par, off),
          inode_time = \<lparr>create_time = 0, access_time = 0, modify_time = 0\<rparr>, deleted = False\<rparr>, snd s2)"
        using 1 by (simp add: from_ent_def Inode_new_def Inode_init_def)
      then show ?case using added_file [OF 2 1(3,4,6,7)] by simp
    qed (use room 1(4) in simp)
  qed
qed

lemma link_par_step:
  assumes h: "slots_held S D B gs s" and nm: "plain_name name" and room: "32 * (length (all_ents gs) + (length name + 12) div 13 + 1) \<le> B"
    and ft: "file_type ino = File"
  shows "ends (link_par_lock par name ino s) (\<lambda>(good, _, s'). good
    \<and> dir_holds S D B (listing gs @ [(name, case get_first_clus_lock ino of Some c \<Rightarrow> c | None \<Rightarrow> 0, False)]) s'
    \<and> dir_used s' = 32 * length (all_ents gs) + 32 * ((length name + 12) div 13 + 1))"
  unfolding link_par_lock_def ends_bind
proof (rule gen_step [OF h nm], simp only: prod.case ends_bind, goal_cases)
  case (1 sh ls s1)
  show ?case
  proof (rule create_step [OF 1(1,2,5)], goal_cases)
    case (2 off s2)
    then show ?case using added_file [OF 2 1(3,4,6,7)] ft by (simp add: inode_is_dir_def)
  qed (use room 1(4) in simp)
qed

lemma unlink_step:
  assumes h: "slots_held S D B gs s" and dots: "\<not> same_name name dot" "\<not> same_name name dotdot"
    and found: "find (\<lambda>(n, _). same_name name n) (dir_files 0 gs) = Some (n, e, j)"
  shows "ends (unlink_lock True (ino\<lparr>parent_dir := Some (par, of_nat (32 * j))\<rparr>) s) (\<lambda>(_, s').
    dir_holds S D B (remove_first (same_name name) (listing gs)) s' \<and> dir_used s' \<le> 32 * length (all_ents gs))"
proof -
  obtain X ls Y where gs: "gs = X @ Filed ls e # Y" "j = length (all_ents X) + length ls" "n = file_name ls e" "same_name name n"
    "remove_first (same_name name) (listing gs) = listing X @ listing Y" using find_in_slots [OF found] by auto
  have ls: "ls \<noteq> []" using h gs(1,3,4) dots unfolding slots_held_def by fastforce
  let ?gs = "trim (X @ holes (Suc (length ls)) @ Y)"
  obtain hs where hs: "X @ holes (Suc (length ls)) @ Y = ?gs @ hs" using trim_prefix by blast
  have "length (all_ents (X @ holes (Suc (length ls)) @ Y)) = length (all_ents ?gs) + length (all_ents hs)" by (subst hs) simp
  then have le: "length (all_ents ?gs) \<le> length (all_ents gs)" by (simp add: gs(1))
  have new: "dir_holds S D B (remove_first (same_name name) (listing gs)) s' \<and> dir_used s' \<le> 32 * length (all_ents gs)"
    if "slots_held S D B ?gs s'" for s'
    using that dir_used [OF that] le unfolding dir_holds_def gs(5) by (intro conjI exI [of _ ?gs]) simp_all
  have "ends (delete_dir_ent (of_nat (32 * j)) s) (\<lambda>(good, s'). good \<and> dir_holds S D B (remove_first (same_name name) (listing gs)) s'
      \<and> dir_used s' \<le> 32 * length (all_ents gs))"
    unfolding gs(2) by (rule delete_step [OF h gs(1) ls]) (use new in simp)
  then show ?thesis by (auto simp: unlink_lock_def delete_self_dir_ent_def rust_assert_def elim!: ends_mono)
qed

section \<open>Sequences of operations\<close>

fun dir_run :: "(dir_op \<Rightarrow> 's \<Rightarrow> (dir_res \<times> 's) run) \<Rightarrow> dir_op list \<Rightarrow> 's \<Rightarrow> (dir_res list \<times> 's) run" where
  "dir_run step [] s = ret ([], s)"
| "dir_run step (op # ops) s = do {
     (r, s) \<leftarrow> step op s;
     (rs, s) \<leftarrow> dir_run step ops s;
     ret (r # rs, s) }"

fun list_dir_run :: "dir_op list \<Rightarrow> file_list \<Rightarrow> dir_res list \<times> file_list" where
  "list_dir_run [] fl = ([], fl)"
| "list_dir_run (op # ops) fl = (let (r, fl) = list_dir_step op fl; (rs, fl) = list_dir_run ops fl in (r # rs, fl))"

definition dir_needs :: "dir_op list \<Rightarrow> nat" where
  "dir_needs ops = sum_list (map dir_need ops)"

text \<open>What a directory promises to those who use it.\<close>

locale named_files =
  fixes holds :: "file_list \<Rightarrow> 's \<Rightarrow> bool" and used :: "'s \<Rightarrow> nat" and cap :: nat
    and step :: "dir_op \<Rightarrow> 's \<Rightarrow> (dir_res \<times> 's) run"
  assumes step_law: "holds fl s \<Longrightarrow> dir_op_ok op \<Longrightarrow> used s + dir_need op \<le> cap \<Longrightarrow>
    ends (step op s) (\<lambda>(r, s'). r = fst (list_dir_step op fl) \<and> holds (snd (list_dir_step op fl)) s' \<and> used s' \<le> used s + dir_need op)"
begin

lemma run_lists:
  assumes "holds fl s" and "list_all dir_op_ok ops" and "used s + dir_needs ops \<le> cap"
  shows "ends (dir_run step ops s) (\<lambda>(rs, s'). rs = fst (list_dir_run ops fl) \<and> holds (snd (list_dir_run ops fl)) s')"
  using assms
proof (induction ops arbitrary: fl s)
  case (Cons op ops)
  have ok: "dir_op_ok op" "used s + dir_need op \<le> cap" using Cons.prems by (simp_all add: dir_needs_def)
  obtain r fl1 where st: "list_dir_step op fl = (r, fl1)" by fastforce
  obtain rs fl2 where rest: "list_dir_run ops fl1 = (rs, fl2)" by fastforce
  have "ends (dir_run step ops s1) (\<lambda>(rs, s'). rs = fst (list_dir_run ops fl1) \<and> holds (snd (list_dir_run ops fl1)) s')"
    if "holds fl1 s1" "used s1 \<le> used s + dir_need op" for s1
    by (rule Cons.IH [OF that(1)]) (use Cons.prems(2,3) that(2) in \<open>simp_all add: dir_needs_def\<close>)
  then show ?case unfolding dir_run.simps ends_bind
    by (intro ends_mono [OF step_law [OF Cons.prems(1) ok]]) (auto simp: st rest elim!: ends_mono)
qed simp

end

interpretation fat_dir: named_files "dir_holds S D B" dir_used B "dir_step par" for S D B par
proof
  fix fl s op assume a: "dir_holds S D B fl s" "dir_op_ok op" "dir_used s + dir_need op \<le> B"
  obtain gs where h: "slots_held S D B gs s" "listing gs = fl" using a(1) by (auto simp: dir_holds_def)
  have u: "dir_used s = 32 * length (all_ents gs)" by (rule dir_used [OF h(1)])
  let ?Q = "\<lambda>op (r, s'). r = fst (list_dir_step op fl) \<and> dir_holds S D B (snd (list_dir_step op fl)) s' \<and> dir_used s' \<le> dir_used s + dir_need op"
  have same: "dir_holds S D B fl s' \<and> dir_used s' = dir_used s" if "slots_held S D B gs s'" for s'
    using that h u dir_used [OF that] by (auto simp: dir_holds_def)
  have info: "file_info (ent_at x) = file_info x" for x by (cases x) (simp add: ent_at_def file_info_def)
  have found: "map_option file_info (map_option ent_at (find (\<lambda>(n, _). same_name name n) (dir_files 0 gs)))
      = find (\<lambda>(n, _). same_name name n) fl" for name
    using find_in_listing [of "same_name name" 0 gs] h(2) by (simp add: option.map_comp comp_def info)
  show "ends (dir_step par op s) (?Q op)"
  proof (cases op)
    case (DFind name)
    show ?thesis unfolding DFind dir_step.simps ends_bind
      by (rule find_step [OF h(1)]) (simp add: found same)
  next
    case (DCreate name)
    show ?thesis unfolding DCreate dir_step.simps ends_bind
      by (rule ends_mono [OF create_lock_step [OF h(1), of name par]]) (use a(2,3) DCreate u h(2) in auto)
  next
    case (DLink name ino)
    show ?thesis unfolding DLink dir_step.simps ends_bind
      by (rule ends_mono [OF link_par_step [OF h(1), of name ino par]]) (use a(2,3) DLink u h(2) in auto)
  next
    case (DUnlink name ino)
    have dots: "\<not> same_name name dot" "\<not> same_name name dotdot" using a(2) DUnlink by simp_all
    show ?thesis unfolding DUnlink dir_step.simps ends_bind
    proof (rule find_step [OF h(1)], goal_cases)
      case (1 s1)
      show ?case
      proof (cases "find (\<lambda>(n, _). same_name name n) (dir_files 0 gs)")
        case None
        then show ?thesis using same [OF 1] found [of name] by simp
      next
        case (Some x)
        then obtain n e j where x: "find (\<lambda>(n, _). same_name name n) (dir_files 0 gs) = Some (n, e, j)" by (cases x) auto
        have "find (\<lambda>(n, _). same_name name n) fl = Some (file_info (ent_at (n, e, j)))" using found [of name] by (simp only: x option.map)
        then show ?thesis using unlink_step [OF 1 dots x, of par ino] u h(2)
          by (auto simp: x ent_at_def elim!: ends_mono)
      qed
    qed
  qed
qed

text \<open>C3: a FAT directory of one cluster is a list of named files. Over every sequence of look-ups, creations, links and
  unlinks whose entries fit in the cluster, through page cache, iterators, long and short entries, holes and the end
  mark, every operation returns what it returns on the list: a look-up finds the first file whose name is the
  wanted one up to ASCII case, a new file comes last, and an unlink removes the first file of that name and
  nothing else.\<close>

theorem directory_refines_files:
  assumes "dir_holds S D B fl s" and "list_all dir_op_ok ops" and "dir_used s + dir_needs ops \<le> B"
  shows "\<exists>s'. dir_run (dir_step par) ops s = Some (fst (list_dir_run ops fl), s') \<and> dir_holds S D B (snd (list_dir_run ops fl)) s'"
  using fat_dir.run_lists [OF assms] by (auto simp: ends_def)

text \<open>C9: a file created in a directory is found. The directory may have any size and grows by clusters when the
  entries do not fit; the call returns the offset under which the file is found, and the files that were there stay.\<close>

theorem create_then_find:
  assumes "dir_ok (S, D, N, B) (32 * length (all_ents gs)) (all_ents gs @ rest) s" and "\<forall>g \<in> set gs. slot_ok g" and "tail_ok rest"
    and "slot_ok (Filed ls sh)" and "32 * (length (all_ents gs) + length ls + 1) \<le> N"
    and "find (\<lambda>(n, _). same_name (file_name ls sh) n) (listing gs) = None"
  shows "\<exists>off s1 s2. create_dir_ent sh ls s = Some (off, s1) \<and> find_local_lock (file_name ls sh) s1 = Some (Inr (Some (file_name ls sh, sh, off)), s2)
    \<and> (\<exists>s3. ls_lock s1 = Some (Inr (map (\<lambda>(n, e, _). (n, e)) (dir_files 0 gs) @ [(file_name ls sh, sh)]), s3))"
proof -
  let ?gs = "gs @ [Filed ls sh]" and ?nm = "file_name ls sh"
  have files: "dir_files i (gs @ gs') = dir_files i gs @ dir_files (i + length (all_ents gs)) gs'" for i gs'
    by (induction i gs rule: dir_files.induct) (simp_all add: add.assoc)
  have none: "find (\<lambda>(n, _). same_name ?nm n) (dir_files 0 gs) = None"
    using find_in_listing [of "same_name ?nm" 0 gs] assms(6) by (cases "find (\<lambda>(n, _). same_name ?nm n) (dir_files 0 gs)") auto
  have same: "same_name ?nm ?nm" by (simp add: same_name_def eq_ignore_ascii_case_def)
  have app: "find P (xs @ [x]) = (if P x then Some x else None)" if "find P xs = None" for P and xs :: "(rstring \<times> FATShortDirEnt \<times> nat) list" and x
    using that by (induction xs) (auto split: if_splits)
  have found: "find (\<lambda>(n, _). same_name ?nm n) (dir_files 0 ?gs) = Some (?nm, sh, length (all_ents gs) + length ls)"
    unfolding files using app [OF none] same by simp
  have ok: "\<forall>g \<in> set ?gs. slot_ok g" using assms(2,4) by simp
  have "ends (create_dir_ent sh ls s) (\<lambda>(off, s1). ends (find_local_lock ?nm s1) (\<lambda>(r, _). r = Inr (Some (?nm, sh, off)))
      \<and> ends (ls_lock s1) (\<lambda>(r, _). r = Inr (map (\<lambda>(n, e, _). (n, e)) (dir_files 0 gs) @ [(?nm, sh)])))"
  proof (rule create_dir_ent_ok [OF assms(1) refl assms(4,5)], goal_cases)
    case (1 rest' s')
    have "ends (find_local_lock ?nm s') (\<lambda>(r, _). r = Inr (Some (?nm, sh, of_nat (32 * (length (all_ents gs) + length ls)))))"
      by (rule ends_mono [OF find_local_ok [OF 1(1) refl ok 1(2), of ?nm]]) (auto simp: found ent_at_def)
    moreover have "ends (ls_lock s') (\<lambda>(r, _). r = Inr (map (\<lambda>(n, e, _). (n, e)) (dir_files 0 gs) @ [(?nm, sh)]))"
      by (rule ends_mono [OF ls_lock_ok [OF 1(1) refl ok 1(2)]]) (auto simp: files)
    ultimately show ?case by simp
  qed
  then show ?thesis by (auto simp: ends_def)
qed

text \<open>C28: closing a file loses its new size and first cluster. \<^verbatim>\<open>Inode::drop\<close> puts the size and the first cluster of the
  inode into a copy of the short entry and writes back the entry it has read, so that whatever was written to the
  file, the directory holds the same bytes as before and the file opens again with its old size and cluster.\<close>

theorem drop_keeps_stale_entry:
  assumes "dir_ok G h es s" and "i < length es" and "is_short (es ! i)"
    and "parent_dir ino = Some (par, of_nat (32 * i))" and "\<not> deleted ino"
  shows "\<exists>s'. Inode_drop ino s = Some s' \<and> dir_ok G h es s' \<and> file_data s' = file_data s"
proof -
  have len: "length (es ! i) = 32" using assms(1,2) by (simp add: dir_ok_def)
  have lt: "32 * i < 2 ^ 32" using dir_size(2) [OF assms(1)] assms(2) by linarith
  have short: "get_short_ent (es ! i) \<noteq> None" using assms(3) by (simp add: get_short_ent_def is_short_def)
  have set: "ends (set_dir_ent (of_nat (32 * i)) (es ! i) t) (\<lambda>(good, s'). good \<and> dir_ok G h es s')" if "dir_ok G h es t" for t
    unfolding set_dir_ent_def unat32 [OF lt] ends_bind
    by (rule ends_mono [OF write_ent_ok [OF that assms(2) len]]) (auto simp: len)
  have "ends (get_dir_ent (of_nat (32 * i)) s) (\<lambda>(r, t). r = Some (es ! i) \<and> dir_ok G h es t)"
    unfolding get_dir_ent_def ends_bind by (rule ends_mono [OF read_ent_ok [OF assms(1,2)]]) auto
  then obtain t where t: "get_dir_ent (of_nat (32 * i)) s = Some (Some (es ! i), t)" "dir_ok G h es t" by (auto simp: ends_def)
  obtain s' where s': "set_dir_ent (of_nat (32 * i)) (es ! i) t = Some (True, s')" "dir_ok G h es s'" using set [OF t(2)] by (auto simp: ends_def)
  have "Inode_drop ino s = Some s'"
    using assms(4,5) t(1) s'(1) short by (auto simp: Inode_drop_def rust_assert_def simp del: of_nat_mult of_nat_numeral)
  moreover have "file_data s' = file_data s" using s'(2) assms(1) by (simp add: dir_ok_def)
  ultimately show ?thesis using s'(2) by blast
qed

section \<open>An example\<close>

text \<open>An empty directory: the directory inode of size 0 is grown by a cluster and gets an end mark.\<close>

definition ex_dir0 :: inode_state where
  "ex_dir0 = (ex_inode\<lparr>file_type := Directory\<rparr>, ex_efs, ex_disk)"

definition ex_dir :: "inode_state run" where
  "ex_dir = do { s \<leftarrow> expand_dir_size ex_dir0; write_to_current_ent unused_and_last_entry (fwd Enum 1) s }"

definition ex_env :: "nat \<Rightarrow> dir_env" where
  "ex_env N = ({..<2}, \<lambda>_. replicate 512 0, N, 4096)"

lemma ex_dir0_ok: "4096 dvd N \<Longrightarrow> N \<le> 20000 \<Longrightarrow> dir_ok (ex_env N) 0 [] ex_dir0"
proof -
  assume N: "4096 dvd N" "N \<le> 20000"
  have r: "inode_ok {..<2} (\<lambda>_. replicate 512 0) (ex_inode, ex_efs, ex_disk)" "ceil_div 20000 (clus_bytes ex_efs) \<le> quota (ex_inode, ex_efs, ex_disk)"
    using ex_inode_room by (simp_all add: inode_room_def)
  have c: "clus_bytes ex_efs = 4096" by (simp add: ex_efs_def clus_bytes_def)
  have "inode_ok {..<2} (\<lambda>_. replicate 512 0) ex_dir0" using r(1) by (simp add: ex_dir0_def inode_ok_def Let_def get_file_size_def)
  moreover have "ceil_div N 4096 \<le> quota ex_dir0" using ceil_div_mono [OF N(2), of 4096] r(2) by (simp add: c quota_def ex_dir0_def)
  moreover have "file_data ex_dir0 = []" "get_hint ex_dir0 = 0" "inode_is_dir (fst ex_dir0)" "fst (snd ex_dir0) = ex_efs"
    by (simp_all add: ex_dir0_def file_data_def ex_inode_def get_file_size_def get_hint_def inode_is_dir_def)
  ultimately show ?thesis using N by (simp add: dir_ok_def ex_env_def inode_room_def c)
qed

lemma ex_dir_held: "ends ex_dir (slots_held {..<2} (\<lambda>_. replicate 512 0) 4096 [])"
  unfolding ex_dir_def ends_bind
proof (rule ends_mono [OF expand_ok [OF ex_dir0_ok [of 4096] ex_env_def]], goal_cases)
  case (4 s)
  then obtain es where es: "es \<noteq> []" "dir_ok (ex_env 4096) 0 es s" "32 * length es \<le> 4096" by auto
  have B: "32 * length es = 4096"
  proof -
    have "4096 dvd 32 * length es" using es(2) by (simp add: dir_ok_def ex_env_def)
    then obtain k where k: "32 * length es = 4096 * k" by (auto elim: dvdE)
    have "k \<noteq> 0" using es(1) k by (cases k) auto
    moreover have "k \<le> 1" using es(3) k by simp
    ultimately have "k = 1" by linarith
    then show ?thesis using k by simp
  qed
  show ?case
  proof (rule write_cur [OF es(2), of 0 unused_and_last_entry], goal_cases)
    case (4 s')
    have "tail_ok (es[0 := unused_and_last_entry])" using es(1) by (cases es) (simp_all add: tail_ok_def)
    then show ?case using 4 B unfolding slots_held_def ex_env_def by (intro conjI exI [of _ "es[0 := unused_and_last_entry]"]) simp_all
  qed (use es(1) in \<open>simp_all add: fwd_def\<close>)
qed simp_all

theorem directory_refines_files_witness:
  "\<exists>s s'. ex_dir = Some s \<and> dir_run (dir_step 7) [DCreate [97], DLink [98, 99] ex_inode, DFind [65], DUnlink [97] ex_inode, DFind [97], DFind [66, 67]] s
    = Some ([Done True, Done True, Found (Some ([97], 0, False)), Done True, Found None, Found (Some ([98, 99], 0, False))], s')"
proof -
  obtain s where s: "ex_dir = Some s" "slots_held {..<2} (\<lambda>_. replicate 512 0) 4096 [] s" using ex_dir_held by (auto simp: ends_def)
  let ?ops = "[DCreate [97], DLink [98, 99] ex_inode, DFind [65], DUnlink [97] ex_inode, DFind [97], DFind [66, 67]]"
  have h: "dir_holds {..<2} (\<lambda>_. replicate 512 0) 4096 [] s" using s(2) unfolding dir_holds_def by (intro exI [of _ "[]"]) simp
  have ok: "list_all dir_op_ok ?ops"
    by (simp add: plain_name_def same_name_def dot_def dotdot_def str_len_def utf8_len_def eq_ignore_ascii_case_def to_ascii_lowercase_def ex_inode_def)
  have room: "dir_used s + dir_needs ?ops \<le> 4096" using dir_used [OF s(2)] by (simp add: dir_needs_def)
  have run: "list_dir_run ?ops [] = ([Done True, Done True, Found (Some ([97], 0, False)), Done True, Found None, Found (Some ([98, 99], 0, False))], [([98, 99], 0, False)])"
    by (simp add: same_name_def str_len_def utf8_len_def eq_ignore_ascii_case_def to_ascii_lowercase_def remove_first_def get_first_clus_lock_def ex_inode_def)
  show ?thesis using directory_refines_files [OF h ok room, of 7] s(1) unfolding run fst_conv by blast
qed

lemma ex_file: "\<exists>sh ls. gen_dir_ent [] [97] 0 File = Some (sh, ls) \<and> slot_ok (Filed ls sh) \<and> file_name ls sh = [97] \<and> length ls = 1"
  using new_slot [of "[97]" "[]" 0 File] by (auto simp: plain_name_def)

theorem create_then_find_witness:
  "\<exists>sh ls off s1 s2. gen_dir_ent [] [97] 0 File = Some (sh, ls) \<and> create_dir_ent sh ls ex_dir0 = Some (off, s1)
    \<and> find_local_lock [97] s1 = Some (Inr (Some ([97], sh, off)), s2)"
proof -
  obtain sh ls where f: "gen_dir_ent [] [97] 0 File = Some (sh, ls)" "slot_ok (Filed ls sh)" "file_name ls sh = [97]" "length ls = 1"
    using ex_file by blast
  have "dir_ok ({..<2}, \<lambda>_. replicate 512 0, 8192, 4096) (32 * length (all_ents [])) (all_ents [] @ []) ex_dir0"
    using ex_dir0_ok [of 8192] by (simp add: ex_env_def)
  from create_then_find [OF this _ _ f(2)] f show ?thesis by (auto simp: tail_ok_def)
qed

theorem drop_keeps_stale_entry_witness:
  "\<exists>sh ls off s s'. gen_dir_ent [] [97] 0 File = Some (sh, ls) \<and> create_dir_ent sh ls ex_dir0 = Some (off, s)
    \<and> Inode_drop (ex_inode\<lparr>file_content := \<lparr>fc_size = 3, fc_clus_list = [9], fc_hint = 0\<rparr>, parent_dir := Some (7, 32)\<rparr>) s = Some s'
    \<and> file_data s' = file_data s"
proof -
  obtain sh ls where f: "gen_dir_ent [] [97] 0 File = Some (sh, ls)" "slot_ok (Filed ls sh)" "file_name ls sh = [97]" "length ls = 1"
    using ex_file by blast
  have "dir_ok ({..<2}, \<lambda>_. replicate 512 0, 8192, 4096) (32 * length (all_ents [])) (all_ents [] @ []) ex_dir0"
    using ex_dir0_ok [of 8192] by (simp add: ex_env_def)
  then have "ends (create_dir_ent sh ls ex_dir0) (\<lambda>r. \<exists>rest h. dir_ok ({..<2}, \<lambda>_. replicate 512 0, 8192, 4096) h (all_ents [Filed ls sh] @ rest) (snd r))"
    by (rule create_dir_ent_ok [OF _ refl f(2)]) (use f(4) in \<open>simp, metis append_Nil snd_conv\<close>)
  then obtain off s rest h where s: "create_dir_ent sh ls ex_dir0 = Some (off, s)"
    "dir_ok ({..<2}, \<lambda>_. replicate 512 0, 8192, 4096) h (all_ents [Filed ls sh] @ rest) s" unfolding ends_def by (metis prod.collapse)
  let ?ino = "ex_inode\<lparr>file_content := \<lparr>fc_size = 3, fc_clus_list = [9], fc_hint = 0\<rparr>, parent_dir := Some (7, 32)\<rparr>"
  have "(all_ents [Filed ls sh] @ rest) ! 1 = short_bytes sh" using f(4) by (simp add: nth_append)
  then have "\<exists>s'. Inode_drop ?ino s = Some s' \<and> dir_ok ({..<2}, \<lambda>_. replicate 512 0, 8192, 4096) h (all_ents [Filed ls sh] @ rest) s' \<and> file_data s' = file_data s"
    using f(2,4) by (intro drop_keeps_stale_entry [OF s(2), of 1 ?ino 7]) (simp_all add: ex_inode_def)
  then show ?thesis using f(1) s(1) by blast
qed

end
