(* ===== verification/Kernel_Config.thy ===== *)
theory Kernel_Config
  imports Prelude
begin

text \<open>
  The configuration constants of \<^verbatim>\<open>kernel/src/config.rs\<close> (with the values selected by
  \<^verbatim>\<open>board_qemu\<close>, the default board of the Makefile) and the error numbers of
  \<^verbatim>\<open>kernel/src/syscall/errno.rs\<close> that the modelled code returns.
\<close>

definition USER_STACK_SIZE :: usize where [config_defs]: "USER_STACK_SIZE = 4096 * 20"
definition KERNEL_STACK_SIZE :: usize where [config_defs]: "KERNEL_STACK_SIZE = 4096 * 2"
definition MEMORY_END :: usize where [config_defs]: "MEMORY_END = 0x88000000"
definition PAGE_SIZE :: usize where [config_defs]: "PAGE_SIZE = 0x1000"
definition PAGE_SIZE_BITS :: nat where [config_defs]: "PAGE_SIZE_BITS = 0xc"
definition TRAMPOLINE :: usize where [config_defs]: "TRAMPOLINE = (- 1) - PAGE_SIZE + 1"
definition SIGNAL_TRAMPOLINE :: usize where [config_defs]: "SIGNAL_TRAMPOLINE = TRAMPOLINE - PAGE_SIZE"
definition TRAP_CONTEXT_BASE :: usize where [config_defs]: "TRAP_CONTEXT_BASE = SIGNAL_TRAMPOLINE - PAGE_SIZE"
definition SYSTEM_FD_LIMIT :: nat where [config_defs]: "SYSTEM_FD_LIMIT = 256"
definition STACK_TOP :: usize where [config_defs]: "STACK_TOP = 0x100000000"
definition MMAP_BASE :: usize where [config_defs]: "MMAP_BASE = 0x20000000"
definition SECOND_MMAP_BASE :: usize where [config_defs]: "SECOND_MMAP_BASE = 0x40000000"
definition DYN_BASE :: usize where [config_defs]: "DYN_BASE = 0x60000000"

definition SUCCESS :: int where [config_defs]: "SUCCESS = 0"
definition EPERM :: int where [config_defs]: "EPERM = -1"
definition ENOENT :: int where [config_defs]: "ENOENT = -2"
definition EBADF :: int where [config_defs]: "EBADF = -9"
definition ECHILD :: int where [config_defs]: "ECHILD = -10"
definition EAGAIN :: int where [config_defs]: "EAGAIN = -11"
definition EACCES :: int where [config_defs]: "EACCES = -13"
definition EFAULT :: int where [config_defs]: "EFAULT = -14"
definition EEXIST :: int where [config_defs]: "EEXIST = -17"
definition ENOTDIR :: int where [config_defs]: "ENOTDIR = -20"
definition EISDIR :: int where [config_defs]: "EISDIR = -21"
definition EINVAL :: int where [config_defs]: "EINVAL = -22"
definition EMFILE :: int where [config_defs]: "EMFILE = -24"
definition ENOTTY :: int where [config_defs]: "ENOTTY = -25"
definition ETXTBSY :: int where [config_defs]: "ETXTBSY = -26"
definition ENOSPC :: int where [config_defs]: "ENOSPC = -28"
definition ESPIPE :: int where [config_defs]: "ESPIPE = -29"
definition ERANGE :: int where [config_defs]: "ERANGE = -34"
definition ENOTEMPTY :: int where [config_defs]: "ENOTEMPTY = -39"

end
