(* ===== verification/Fd_Table.thy ===== *)
theory Fd_Table
  imports Kernel_Config
begin

unbundle bit_operations_syntax

text \<open>
  \<^verbatim>\<open>kernel/src/fs/mod.rs\<close>, the table of open files of a process, and the system calls of
  \<^verbatim>\<open>kernel/src/syscall/fs.rs\<close> that only work on the table (dup, dup3, close, fcntl).  The
  file behind a descriptor is the type variable \<open>'f\<close>.  The recycled descriptors are a
  vector of bytes in the source, so pushing one truncates it to eight bits.  An index out
  of range of the vector is a panic.
\<close>

section \<open>Descriptors and the table\<close>

record 'f FileDescriptor =
  cloexec :: bool
  nonblock :: bool
  fd_file :: 'f

definition set_cloexec :: "bool \<Rightarrow> 'f FileDescriptor \<Rightarrow> 'f FileDescriptor" where
  "set_cloexec flag fd = fd\<lparr>cloexec := flag\<rparr>"

record 'd FdTable =
  inner :: "'d option list"
  recycled :: "u8 list"
  soft_limit :: nat
  hard_limit :: nat

definition DEFAULT_FD_LIMIT :: nat where
  "DEFAULT_FD_LIMIT = 128"

definition FdTable_new :: "'d option list \<Rightarrow> 'd FdTable" where
  "FdTable_new fds = \<lparr>inner = fds, recycled = [], soft_limit = DEFAULT_FD_LIMIT, hard_limit = SYSTEM_FD_LIMIT\<rparr>"

definition fdt_truncate :: "nat \<Rightarrow> 'd FdTable \<Rightarrow> 'd FdTable" where
  "fdt_truncate limit t =
    (if limit < length (inner t)
     then t\<lparr>inner := take limit (inner t), recycled := filter (\<lambda>fd. unat fd < limit) (recycled t)\<rparr>
     else t)"

definition set_soft_limit :: "nat \<Rightarrow> 'd FdTable \<Rightarrow> 'd FdTable" where
  "set_soft_limit limit t = (fdt_truncate limit t)\<lparr>soft_limit := limit\<rparr>"

definition set_hard_limit :: "nat \<Rightarrow> 'd FdTable \<Rightarrow> 'd FdTable" where
  "set_hard_limit limit t = (fdt_truncate limit t)\<lparr>hard_limit := limit\<rparr>"

definition get_ref :: "'d FdTable \<Rightarrow> nat \<Rightarrow> int + 'd" where
  "get_ref t fd =
    (if length (inner t) \<le> fd then Inl EBADF
     else case inner t ! fd of Some d \<Rightarrow> Inr d | None \<Rightarrow> Inl EBADF)"

text \<open>A mutable reference is given to a function that updates the descriptor.\<close>

definition get_refmut :: "nat \<Rightarrow> ('d \<Rightarrow> 'd) \<Rightarrow> 'd FdTable \<Rightarrow> (int + 'd FdTable)" where
  "get_refmut fd upd t =
    (if length (inner t) \<le> fd then Inl EBADF
     else case inner t ! fd of Some d \<Rightarrow> Inr (t\<lparr>inner := (inner t)[fd := Some (upd d)]\<rparr>) | None \<Rightarrow> Inl EBADF)"

definition fdt_remove :: "nat \<Rightarrow> 'd FdTable \<Rightarrow> (int + 'd) \<times> 'd FdTable" where
  "fdt_remove fd t =
    (if length (inner t) \<le> fd then (Inl EBADF, t)
     else case inner t ! fd of
       Some d \<Rightarrow> (Inr d, t\<lparr>inner := (inner t)[fd := None], recycled := vec_push (recycled t) (of_nat fd)\<rparr>)
     | None \<Rightarrow> (Inl EBADF, t))"

definition fdt_check :: "'d FdTable \<Rightarrow> nat \<Rightarrow> int + unit" where
  "fdt_check t fd =
    (if length (inner t) \<le> fd \<or> inner t ! fd = None then Inl EBADF else Inr ())"

definition set_slot :: "nat \<Rightarrow> 'd \<Rightarrow> 'd FdTable \<Rightarrow> 'd FdTable run" where
  "set_slot fd d t = do {
     rust_assert (fd < length (inner t));
     ret (t\<lparr>inner := (inner t)[fd := Some d]\<rparr>) }"

definition fdt_insert :: "'d \<Rightarrow> 'd FdTable \<Rightarrow> ((int + nat) \<times> 'd FdTable) run" where
  "fdt_insert d t =
    (case vec_pop (recycled t) of
       Some (fd, rest) \<Rightarrow> do {
         t' \<leftarrow> set_slot (unat fd) d (t\<lparr>recycled := rest\<rparr>);
         ret (Inr (unat fd), t') }
     | None \<Rightarrow>
         (let current = length (inner t) in
          if current = soft_limit t then ret (Inl EMFILE, t)
          else ret (Inr current, t\<lparr>inner := vec_push (inner t) (Some d)\<rparr>)))"

definition insert_at :: "'d \<Rightarrow> nat \<Rightarrow> 'd FdTable \<Rightarrow> (int + nat) \<times> 'd FdTable" where
  "insert_at d pos t =
    (let current = length (inner t) in
     if pos < current then
       let rec' = (if inner t ! pos = None then filter (\<lambda>fd. unat fd \<noteq> pos) (recycled t) else recycled t)
       in (Inr pos, t\<lparr>inner := (inner t)[pos := Some d], recycled := rec'\<rparr>)
     else if soft_limit t \<le> pos then (Inl EMFILE, t)
     else (Inr pos, t\<lparr>recycled := recycled t @ map of_nat (rev [current ..< pos]),
                      inner := inner t @ replicate (pos - current) None @ [Some d]\<rparr>))"

definition try_insert_at :: "'d \<Rightarrow> nat \<Rightarrow> 'd FdTable \<Rightarrow> ((int + nat) \<times> 'd FdTable) run" where
  "try_insert_at d hint t =
    (if soft_limit t \<le> hint then ret (Inl EMFILE, t)
     else let current = length (inner t) in
     if hint < current then
       (case inner t ! hint of
          Some _ \<Rightarrow>
            (case find (\<lambda>fd. hint < unat fd) (recycled t) of
               Some fd \<Rightarrow> do { t' \<leftarrow> set_slot (unat fd) d t; ret (Inr (unat fd), t') }
             | None \<Rightarrow>
                 if current = soft_limit t then ret (Inl EMFILE, t)
                 else ret (Inr current, t\<lparr>inner := vec_push (inner t) (Some d)\<rparr>))
        | None \<Rightarrow> ret (Inr hint, t\<lparr>recycled := filter (\<lambda>fd. unat fd \<noteq> hint) (recycled t),
                                  inner := (inner t)[hint := Some d]\<rparr>))
     else if soft_limit t \<le> hint then ret (Inl EMFILE, t)
     else ret (Inr hint, t\<lparr>recycled := recycled t @ map of_nat [current ..< hint],
                           inner := inner t @ replicate (hint - current) None @ [Some d]\<rparr>))"

definition clear_inner :: "'d FdTable \<Rightarrow> 'd FdTable" where
  "clear_inner t = t\<lparr>inner := []\<rparr>"

section \<open>System calls on the table\<close>

text \<open>A system call returns the value for the user, a descriptor or an errno.\<close>

definition sys_dup :: "nat \<Rightarrow> 'f FileDescriptor FdTable \<Rightarrow> (int \<times> 'f FileDescriptor FdTable) run" where
  "sys_dup oldfd t =
    (case get_ref t oldfd of
       Inl errno \<Rightarrow> ret (errno, t)
     | Inr d \<Rightarrow> do {
         (r, t') \<leftarrow> fdt_insert d t;
         ret (case r of Inr fd \<Rightarrow> int fd | Inl errno \<Rightarrow> errno, t') })"

definition O_CLOEXEC :: u32 where "O_CLOEXEC = 0x80000"
definition O_RDONLY :: u32 where "O_RDONLY = 0"
definition O_RDWR :: u32 where "O_RDWR = 2"
definition O_NONBLOCK :: u32 where "O_NONBLOCK = 0x800"

text \<open>The union of all bits that \<^verbatim>\<open>OpenFlags\<close> names.\<close>

definition OpenFlags_all :: u32 where
  "OpenFlags_all = 0x7FFFC3"

definition OpenFlags_from_bits :: "u32 \<Rightarrow> u32 option" where
  "OpenFlags_from_bits b = (if b AND NOT OpenFlags_all = 0 then Some b else None)"

definition sys_dup3 :: "nat \<Rightarrow> nat \<Rightarrow> u32 \<Rightarrow> 'f FileDescriptor FdTable \<Rightarrow> int \<times> 'f FileDescriptor FdTable" where
  "sys_dup3 oldfd newfd flags t =
    (if oldfd = newfd then (EINVAL, t)
     else case OpenFlags_from_bits flags of
       None \<Rightarrow> (EINVAL, t)
     | Some f \<Rightarrow>
         if f \<noteq> O_CLOEXEC \<and> f \<noteq> O_RDONLY then (EINVAL, t)
         else case get_ref t oldfd of
           Inl errno \<Rightarrow> (errno, t)
         | Inr d \<Rightarrow>
             (case insert_at (set_cloexec False d) newfd t of
                (Inr fd, t') \<Rightarrow> (int fd, t')
              | (Inl errno, t') \<Rightarrow> (errno, t')))"

definition sys_close :: "nat \<Rightarrow> 'd FdTable \<Rightarrow> int \<times> 'd FdTable" where
  "sys_close fd t = (case fdt_remove fd t of (Inr _, t') \<Rightarrow> (SUCCESS, t') | (Inl errno, t') \<Rightarrow> (errno, t'))"

definition F_DUPFD :: u32 where "F_DUPFD = 0"
definition F_GETFD :: u32 where "F_GETFD = 1"
definition F_SETFD :: u32 where "F_SETFD = 2"
definition F_GETFL :: u32 where "F_GETFL = 3"
definition F_DUPFD_CLOEXEC :: u32 where "F_DUPFD_CLOEXEC = 1030"
definition FD_CLOEXEC :: usize where "FD_CLOEXEC = 1"

definition sys_fcntl :: "nat \<Rightarrow> u32 \<Rightarrow> usize \<Rightarrow> 'f FileDescriptor FdTable \<Rightarrow> (int \<times> 'f FileDescriptor FdTable) run" where
  "sys_fcntl fd cmd arg t =
    (if cmd = F_DUPFD \<or> cmd = F_DUPFD_CLOEXEC then
       (case get_ref t fd of
          Inl errno \<Rightarrow> ret (errno, t)
        | Inr d \<Rightarrow> do {
            (r, t') \<leftarrow> try_insert_at (if cmd = F_DUPFD then d else set_cloexec True d) (unat arg) t;
            ret (case r of Inr nfd \<Rightarrow> int nfd | Inl errno \<Rightarrow> errno, t') })
     else if cmd = F_GETFD then
       ret (case get_ref t fd of Inl errno \<Rightarrow> errno | Inr d \<Rightarrow> of_bool (cloexec d), t)
     else if cmd = F_SETFD then
       (case get_refmut fd (set_cloexec (arg AND FD_CLOEXEC \<noteq> 0)) t of
          Inl errno \<Rightarrow> ret (errno, t)
        | Inr t' \<Rightarrow> ret (SUCCESS, t'))
     else if cmd = F_GETFL then
       ret (case get_ref t fd of
              Inl errno \<Rightarrow> errno
            | Inr d \<Rightarrow> uint (if nonblock d then O_RDWR OR O_NONBLOCK else O_RDWR), t)
     else ret (SUCCESS, t))"

record RLimit =
  rlim_cur :: usize
  rlim_max :: usize

definition RESOURCE_STACK :: u32 where "RESOURCE_STACK = 3"
definition RESOURCE_NOFILE :: u32 where "RESOURCE_NOFILE = 7"

text \<open>The new limit is the value behind the user pointer, \<open>None\<close> for a null pointer.\<close>

definition sys_prlimit :: "u32 \<Rightarrow> RLimit option \<Rightarrow> 'd FdTable \<Rightarrow> (int \<times> 'd FdTable) run" where
  "sys_prlimit resource new_limit t =
    (case new_limit of
       None \<Rightarrow> ret (SUCCESS, t)
     | Some rlimit \<Rightarrow>
         if resource = RESOURCE_NOFILE then
           ret (SUCCESS, set_hard_limit (unat (rlim_max rlimit)) (set_soft_limit (unat (rlim_cur rlimit)) t))
         else if resource = RESOURCE_STACK then ret (SUCCESS, t)
         else panic)"

section \<open>The interface of a descriptor table\<close>

text \<open>Operations on a table and their effect on the map from descriptors to files.  An
  insertion may only take a descriptor that is free, and the only way it can fail is
  \<^verbatim>\<open>EMFILE\<close>.\<close>

datatype 'd fd_op = FdInsert 'd | FdInsertAt 'd nat | FdRemove nat

fun fd_effect :: "'d fd_op \<Rightarrow> int + nat \<Rightarrow> (nat \<rightharpoonup> 'd) \<Rightarrow> (nat \<rightharpoonup> 'd) option" where
  "fd_effect (FdInsert d) (Inr fd) m = (if m fd = None then Some (m(fd \<mapsto> d)) else None)"
| "fd_effect (FdInsert d) (Inl e) m = (if e = EMFILE then Some m else None)"
| "fd_effect (FdInsertAt d pos) (Inr fd) m = (if fd = pos then Some (m(pos \<mapsto> d)) else None)"
| "fd_effect (FdInsertAt d pos) (Inl e) m = (if e = EMFILE then Some m else None)"
| "fd_effect (FdRemove fd) (Inr r) m = (if r = fd \<and> m fd \<noteq> None then Some (m(fd := None)) else None)"
| "fd_effect (FdRemove fd) (Inl e) m = (if e = EBADF \<and> m fd = None then Some m else None)"

fun fd_effects :: "'d fd_op list \<Rightarrow> (int + nat) list \<Rightarrow> (nat \<rightharpoonup> 'd) \<Rightarrow> (nat \<rightharpoonup> 'd) option" where
  "fd_effects [] [] m = Some m"
| "fd_effects (op # ops) (r # rs) m = Option.bind (fd_effect op r m) (fd_effects ops rs)"
| "fd_effects _ _ m = None"

fun run_fd_ops :: "('d fd_op \<Rightarrow> 't \<Rightarrow> ((int + nat) \<times> 't) run) \<Rightarrow> 'd fd_op list \<Rightarrow> 't \<Rightarrow> ((int + nat) list \<times> 't) run" where
  "run_fd_ops step [] t = ret ([], t)"
| "run_fd_ops step (op # ops) t = do {
     (r, t1) \<leftarrow> step op t;
     (rs, t2) \<leftarrow> run_fd_ops step ops t1;
     ret (r # rs, t2) }"

locale descriptor_table =
  fixes invar :: "'t \<Rightarrow> bool"
    and content :: "'t \<Rightarrow> nat \<rightharpoonup> 'd"
    and step :: "'d fd_op \<Rightarrow> 't \<Rightarrow> ((int + nat) \<times> 't) run"
  assumes step_ok: "invar t \<Longrightarrow>
    \<exists>r t'. step op t = Some (r, t') \<and> invar t' \<and> fd_effect op r (content t) = Some (content t')"
begin

lemma run_refines:
  assumes "invar t"
  shows "\<exists>rs t'. run_fd_ops step ops t = Some (rs, t') \<and> invar t' \<and> fd_effects ops rs (content t) = Some (content t')"
  using assms
proof (induction ops arbitrary: t)
  case Nil
  then show ?case by simp
next
  case (Cons op ops)
  obtain r t1 where 1: "step op t = Some (r, t1)" "invar t1" "fd_effect op r (content t) = Some (content t1)"
    using step_ok [OF Cons.prems] by blast
  obtain rs t2 where "run_fd_ops step ops t1 = Some (rs, t2)" "invar t2"
    "fd_effects ops rs (content t1) = Some (content t2)" using Cons.IH [OF 1(2)] by blast
  then show ?case using 1 by simp
qed

end

section \<open>The table implements the interface\<close>

definition fdt_content :: "'d FdTable \<Rightarrow> nat \<rightharpoonup> 'd" where
  "fdt_content t fd = (if fd < length (inner t) then inner t ! fd else None)"

text \<open>The recycled descriptors are, without repetition, exactly the free slots of the
  vector.  Descriptors must fit into a byte.\<close>

definition fdt_invar :: "'d FdTable \<Rightarrow> bool" where
  "fdt_invar t \<longleftrightarrow> distinct (recycled t)
    \<and> (\<forall>fd. fd \<in> unat ` set (recycled t) \<longleftrightarrow> fd < length (inner t) \<and> inner t ! fd = None)
    \<and> length (inner t) \<le> soft_limit t \<and> soft_limit t \<le> 256"

definition fdt_step :: "'d fd_op \<Rightarrow> 'd FdTable \<Rightarrow> ((int + nat) \<times> 'd FdTable) run" where
  "fdt_step op t =
    (case op of
       FdInsert d \<Rightarrow> fdt_insert d t
     | FdInsertAt d pos \<Rightarrow> ret (insert_at d pos t)
     | FdRemove fd \<Rightarrow> (case fdt_remove fd t of (r, t') \<Rightarrow> ret (map_sum id (\<lambda>_. fd) r, t')))"

lemma unat_of_nat8: "n < 256 \<Longrightarrow> unat (of_nat n :: u8) = n"
  by (simp add: unat_of_nat)

lemma fdt_content_update:
  assumes "fd < length (inner t)"
  shows "fdt_content (t\<lparr>inner := (inner t)[fd := x]\<rparr>) = (fdt_content t)(fd := x)"
  using assms by (auto simp: fdt_content_def)

lemma get_ref_content: "get_ref t fd = (case fdt_content t fd of Some d \<Rightarrow> Inr d | None \<Rightarrow> Inl EBADF)"
  by (simp add: get_ref_def fdt_content_def)

lemma fdt_insert_spec:
  assumes "fdt_invar t"
  shows "\<exists>r t'. fdt_insert d t = Some (r, t') \<and> fdt_invar t' \<and> soft_limit t' = soft_limit t
    \<and> fd_effect (FdInsert d) r (fdt_content t) = Some (fdt_content t')
    \<and> (r = Inl EMFILE \<longleftrightarrow> (\<forall>fd < soft_limit t. fdt_content t fd \<noteq> None))"
proof (cases "vec_pop (recycled t)")
  case None
  then have empty: "recycled t = []" by simp
  show ?thesis
  proof (cases "length (inner t) = soft_limit t")
    case True
    then have "\<forall>fd < soft_limit t. fdt_content t fd \<noteq> None"
      using assms empty by (auto simp: fdt_invar_def fdt_content_def)
    then show ?thesis using True assms empty by (simp add: fdt_insert_def)
  next
    case False
    let ?n = "length (inner t)" and ?t = "t\<lparr>inner := vec_push (inner t) (Some d)\<rparr>"
    have lt: "?n < soft_limit t" using False assms by (simp add: fdt_invar_def)
    have "fdt_invar ?t" using assms lt empty by (auto simp: fdt_invar_def vec_push_def nth_append less_Suc_eq)
    moreover have "fdt_content ?t = (fdt_content t)(?n \<mapsto> d)"
      by (auto simp: fdt_content_def vec_push_def nth_append less_Suc_eq)
    moreover have "fdt_content t ?n = None" by (simp add: fdt_content_def)
    ultimately show ?thesis using False lt empty by (auto simp: fdt_insert_def)
  qed
next
  case (Some p)
  obtain fd rest where p: "p = (fd, rest)" by (cases p)
  then have rec': "recycled t = rest @ [fd]" using Some by (simp add: vec_pop_Some_iff)
  then have free: "unat fd < length (inner t)" "inner t ! unat fd = None" and fresh: "fd \<notin> set rest" "distinct rest"
    using assms by (auto simp: fdt_invar_def)
  let ?t = "t\<lparr>recycled := rest, inner := (inner t)[unat fd := Some d]\<rparr>"
  have slots: "x \<in> unat ` set rest \<longleftrightarrow> x < length (inner t) \<and> inner t ! x = None \<and> x \<noteq> unat fd" for x
  proof -
    have "x \<in> unat ` set (recycled t) \<longleftrightarrow> x < length (inner t) \<and> inner t ! x = None"
      using assms by (simp add: fdt_invar_def)
    moreover have "unat fd \<notin> unat ` set rest" using fresh(1) by (auto dest: unat_eqD)
    ultimately show ?thesis by (auto simp: rec')
  qed
  have "fdt_invar ?t"
    using assms free fresh by (auto simp: fdt_invar_def slots nth_list_update)
  moreover have "fdt_content ?t = (fdt_content t)(unat fd \<mapsto> d)"
    using free by (auto simp: fdt_content_def)
  moreover have "fdt_content t (unat fd) = None" using free by (simp add: fdt_content_def)
  moreover have "unat fd < soft_limit t" using free assms by (simp add: fdt_invar_def)
  ultimately show ?thesis using Some free by (auto simp: fdt_insert_def p set_slot_def)
qed

lemma insert_at_spec:
  assumes inv: "fdt_invar t" and run: "insert_at d pos t = (r, t')"
  shows "fdt_invar t' \<and> fd_effect (FdInsertAt d pos) r (fdt_content t) = Some (fdt_content t')
    \<and> (r = Inl EMFILE \<longleftrightarrow> soft_limit t \<le> pos)"
proof -
  consider (old) "pos < length (inner t)" | (big) "length (inner t) \<le> pos" "soft_limit t \<le> pos"
    | (new) "length (inner t) \<le> pos" "pos < soft_limit t" by linarith
  then show ?thesis
  proof cases
    case old
    let ?rec = "if inner t ! pos = None then filter (\<lambda>fd. unat fd \<noteq> pos) (recycled t) else recycled t"
    have t': "r = Inr pos" "t' = t\<lparr>inner := (inner t)[pos := Some d], recycled := ?rec\<rparr>"
      using run old by (simp_all add: insert_at_def Let_def)
    have iff: "x \<in> unat ` set (recycled t) \<longleftrightarrow> x < length (inner t) \<and> inner t ! x = None" for x
      using inv by (simp add: fdt_invar_def)
    have "x \<in> unat ` set ?rec \<longleftrightarrow> x \<in> unat ` set (recycled t) \<and> x \<noteq> pos" for x
      using iff [of pos] by auto
    then have "x \<in> unat ` set (recycled t') \<longleftrightarrow> x < length (inner t') \<and> inner t' ! x = None" for x
      using iff [of x] old by (simp add: t' nth_list_update)
    moreover have "distinct (recycled t')" using inv by (simp add: t' fdt_invar_def)
    ultimately have "fdt_invar t'" using inv by (simp add: fdt_invar_def t')
    moreover have "fdt_content t' = (fdt_content t)(pos \<mapsto> d)" using old by (auto simp: t' fdt_content_def)
    moreover have "pos < soft_limit t" using inv old by (simp add: fdt_invar_def)
    ultimately show ?thesis by (simp add: t')
  next
    case big
    then show ?thesis using inv run by (auto simp: insert_at_def)
  next
    case new
    let ?n = "length (inner t)"
    have t': "r = Inr pos" "t' = t\<lparr>recycled := recycled t @ map of_nat (rev [?n ..< pos]),
        inner := inner t @ replicate (pos - ?n) None @ [Some d]\<rparr>"
      using run new by (simp_all add: insert_at_def Let_def)
    have small: "pos < 256" using new inv by (simp add: fdt_invar_def)
    have img: "unat ` (of_nat :: nat \<Rightarrow> u8) ` {?n ..< pos} = {?n ..< pos}"
    proof -
      have "(\<lambda>x. unat (of_nat x :: u8)) ` {?n ..< pos} = (\<lambda>x. x) ` {?n ..< pos}"
        using small by (intro image_cong refl unat_of_nat8) simp
      then show ?thesis by (simp add: image_image)
    qed
    have inj: "inj_on (of_nat :: nat \<Rightarrow> u8) {?n ..< pos}"
    proof (rule inj_onI)
      fix x y assume *: "x \<in> {?n ..< pos}" "y \<in> {?n ..< pos}" "(of_nat x :: u8) = of_nat y"
      have "unat (of_nat x :: u8) = x" "unat (of_nat y :: u8) = y"
        using *(1,2) small by (simp_all add: unat_of_nat8)
      then show "x = y" unfolding *(3) by (simp only:)
    qed
    have "of_nat x \<notin> set (recycled t)" if "?n \<le> x" "x < pos" for x
    proof
      assume "(of_nat x :: u8) \<in> set (recycled t)"
      then have "unat (of_nat x :: u8) < ?n" using inv by (auto simp: fdt_invar_def)
      then show False using that small by (simp add: unat_of_nat8)
    qed
    then have "distinct (recycled t')" using inv inj by (auto simp: t' fdt_invar_def distinct_map)
    moreover have "x \<in> unat ` set (recycled t') \<longleftrightarrow> x < length (inner t') \<and> inner t' ! x = None" for x
      using inv new img by (auto simp: t' fdt_invar_def image_Un nth_append less_Suc_eq)
    ultimately have "fdt_invar t'" using inv new by (simp add: fdt_invar_def t')
    moreover have "fdt_content t' = (fdt_content t)(pos \<mapsto> d)"
      using new by (auto simp: t' fdt_content_def nth_append fun_eq_iff less_Suc_eq)
    ultimately show ?thesis using new by (simp add: t')
  qed
qed

lemma fdt_remove_spec:
  assumes inv: "fdt_invar t" and run: "fdt_remove fd t = (r, t')"
  shows "fdt_invar t' \<and> fd_effect (FdRemove fd) (map_sum id (\<lambda>_. fd) r) (fdt_content t) = Some (fdt_content t')
    \<and> (case r of Inr d \<Rightarrow> fdt_content t fd = Some d | Inl e \<Rightarrow> t' = t)"
proof (cases "fdt_content t fd")
  case None
  then have "r = Inl EBADF" "t' = t" using run by (auto simp: fdt_remove_def fdt_content_def split: if_splits option.splits)
  then show ?thesis using inv None by simp
next
  case (Some d)
  then have fd: "fd < length (inner t)" "inner t ! fd = Some d" by (auto simp: fdt_content_def split: if_splits)
  then have t': "r = Inr d" "t' = t\<lparr>inner := (inner t)[fd := None], recycled := vec_push (recycled t) (of_nat fd)\<rparr>"
    using run by (simp_all add: fdt_remove_def)
  have small: "fd < 256" using fd inv by (simp add: fdt_invar_def)
  have iff: "x \<in> unat ` set (recycled t) \<longleftrightarrow> x < length (inner t) \<and> inner t ! x = None" for x
    using inv by (simp add: fdt_invar_def)
  have "of_nat fd \<notin> set (recycled t)"
  proof
    assume "of_nat fd \<in> set (recycled t)"
    then have "unat (of_nat fd :: u8) \<in> unat ` set (recycled t)" by blast
    then show False using fd small unfolding iff by (simp add: unat_of_nat8)
  qed
  then have "distinct (recycled t')" using inv by (simp add: t' fdt_invar_def)
  moreover have "x \<in> unat ` set (recycled t') \<longleftrightarrow> x < length (inner t') \<and> inner t' ! x = None" for x
    using iff [of x] fd small by (auto simp: t' unat_of_nat8 nth_list_update)
  ultimately have "fdt_invar t'" using inv by (simp add: fdt_invar_def t')
  moreover have "fdt_content t' = (fdt_content t)(fd := None)" using fd by (auto simp: t' fdt_content_def)
  ultimately show ?thesis using Some by (simp add: t')
qed

interpretation fdt: descriptor_table fdt_invar fdt_content fdt_step
proof
  fix t :: "'d FdTable" and op
  assume inv: "fdt_invar t"
  show "\<exists>r t'. fdt_step op t = Some (r, t') \<and> fdt_invar t' \<and> fd_effect op r (fdt_content t) = Some (fdt_content t')"
  proof (cases op)
    case (FdInsert d)
    then show ?thesis using fdt_insert_spec [OF inv, of d] by (auto simp: fdt_step_def)
  next
    case (FdInsertAt d pos)
    obtain r t' where "insert_at d pos t = (r, t')" by (cases "insert_at d pos t")
    then show ?thesis using insert_at_spec [OF inv] FdInsertAt by (auto simp: fdt_step_def)
  next
    case (FdRemove fd)
    obtain r t' where "fdt_remove fd t = (r, t')" by (cases "fdt_remove fd t")
    then show ?thesis using fdt_remove_spec [OF inv] FdRemove by (auto simp: fdt_step_def)
  qed
qed

section \<open>Properties\<close>

text \<open>The table of a new process: standard input, output and error.\<close>

definition fdt_stdio :: "nat FileDescriptor FdTable" where
  "fdt_stdio = FdTable_new (map (\<lambda>f. Some \<lparr>cloexec = False, nonblock = False, fd_file = f\<rparr>) [0, 1, 2])"

lemma fdt_invar_full:
  assumes "length ds \<le> 128"
  shows "fdt_invar (FdTable_new (map Some ds))"
  using assms by (auto simp: fdt_invar_def FdTable_new_def DEFAULT_FD_LIMIT_def)

lemma fdt_invar_stdio: "fdt_invar fdt_stdio"
  using fdt_invar_full [of "map (\<lambda>f. \<lparr>cloexec = False, nonblock = False, fd_file = f\<rparr>) [0, 1, 2 :: nat]"]
  by (simp add: fdt_stdio_def)

text \<open>C20: while all limits stay within a byte, every sequence of insertions, insertions at a
  chosen number and removals runs without panic, keeps the table well formed and does to
  the map from descriptors to files what the results say: an insertion only ever takes a
  free number, only \<^verbatim>\<open>EMFILE\<close> and \<^verbatim>\<open>EBADF\<close> are reported, and no other entry changes.\<close>

theorem fd_table_refines_map:
  assumes "fdt_invar t"
  shows "\<exists>rs t'. run_fd_ops fdt_step ops t = Some (rs, t') \<and> fdt_invar t'
    \<and> fd_effects ops rs (fdt_content t) = Some (fdt_content t')"
  using assms by (rule fdt.run_refines)

theorem fd_table_refines_map_witness:
  "\<exists>rs t'. run_fd_ops fdt_step [FdRemove 1, FdInsert \<lparr>cloexec = True, nonblock = False, fd_file = 9\<rparr>] fdt_stdio = Some (rs, t')
    \<and> fdt_invar t'
    \<and> fd_effects [FdRemove 1, FdInsert \<lparr>cloexec = True, nonblock = False, fd_file = 9\<rparr>] rs (fdt_content fdt_stdio)
      = Some (fdt_content t')"
  by (rule fd_table_refines_map [OF fdt_invar_stdio])

lemma sys_dup_cases:
  assumes inv: "fdt_invar t" and d: "fdt_content t oldfd = Some d"
  shows "\<exists>r t'. sys_dup oldfd t = Some (r, t') \<and> fdt_invar t'
    \<and> (if \<forall>fd < soft_limit t. fdt_content t fd \<noteq> None then r = EMFILE \<and> fdt_content t' = fdt_content t
       else \<exists>fd. r = int fd \<and> fdt_content t fd = None \<and> fdt_content t' = (fdt_content t)(fd \<mapsto> d))"
proof -
  obtain r t' where ins: "fdt_insert d t = Some (r, t')" "fdt_invar t'"
    "fd_effect (FdInsert d) r (fdt_content t) = Some (fdt_content t')"
    "r = Inl EMFILE \<longleftrightarrow> (\<forall>fd < soft_limit t. fdt_content t fd \<noteq> None)"
    using fdt_insert_spec [OF inv, of d] by blast
  have run: "sys_dup oldfd t = Some (case r of Inr fd \<Rightarrow> int fd | Inl errno \<Rightarrow> errno, t')"
    using d ins(1) by (simp add: sys_dup_def get_ref_content)
  show ?thesis
  proof (cases r)
    case (Inl e)
    then have "e = EMFILE" "fdt_content t' = fdt_content t" using ins(3) by (auto split: if_splits)
    then show ?thesis using run ins(2,4) Inl by simp
  next
    case (Inr fd)
    then have "fdt_content t fd = None" "fdt_content t' = (fdt_content t)(fd \<mapsto> d)"
      using ins(3) by (auto split: if_splits)
    then show ?thesis using run ins(2,4) Inr by auto
  qed
qed

text \<open>C29: duplicating an open descriptor either reports \<^verbatim>\<open>EMFILE\<close>, exactly when every number
  below the soft limit is open, or returns a number that was free and now names the same
  file; closing that number again gives back the table the process had.  Duplicating or
  closing a number that is not open reports \<^verbatim>\<open>EBADF\<close> and changes nothing.\<close>

theorem dup_close_roundtrip:
  assumes "fdt_invar t"
  shows "case fdt_content t oldfd of
      None \<Rightarrow> sys_dup oldfd t = Some (EBADF, t) \<and> sys_close oldfd t = (EBADF, t)
    | Some d \<Rightarrow> \<exists>r t'. sys_dup oldfd t = Some (r, t') \<and> fdt_invar t'
        \<and> (if \<forall>fd < soft_limit t. fdt_content t fd \<noteq> None then r = EMFILE \<and> fdt_content t' = fdt_content t
           else \<exists>fd t''. r = int fd \<and> fdt_content t fd = None \<and> fdt_content t' = (fdt_content t)(fd \<mapsto> d)
             \<and> sys_close fd t' = (SUCCESS, t'') \<and> fdt_invar t'' \<and> fdt_content t'' = fdt_content t)"
proof (cases "fdt_content t oldfd")
  case None
  then show ?thesis
    by (auto simp: sys_dup_def sys_close_def get_ref_content fdt_remove_def fdt_content_def split: if_splits)
next
  case (Some d)
  obtain r t' where dup: "sys_dup oldfd t = Some (r, t')" "fdt_invar t'"
    "if \<forall>fd < soft_limit t. fdt_content t fd \<noteq> None then r = EMFILE \<and> fdt_content t' = fdt_content t
     else \<exists>fd. r = int fd \<and> fdt_content t fd = None \<and> fdt_content t' = (fdt_content t)(fd \<mapsto> d)"
    using sys_dup_cases [OF assms Some] by blast
  have "\<exists>t''. sys_close fd t' = (SUCCESS, t'') \<and> fdt_invar t'' \<and> fdt_content t'' = fdt_content t"
    if fd: "fdt_content t fd = None" "fdt_content t' = (fdt_content t)(fd \<mapsto> d)" for fd
  proof -
    obtain q t'' where rem: "fdt_remove fd t' = (q, t'')" by (cases "fdt_remove fd t'")
    then have "fdt_invar t''" "fd_effect (FdRemove fd) (map_sum id (\<lambda>_. fd) q) (fdt_content t') = Some (fdt_content t'')"
      using fdt_remove_spec [OF dup(2)] by blast+
    moreover from this obtain x where "q = Inr x" using fd by (cases q) auto
    moreover have "(fdt_content t)(fd := None) = fdt_content t" using fd(1) by auto
    ultimately show ?thesis using rem fd by (simp add: sys_close_def)
  qed
  then show ?thesis using dup Some by (auto split: if_splits)
qed

theorem dup_close_roundtrip_witness:
  "sys_dup 7 fdt_stdio = Some (EBADF, fdt_stdio) \<and> sys_close 7 fdt_stdio = (EBADF, fdt_stdio)"
  using dup_close_roundtrip [OF fdt_invar_stdio, of 7]
  by (simp add: fdt_content_def fdt_stdio_def FdTable_new_def)



end
