(* ===== verification/Pipe.thy ===== *)
theory Pipe
  imports Fd_Table
begin

text \<open>
  \<^verbatim>\<open>kernel/src/fs/dev/pipe.rs\<close>: the ring buffer of a pipe and its two ends, and
  \<^verbatim>\<open>sys_pipe\<close>.  The reader and the writer give up the processor when the buffer is empty
  or full; what the other tasks do to the buffer in the meantime is the argument \<open>env\<close> of the
  loops, a function of the number of suspensions.  The loops take fuel, one unit a round;
  the outer \<open>None\<close> of their result is out of fuel.
\<close>

section \<open>The ring buffer\<close>

definition RING_BUFFER_SIZE :: nat where
  "RING_BUFFER_SIZE = 1024"

datatype RingBufferStatus = Full | Empty | Normal

text \<open>A weak reference to an end of the pipe is \<open>Some alive\<close> once it has been set.\<close>

record PipeRingBuffer =
  arr :: "u8 list"
  head :: nat
  tail :: nat
  status :: RingBufferStatus
  write_end :: "bool option"
  read_end :: "bool option"

definition PipeRingBuffer_new :: PipeRingBuffer where
  "PipeRingBuffer_new = \<lparr>arr = replicate RING_BUFFER_SIZE 0, head = 0, tail = 0, status = Empty,
     write_end = None, read_end = None\<rparr>"

definition set_write_end :: "bool \<Rightarrow> PipeRingBuffer \<Rightarrow> PipeRingBuffer" where
  "set_write_end alive rb = rb\<lparr>write_end := Some alive\<rparr>"

definition set_read_end :: "bool \<Rightarrow> PipeRingBuffer \<Rightarrow> PipeRingBuffer" where
  "set_read_end alive rb = rb\<lparr>read_end := Some alive\<rparr>"

definition write_byte :: "u8 \<Rightarrow> PipeRingBuffer \<Rightarrow> PipeRingBuffer" where
  "write_byte byte rb =
    (let rb1 = rb\<lparr>status := Normal, arr := (arr rb)[tail rb := byte], tail := (tail rb + 1) mod RING_BUFFER_SIZE\<rparr>
     in if tail rb1 = head rb1 then rb1\<lparr>status := Full\<rparr> else rb1)"

definition read_byte :: "PipeRingBuffer \<Rightarrow> u8 \<times> PipeRingBuffer" where
  "read_byte rb =
    (let c = arr rb ! head rb;
         rb1 = rb\<lparr>status := Normal, head := (head rb + 1) mod RING_BUFFER_SIZE\<rparr>
     in (c, if head rb1 = tail rb1 then rb1\<lparr>status := Empty\<rparr> else rb1))"

definition available_read :: "PipeRingBuffer \<Rightarrow> nat" where
  "available_read rb =
    (if status rb = Empty then 0
     else if head rb < tail rb then tail rb - head rb
     else tail rb + RING_BUFFER_SIZE - head rb)"

definition available_write :: "PipeRingBuffer \<Rightarrow> nat" where
  "available_write rb = (if status rb = Full then 0 else RING_BUFFER_SIZE - available_read rb)"

definition all_write_ends_closed :: "PipeRingBuffer \<Rightarrow> bool run" where
  "all_write_ends_closed rb = do { alive \<leftarrow> write_end rb; ret (\<not> alive) }"

definition all_read_ends_closed :: "PipeRingBuffer \<Rightarrow> bool run" where
  "all_read_ends_closed rb = do { alive \<leftarrow> read_end rb; ret (\<not> alive) }"

section \<open>The ends of a pipe\<close>

record Pipe =
  readable :: bool
  writable :: bool

definition read_end_with_buffer :: Pipe where
  "read_end_with_buffer = \<lparr>readable = True, writable = False\<rparr>"

definition write_end_with_buffer :: Pipe where
  "write_end_with_buffer = \<lparr>readable = False, writable = True\<rparr>"

definition make_pipe :: "Pipe \<times> Pipe \<times> PipeRingBuffer" where
  "make_pipe = (read_end_with_buffer, write_end_with_buffer,
     set_read_end True (set_write_end True PipeRingBuffer_new))"

text \<open>One round of the reader for a user buffer of \<open>want\<close> bytes: give up the processor, or
  return the bytes stored to the front of the user buffer.\<close>

datatype 'a outcome = Suspend | Return 'a

fun read_loop :: "nat \<Rightarrow> nat \<Rightarrow> u8 list \<Rightarrow> PipeRingBuffer \<Rightarrow> u8 list \<times> PipeRingBuffer" where
  "read_loop 0 want got rb = (got, rb)"
| "read_loop (Suc n) want got rb =
    (if length got < want then
       (let (c, rb') = read_byte rb; got' = got @ [c]
        in if length got' = want then (got', rb') else read_loop n want got' rb')
     else (got, rb))"

definition read_round :: "nat \<Rightarrow> PipeRingBuffer \<Rightarrow> (u8 list outcome \<times> PipeRingBuffer) run" where
  "read_round want rb =
    (let avail = available_read rb in
     if avail = 0 then do {
       closed \<leftarrow> all_write_ends_closed rb;
       ret (if closed then Return [] else Suspend, rb) }
     else (let (got, rb') = read_loop avail want [] rb in ret (Return got, rb')))"

fun read_rounds :: "nat \<Rightarrow> (nat \<Rightarrow> PipeRingBuffer \<Rightarrow> PipeRingBuffer) \<Rightarrow> nat \<Rightarrow> nat \<Rightarrow> PipeRingBuffer \<Rightarrow>
    (u8 list \<times> PipeRingBuffer) run option" where
  "read_rounds 0 env i want rb = None"
| "read_rounds (Suc fuel) env i want rb =
    (case read_round want rb of
       None \<Rightarrow> Some panic
     | Some (Return got, rb') \<Rightarrow> Some (ret (got, rb'))
     | Some (Suspend, rb') \<Rightarrow> read_rounds fuel env (Suc i) want (env i rb'))"

definition read_user :: "nat \<Rightarrow> (nat \<Rightarrow> PipeRingBuffer \<Rightarrow> PipeRingBuffer) \<Rightarrow> Pipe \<Rightarrow> nat \<Rightarrow> PipeRingBuffer \<Rightarrow>
    (u8 list \<times> PipeRingBuffer) run option" where
  "read_user fuel env p want rb = (if readable p then read_rounds fuel env 0 want rb else Some panic)"

text \<open>The writer: \<open>rest\<close> are the bytes its iterator has not given yet, \<open>already\<close> counts the
  bytes written.  The result of the inner loop says whether the call returns.\<close>

fun write_loop :: "nat \<Rightarrow> nat \<Rightarrow> u8 list \<Rightarrow> nat \<Rightarrow> PipeRingBuffer \<Rightarrow> bool \<times> u8 list \<times> nat \<times> PipeRingBuffer" where
  "write_loop 0 want rest already rb = (False, rest, already, rb)"
| "write_loop (Suc n) want [] already rb = (True, [], already, rb)"
| "write_loop (Suc n) want (b # rest) already rb =
    (let rb' = write_byte b rb
     in if already + 1 = want then (True, rest, already + 1, rb') else write_loop n want rest (already + 1) rb')"

fun write_rounds :: "nat \<Rightarrow> (nat \<Rightarrow> PipeRingBuffer \<Rightarrow> PipeRingBuffer) \<Rightarrow> nat \<Rightarrow> nat \<Rightarrow> u8 list \<Rightarrow> nat \<Rightarrow> PipeRingBuffer \<Rightarrow>
    (nat \<times> PipeRingBuffer) option" where
  "write_rounds 0 env i want rest already rb = None"
| "write_rounds (Suc fuel) env i want rest already rb =
    (let avail = available_write rb in
     if avail = 0 then write_rounds fuel env (Suc i) want rest already (env i rb)
     else case write_loop avail want rest already rb of
       (True, _, already', rb') \<Rightarrow> Some (already', rb')
     | (False, rest', already', rb') \<Rightarrow> write_rounds fuel env i want rest' already' rb')"

definition write_user :: "nat \<Rightarrow> (nat \<Rightarrow> PipeRingBuffer \<Rightarrow> PipeRingBuffer) \<Rightarrow> Pipe \<Rightarrow> u8 list \<Rightarrow> PipeRingBuffer \<Rightarrow>
    (nat \<times> PipeRingBuffer) run option" where
  "write_user fuel env p buf rb =
    (if writable p then map_option ret (write_rounds fuel env 0 (length buf) buf 0 rb) else Some panic)"

text \<open>\<^verbatim>\<open>write\<close> takes a kernel slice and is otherwise the same loop.\<close>

definition pipe_write :: "nat \<Rightarrow> (nat \<Rightarrow> PipeRingBuffer \<Rightarrow> PipeRingBuffer) \<Rightarrow> Pipe \<Rightarrow> u8 list \<Rightarrow> PipeRingBuffer \<Rightarrow>
    (nat \<times> PipeRingBuffer) run option" where
  "pipe_write fuel env p buf rb =
    (if writable p then map_option ret (write_rounds fuel env 0 (length buf) buf 0 rb) else Some panic)"

definition r_ready :: "PipeRingBuffer \<Rightarrow> bool" where
  "r_ready rb = (status rb \<noteq> Empty)"

definition w_ready :: "PipeRingBuffer \<Rightarrow> bool" where
  "w_ready rb = (status rb \<noteq> Full)"

definition pipe_hang_up :: "Pipe \<Rightarrow> PipeRingBuffer \<Rightarrow> bool run" where
  "pipe_hang_up p rb = (if readable p then all_write_ends_closed rb else all_read_ends_closed rb)"

definition pipe_get_size :: nat where
  "pipe_get_size = RING_BUFFER_SIZE"

definition pipe_lseek :: "int \<Rightarrow> u32 \<Rightarrow> int + nat" where
  "pipe_lseek offset whence = Inl ESPIPE"

text \<open>\<^verbatim>\<open>sys_pipe\<close>: \<open>mk\<close> makes the file of an end.  The result has the pair of descriptors
  stored to the user's array when the call succeeds.\<close>

definition sys_pipe :: "(Pipe \<Rightarrow> 'f) \<Rightarrow> 'f FileDescriptor FdTable \<Rightarrow>
    (int \<times> (u32 \<times> u32) option \<times> 'f FileDescriptor FdTable) run" where
  "sys_pipe mk t = do {
     let (pipe_read, pipe_write, _) = make_pipe;
     (r1, t1) \<leftarrow> fdt_insert \<lparr>cloexec = False, nonblock = False, fd_file = mk pipe_read\<rparr> t;
     (case r1 of
        Inl errno \<Rightarrow> ret (errno, None, t1)
      | Inr read_fd \<Rightarrow> do {
          (r2, t2) \<leftarrow> fdt_insert \<lparr>cloexec = False, nonblock = False, fd_file = mk pipe_write\<rparr> t1;
          (case r2 of
             Inl errno \<Rightarrow> ret (errno, None, t2)
           | Inr write_fd \<Rightarrow> ret (SUCCESS, Some (of_nat read_fd, of_nat write_fd), t2)) }) }"

section \<open>Bounded queues\<close>

text \<open>What the transfer loops need of a buffer of bytes.\<close>

locale byte_queue =
  fixes invar :: "'q \<Rightarrow> bool"
    and content :: "'q \<Rightarrow> u8 list"
    and enq :: "u8 \<Rightarrow> 'q \<Rightarrow> 'q"
    and deq :: "'q \<Rightarrow> u8 \<times> 'q"
    and cap :: nat
  assumes cap_bound: "invar q \<Longrightarrow> length (content q) \<le> cap"
    and enq_ok: "invar q \<Longrightarrow> length (content q) < cap \<Longrightarrow>
      invar (enq b q) \<and> content (enq b q) = content q @ [b]"
    and deq_ok: "invar q \<Longrightarrow> content q = c # cs \<Longrightarrow> \<exists>q'. deq q = (c, q') \<and> invar q' \<and> content q' = cs"
begin

lemma enq_all:
  assumes "invar q" and "length (content q) + length bs \<le> cap"
  shows "invar (foldl (\<lambda>q b. enq b q) q bs)" and "content (foldl (\<lambda>q b. enq b q) q bs) = content q @ bs"
proof -
  have "invar (foldl (\<lambda>q b. enq b q) q bs) \<and> content (foldl (\<lambda>q b. enq b q) q bs) = content q @ bs"
    using assms
  proof (induction bs arbitrary: q)
    case (Cons b bs)
    have e: "invar (enq b q)" "content (enq b q) = content q @ [b]" using enq_ok [of q b] Cons.prems by auto
    then show ?case using Cons.IH [of "enq b q"] Cons.prems(2) by simp
  qed simp
  then show "invar (foldl (\<lambda>q b. enq b q) q bs)" "content (foldl (\<lambda>q b. enq b q) q bs) = content q @ bs" by blast+
qed

end

section \<open>The ring buffer is a bounded queue\<close>

definition rb_content :: "PipeRingBuffer \<Rightarrow> u8 list" where
  "rb_content rb = map (\<lambda>k. arr rb ! ((head rb + k) mod RING_BUFFER_SIZE)) [0 ..< available_read rb]"

definition rb_invar :: "PipeRingBuffer \<Rightarrow> bool" where
  "rb_invar rb \<longleftrightarrow> length (arr rb) = RING_BUFFER_SIZE \<and> head rb < RING_BUFFER_SIZE \<and> tail rb < RING_BUFFER_SIZE
    \<and> tail rb = (head rb + available_read rb) mod RING_BUFFER_SIZE
    \<and> (status rb = Empty \<longleftrightarrow> available_read rb = 0)
    \<and> (status rb = Full \<longleftrightarrow> available_read rb = RING_BUFFER_SIZE)"

lemma length_rb_content [simp]: "length (rb_content rb) = available_read rb"
  by (simp add: rb_content_def)

lemma rb_size [simp]: "RING_BUFFER_SIZE = 1024"
  by (simp add: RING_BUFFER_SIZE_def)

lemma available_read_le: "rb_invar rb \<Longrightarrow> available_read rb \<le> RING_BUFFER_SIZE"
  by (auto simp: rb_invar_def available_read_def split: if_splits)

lemma available_write_eq: "rb_invar rb \<Longrightarrow> available_write rb = RING_BUFFER_SIZE - available_read rb"
  by (auto simp: rb_invar_def available_write_def)

lemma ring_mod: "x < 2048 \<Longrightarrow> x mod 1024 = (if x < 1024 then x else x - 1024)" for x :: nat
  by (simp add: mod_if)

lemma rb_tail:
  assumes "rb_invar rb"
  shows "tail rb = (if head rb + available_read rb < 1024 then head rb + available_read rb
                    else head rb + available_read rb - 1024)"
    and "head rb < 1024" and "tail rb < 1024" and "available_read rb \<le> 1024"
proof -
  show le: "available_read rb \<le> 1024" using available_read_le [OF assms] by simp
  show h: "head rb < 1024" "tail rb < 1024" using assms by (simp_all add: rb_invar_def)
  have "tail rb = (head rb + available_read rb) mod 1024" using assms by (simp add: rb_invar_def)
  also have "\<dots> = (if head rb + available_read rb < 1024 then head rb + available_read rb
                    else head rb + available_read rb - 1024)"
    using le h by (intro ring_mod) simp
  finally show "tail rb = (if head rb + available_read rb < 1024 then head rb + available_read rb
                    else head rb + available_read rb - 1024)" .
qed

lemma write_byte_avail:
  assumes inv: "rb_invar rb" and room: "available_read rb < RING_BUFFER_SIZE"
  shows "available_read (write_byte b rb) = Suc (available_read rb)"
    and "status (write_byte b rb) = (if Suc (available_read rb) = RING_BUFFER_SIZE then Full else Normal)"
    and "tail (write_byte b rb) = (tail rb + 1) mod RING_BUFFER_SIZE" and "head (write_byte b rb) = head rb"
    and "arr (write_byte b rb) = (arr rb)[tail rb := b]"
proof -
  note t = rb_tail [OF inv]
  have t': "(tail rb + 1) mod 1024 = (if tail rb + 1 < 1024 then tail rb + 1 else 0)"
    using t(3) by (simp add: ring_mod)
  have full: "(tail rb + 1) mod 1024 = head rb \<longleftrightarrow> Suc (available_read rb) = 1024"
    using t room unfolding t' by (auto split: if_splits)
  show "status (write_byte b rb) = (if Suc (available_read rb) = RING_BUFFER_SIZE then Full else Normal)"
    "tail (write_byte b rb) = (tail rb + 1) mod RING_BUFFER_SIZE" "head (write_byte b rb) = head rb"
    "arr (write_byte b rb) = (arr rb)[tail rb := b]"
    using full by (simp_all add: write_byte_def Let_def)
  have "available_read (write_byte b rb) =
    (if head rb < (tail rb + 1) mod 1024 then (tail rb + 1) mod 1024 - head rb else (tail rb + 1) mod 1024 + 1024 - head rb)"
    by (simp add: available_read_def write_byte_def Let_def)
  also have "\<dots> = Suc (available_read rb)" using t room unfolding t' by (auto split: if_splits)
  finally show "available_read (write_byte b rb) = Suc (available_read rb)" .
qed

lemma rb_enq:
  assumes inv: "rb_invar rb" and room: "available_read rb < RING_BUFFER_SIZE"
  shows "rb_invar (write_byte b rb)" and "rb_content (write_byte b rb) = rb_content rb @ [b]"
proof -
  note t = rb_tail [OF inv] and w = write_byte_avail [OF inv room, of b]
  have len: "length (arr rb) = 1024" using inv by (simp add: rb_invar_def)
  have tail: "tail rb = (head rb + available_read rb) mod 1024" using inv by (simp add: rb_invar_def)
  then have "(tail rb + 1) mod 1024 = (head rb + Suc (available_read rb)) mod 1024"
    by (simp add: mod_Suc_eq)
  then show "rb_invar (write_byte b rb)" using t len room by (auto simp: rb_invar_def w)
  have other: "(arr rb)[tail rb := b] ! ((head rb + k) mod 1024) = arr rb ! ((head rb + k) mod 1024)"
    if "k < available_read rb" for k
  proof -
    have "(head rb + k) mod 1024 = (if head rb + k < 1024 then head rb + k else head rb + k - 1024)"
      using that t by (intro ring_mod) simp
    then have "(head rb + k) mod 1024 \<noteq> tail rb" using that t room by (auto split: if_splits)
    then show ?thesis by simp
  qed
  have "(arr rb)[tail rb := b] ! ((head rb + available_read rb) mod 1024) = b"
    using t len unfolding tail [symmetric] by simp
  then show "rb_content (write_byte b rb) = rb_content rb @ [b]"
    using other by (simp add: rb_content_def w)
qed

lemma rb_deq:
  assumes inv: "rb_invar rb" and c: "rb_content rb = c # cs"
  shows "\<exists>rb'. read_byte rb = (c, rb') \<and> rb_invar rb' \<and> rb_content rb' = cs"
proof -
  note t = rb_tail [OF inv]
  have pos: "0 < available_read rb" using c length_rb_content [of rb] by simp
  let ?h = "(head rb + 1) mod 1024" and ?rb = "snd (read_byte rb)"
  have h: "?h = (if head rb + 1 < 1024 then head rb + 1 else 0)" using t(2) by (simp add: ring_mod)
  have empty: "?h = tail rb \<longleftrightarrow> available_read rb = 1"
    using t pos unfolding h by (auto split: if_splits)
  have f: "status ?rb = (if available_read rb = 1 then Empty else Normal)" "head ?rb = ?h"
    "tail ?rb = tail rb" "arr ?rb = arr rb" using empty by (auto simp: read_byte_def Let_def)
  have "available_read ?rb = (if available_read rb = 1 then 0 else if ?h < tail rb then tail rb - ?h else tail rb + 1024 - ?h)"
    unfolding available_read_def [of ?rb] f by simp
  also have "\<dots> = available_read rb - 1" using t pos unfolding h by (auto split: if_splits)
  finally have avail: "available_read ?rb = available_read rb - 1" .
  have idx: "(Suc (head rb) mod 1024 + k) mod 1024 = Suc (head rb + k) mod 1024" for k by (simp add: mod_add_left_eq)
  have tail: "tail rb = (?h + (available_read rb - 1)) mod 1024"
    using inv pos by (cases "available_read rb") (simp_all add: rb_invar_def idx)
  have "length (arr rb) = 1024" using inv by (simp add: rb_invar_def)
  then have "rb_invar ?rb"
    unfolding rb_invar_def [of ?rb] f avail rb_size using tail t(2-4) pos by (intro conjI) auto
  moreover have "rb_content rb = arr rb ! head rb # rb_content ?rb"
  proof -
    have "[0 ..< available_read rb] = 0 # map Suc [0 ..< available_read rb - 1]"
      using pos by (simp add: map_Suc_upt upt_conv_Cons)
    then show ?thesis using t(2) by (simp add: rb_content_def avail f idx)
  qed
  moreover have "fst (read_byte rb) = arr rb ! head rb" by (simp add: read_byte_def Let_def)
  ultimately show ?thesis using c by (cases "read_byte rb") simp
qed

interpretation ring: byte_queue rb_invar rb_content write_byte read_byte RING_BUFFER_SIZE
proof
  fix q :: PipeRingBuffer and b c cs
  show "rb_invar q \<Longrightarrow> length (rb_content q) \<le> RING_BUFFER_SIZE" by (simp add: rb_tail(4))
  show "rb_invar q \<Longrightarrow> length (rb_content q) < RING_BUFFER_SIZE \<Longrightarrow>
      rb_invar (write_byte b q) \<and> rb_content (write_byte b q) = rb_content q @ [b]"
    using rb_enq by simp
  show "rb_invar q \<Longrightarrow> rb_content q = c # cs \<Longrightarrow>
      \<exists>q'. read_byte q = (c, q') \<and> rb_invar q' \<and> rb_content q' = cs"
    by (rule rb_deq)
qed

section \<open>Transfers\<close>

lemma byte_ends [simp]:
  "write_end (write_byte b rb) = write_end rb" "read_end (write_byte b rb) = read_end rb"
  "write_end (snd (read_byte rb)) = write_end rb" "read_end (snd (read_byte rb)) = read_end rb"
  by (simp_all add: write_byte_def read_byte_def Let_def)

lemma read_loop_spec:
  assumes "rb_invar rb" and "n \<le> length (rb_content rb)" and "length got \<le> want"
  shows "\<exists>rb'. read_loop n want got rb = (got @ take (min n (want - length got)) (rb_content rb), rb')
    \<and> rb_invar rb' \<and> rb_content rb' = drop (min n (want - length got)) (rb_content rb)
    \<and> write_end rb' = write_end rb \<and> read_end rb' = read_end rb"
  using assms
proof (induction n arbitrary: got rb)
  case 0
  then show ?case by simp
next
  case (Suc n)
  show ?case
  proof (cases "length got < want")
    case False
    then show ?thesis using Suc.prems(1) by simp
  next
    case True
    obtain c cs where c: "rb_content rb = c # cs" using Suc.prems(2) by (cases "rb_content rb") auto
    obtain rb1 where rb1: "read_byte rb = (c, rb1)" "rb_invar rb1" "rb_content rb1 = cs"
      using rb_deq [OF Suc.prems(1) c] by blast
    have ends: "write_end rb1 = write_end rb" "read_end rb1 = read_end rb"
      using rb1(1) byte_ends(3,4) [of rb] by simp_all
    have k: "min (Suc n) (want - length got) = Suc (min n (want - length (got @ [c])))" using True by simp
    show ?thesis
    proof (cases "length (got @ [c]) = want")
      case True
      then show ?thesis using rb1 ends \<open>length got < want\<close> by (simp add: k c)
    next
      case False
      have "n \<le> length (rb_content rb1)" "length (got @ [c]) \<le> want"
        using Suc.prems(2) True c rb1(3) by (simp_all del: length_rb_content)
      from Suc.IH [OF rb1(2) this] show ?thesis
        using False True rb1 ends by (auto simp: k c)
    qed
  qed
qed

lemma read_round_spec:
  assumes "rb_invar rb" and "write_end rb = Some alive"
  shows "\<exists>rb'. read_round want rb =
      Some (if rb_content rb = [] then if alive then Suspend else Return [] else Return (take want (rb_content rb)), rb')
    \<and> rb_invar rb' \<and> rb_content rb' = drop want (rb_content rb)
    \<and> write_end rb' = write_end rb \<and> read_end rb' = read_end rb"
proof (cases "rb_content rb = []")
  case True
  then have "available_read rb = 0" using length_rb_content [of rb] by simp
  then show ?thesis using assms True by (simp add: read_round_def all_write_ends_closed_def)
next
  case False
  then have avail: "available_read rb \<noteq> 0" by (simp add: rb_content_def)
  have min: "take (min (available_read rb) want) (rb_content rb) = take want (rb_content rb)"
    "drop (min (available_read rb) want) (rb_content rb) = drop want (rb_content rb)"
    by (simp_all add: min_def)
  show ?thesis
    using read_loop_spec [OF assms(1), of "available_read rb" "[]" want] avail False
    by (auto simp: read_round_def Let_def min)
qed

lemma write_loop_spec:
  assumes "rb_invar rb" and "n \<le> RING_BUFFER_SIZE - length (rb_content rb)" and "want = already + length rest" and "0 < n"
  shows "\<exists>rb'. write_loop n want rest already rb =
      (length rest \<le> n, drop n rest, already + min n (length rest), rb')
    \<and> rb_invar rb' \<and> rb_content rb' = rb_content rb @ take n rest
    \<and> write_end rb' = write_end rb \<and> read_end rb' = read_end rb"
  using assms
proof (induction n want rest already rb rule: write_loop.induct)
  case (3 n want b rest already rb)
  let ?rb = "write_byte b rb"
  have e: "rb_invar ?rb" "rb_content ?rb = rb_content rb @ [b]"
    using rb_enq [OF "3.prems"(1)] "3.prems"(2) by simp_all
  show ?case
  proof (cases "rest = [] \<or> n = 0")
    case True
    then show ?thesis using e "3.prems"(3) by (auto simp: Let_def)
  next
    case False
    then have "already + 1 \<noteq> want" "n \<le> RING_BUFFER_SIZE - length (rb_content ?rb)"
      "want = already + 1 + length rest" "0 < n"
      using "3.prems"(2,3) e(2) by (auto simp del: length_rb_content)
    from "3.IH" [OF refl this(1) e(1) this(2-4)] show ?thesis
      using \<open>already + 1 \<noteq> want\<close> e(2) by (auto simp: Let_def)
  qed
qed simp_all

section \<open>Suspended loops\<close>

text \<open>The buffer as the loop sees it after \<open>k\<close> suspensions that each changed it.\<close>

fun env_after :: "(nat \<Rightarrow> PipeRingBuffer \<Rightarrow> PipeRingBuffer) \<Rightarrow> nat \<Rightarrow> nat \<Rightarrow> PipeRingBuffer \<Rightarrow> PipeRingBuffer" where
  "env_after env i 0 rb = rb"
| "env_after env i (Suc k) rb = env_after env (Suc i) k (env i rb)"

definition pipe_ok :: "PipeRingBuffer \<Rightarrow> bool" where
  "pipe_ok rb \<longleftrightarrow> rb_invar rb \<and> write_end rb \<noteq> None \<and> read_end rb \<noteq> None"

definition read_finished :: "PipeRingBuffer \<Rightarrow> bool" where
  "read_finished rb \<longleftrightarrow> rb_content rb \<noteq> [] \<or> write_end rb = Some False"

lemma pipe_ok_new: "pipe_ok (snd (snd make_pipe))"
  by (simp add: pipe_ok_def make_pipe_def rb_invar_def PipeRingBuffer_new_def available_read_def
      set_read_end_def set_write_end_def)

lemma read_rounds_returns:
  assumes "\<And>i rb. pipe_ok rb \<Longrightarrow> pipe_ok (env i rb)" and "pipe_ok rb"
    and "read_finished (env_after env i k rb)" and "k < fuel"
  shows "\<exists>j\<le>k. \<exists>rb'. read_rounds fuel env i want rb = Some (Some (take want (rb_content (env_after env i j rb)), rb'))
    \<and> pipe_ok rb' \<and> rb_content rb' = drop want (rb_content (env_after env i j rb))
    \<and> read_finished (env_after env i j rb)"
  using assms(2-)
proof (induction k arbitrary: fuel i rb)
  case 0
  then obtain f where f: "fuel = Suc f" by (cases fuel) auto
  obtain alive where alive: "write_end rb = Some alive" using "0.prems"(1) by (auto simp: pipe_ok_def)
  have "rb_invar rb" using "0.prems"(1) by (simp add: pipe_ok_def)
  from read_round_spec [OF this alive, of want] "0.prems" alive
  show ?case by (auto simp: f read_finished_def pipe_ok_def)
next
  case (Suc k)
  then obtain f where f: "fuel = Suc f" by (cases fuel) auto
  obtain alive where alive: "write_end rb = Some alive" using Suc.prems(1) by (auto simp: pipe_ok_def)
  have inv: "rb_invar rb" using Suc.prems(1) by (simp add: pipe_ok_def)
  obtain rb' where rd: "read_round want rb =
      Some (if rb_content rb = [] then if alive then Suspend else Return [] else Return (take want (rb_content rb)), rb')"
    "rb_invar rb'" "rb_content rb' = drop want (rb_content rb)"
    "write_end rb' = write_end rb" "read_end rb' = read_end rb"
    using read_round_spec [OF inv alive, of want] by blast
  show ?case
  proof (cases "read_finished rb")
    case True
    then show ?thesis using rd Suc.prems(1) alive
      by (intro exI [of _ 0]) (auto simp: f read_finished_def pipe_ok_def)
  next
    case False
    then have sus: "rb_content rb = []" "alive" using alive by (auto simp: read_finished_def)
    then have same: "read_round want rb = Some (Suspend, rb)"
      using alive length_rb_content [of rb] by (simp add: read_round_def all_write_ends_closed_def)
    have "pipe_ok (env i rb)" "read_finished (env_after env (Suc i) k (env i rb))" "k < f"
      using assms(1) [OF Suc.prems(1)] Suc.prems(2,3) by (simp_all add: f)
    from Suc.IH [OF this] obtain j rb'' where j: "j \<le> k"
      "read_rounds f env (Suc i) want (env i rb) = Some (Some (take want (rb_content (env_after env (Suc i) j (env i rb))), rb''))"
      "pipe_ok rb''" "rb_content rb'' = drop want (rb_content (env_after env (Suc i) j (env i rb)))"
      "read_finished (env_after env (Suc i) j (env i rb))" by blast
    then show ?thesis using same by (intro exI [of _ "Suc j"]) (auto simp: f)
  qed
qed

lemma write_rounds_returns:
  assumes env: "\<And>i rb. pipe_ok rb \<Longrightarrow> pipe_ok (env i rb) \<and> 0 < available_write (env i rb)"
    and "pipe_ok rb" and "want = already + length rest"
    and "2 * length rest + (if available_write rb = 0 then 1 else 0) < fuel"
  shows "\<exists>rb'. write_rounds fuel env i want rest already rb = Some (want, rb') \<and> pipe_ok rb'"
  using assms(2-)
proof (induction fuel arbitrary: i rest already rb)
  case 0
  then show ?case by simp
next
  case (Suc fuel)
  show ?case
  proof (cases "available_write rb = 0")
    case True
    have "pipe_ok (env i rb)" "available_write (env i rb) \<noteq> 0" using env [OF Suc.prems(1)] by auto
    then show ?thesis using Suc.IH [of "env i rb" already rest "Suc i"] Suc.prems(2,3) True by simp
  next
    case False
    let ?n = "available_write rb"
    have inv: "rb_invar rb" using Suc.prems(1) by (simp add: pipe_ok_def)
    have "?n \<le> RING_BUFFER_SIZE - length (rb_content rb)" by (simp add: available_write_eq [OF inv])
    then obtain rb' where w: "write_loop ?n want rest already rb =
        (length rest \<le> ?n, drop ?n rest, already + min ?n (length rest), rb')"
      "rb_invar rb'" "write_end rb' = write_end rb" "read_end rb' = read_end rb"
      using write_loop_spec [OF inv _ Suc.prems(2)] False by blast
    have ok: "pipe_ok rb'" using w Suc.prems(1) by (simp add: pipe_ok_def)
    show ?thesis
    proof (cases "length rest \<le> ?n")
      case True
      then show ?thesis using w(1) ok False Suc.prems(2) by (simp add: Let_def min_def)
    next
      case more: False
      have "want = already + min ?n (length rest) + length (drop ?n rest)" using more Suc.prems(2) by simp
      moreover have "2 * length (drop ?n rest) + (if available_write rb' = 0 then 1 else 0) < fuel"
        using more False Suc.prems(3) by auto
      ultimately show ?thesis using Suc.IH [OF ok, of "already + min ?n (length rest)" "drop ?n rest" i] w(1) more False
        by (simp add: Let_def)
    qed
  qed
qed

section \<open>Properties\<close>

text \<open>The histories of a pipe: the bytes its writers have stored and the bytes its readers have
  got, under any interleaving of the rounds of readers and writers and of closed ends.\<close>

inductive pipe_history :: "u8 list \<Rightarrow> u8 list \<Rightarrow> PipeRingBuffer \<Rightarrow> bool" where
  created: "make_pipe = (r, w, rb) \<Longrightarrow> pipe_history [] [] rb"
| wrote: "pipe_history ws rs rb \<Longrightarrow> available_write rb \<noteq> 0 \<Longrightarrow> want = already + length rest \<Longrightarrow>
    write_loop (available_write rb) want rest already rb = (fin, rest', already', rb') \<Longrightarrow>
    pipe_history (ws @ take (already' - already) rest) rs rb'"
| got: "pipe_history ws rs rb \<Longrightarrow> read_round want rb = Some (Return bs, rb') \<Longrightarrow> pipe_history ws (rs @ bs) rb'"
| close_write: "pipe_history ws rs rb \<Longrightarrow> pipe_history ws rs (set_write_end False rb)"
| close_read: "pipe_history ws rs rb \<Longrightarrow> pipe_history ws rs (set_read_end False rb)"

lemma set_end_simps [simp]:
  "rb_invar (set_write_end b rb) = rb_invar rb" "rb_content (set_write_end b rb) = rb_content rb"
  "rb_invar (set_read_end b rb) = rb_invar rb" "rb_content (set_read_end b rb) = rb_content rb"
  by (simp_all add: rb_invar_def rb_content_def set_write_end_def set_read_end_def available_read_def)

lemma pipe_history_fifo:
  assumes "pipe_history ws rs rb"
  shows "pipe_ok rb \<and> ws = rs @ rb_content rb"
  using assms
proof induction
  case (created r w rb)
  then show ?case using pipe_ok_new by (auto simp: make_pipe_def rb_content_def available_read_def
      PipeRingBuffer_new_def set_read_end_def set_write_end_def)
next
  case (wrote ws rs rb want already rest fin rest' already' rb')
  have inv: "rb_invar rb" using wrote.IH by (simp add: pipe_ok_def)
  have "available_write rb \<le> RING_BUFFER_SIZE - length (rb_content rb)" by (simp add: available_write_eq [OF inv])
  from write_loop_spec [OF inv this wrote.hyps(3)] wrote.hyps(2,4)
  have *: "already' = already + min (available_write rb) (length rest)" "rb_invar rb'"
    "rb_content rb' = rb_content rb @ take (available_write rb) rest"
    "write_end rb' = write_end rb" "read_end rb' = read_end rb" by auto
  have "take (already' - already) rest = take (available_write rb) rest" by (simp add: *(1) min_def)
  then show ?case using *(2-) wrote.IH by (simp add: pipe_ok_def)
next
  case (got ws rs rb want bs rb')
  obtain alive where alive: "write_end rb = Some alive" using got.IH by (auto simp: pipe_ok_def)
  have inv: "rb_invar rb" using got.IH by (simp add: pipe_ok_def)
  from read_round_spec [OF inv alive, of want] got.hyps(2)
  have "bs = take want (rb_content rb)" "rb_invar rb'" "rb_content rb' = drop want (rb_content rb)"
    "write_end rb' = write_end rb" "read_end rb' = read_end rb" by (auto split: if_splits)
  then show ?case using got.IH by (simp add: pipe_ok_def)
qed (auto simp: pipe_ok_def, auto simp: set_write_end_def set_read_end_def)

text \<open>C21: a pipe is a queue.  Under every interleaving of reading and writing rounds and of
  closing its ends, the bytes its readers have got followed by the bytes in the ring buffer
  are exactly the bytes its writers have stored, in order, with at most 1024 bytes in
  flight; the buffer reports itself readable when it holds a byte and writable when it has
  room, and the number of bytes it can give and take is right.\<close>

theorem pipe_delivers_in_order:
  assumes "pipe_history written delivered rb"
  shows "written = delivered @ rb_content rb \<and> available_read rb = length written - length delivered
    \<and> available_read rb + available_write rb = RING_BUFFER_SIZE
    \<and> r_ready rb = (delivered \<noteq> written) \<and> w_ready rb = (length (rb_content rb) < RING_BUFFER_SIZE)"
proof -
  have inv: "rb_invar rb" and ws: "written = delivered @ rb_content rb"
    using pipe_history_fifo [OF assms] by (auto simp: pipe_ok_def)
  have "r_ready rb = (available_read rb \<noteq> 0)" "w_ready rb = (available_read rb \<noteq> RING_BUFFER_SIZE)"
    using inv by (auto simp: rb_invar_def r_ready_def w_ready_def)
  moreover have "(rb_content rb = []) = (available_read rb = 0)" by (simp add: rb_content_def)
  ultimately show ?thesis using ws rb_tail(4) [OF inv] available_write_eq [OF inv] by auto
qed

theorem pipe_delivers_in_order_witness:
  "\<exists>rb. [7, 8, 9] = [7, 8] @ rb_content rb \<and> available_read rb = length [7 :: u8, 8, 9] - length [7 :: u8, 8]
    \<and> available_read rb + available_write rb = RING_BUFFER_SIZE
    \<and> r_ready rb = ([7, 8] \<noteq> [7 :: u8, 8, 9]) \<and> w_ready rb = (length (rb_content rb) < RING_BUFFER_SIZE)"
proof -
  obtain rb0 where new: "pipe_history [] [] rb0" "pipe_ok rb0" "rb_content rb0 = []"
    using pipe_history.created [of read_end_with_buffer write_end_with_buffer "snd (snd make_pipe)"]
      pipe_ok_new pipe_history_fifo [of "[]" "[]" "snd (snd make_pipe)"]
    by (simp add: make_pipe_def)
  have inv0: "rb_invar rb0" using new(2) by (simp add: pipe_ok_def)
  have aw: "available_write rb0 = 1024" using available_write_eq [OF inv0] new(3) length_rb_content [of rb0] by simp
  obtain rb1 where w: "write_loop 1024 3 [7, 8, 9] 0 rb0 = (True, [], 3, rb1)" "rb_invar rb1"
    "rb_content rb1 = [7, 8, 9]" "write_end rb1 = write_end rb0"
    using write_loop_spec [OF inv0, of 1024 3 0 "[7, 8, 9]"] new(3) length_rb_content [of rb0] by auto
  have h1: "pipe_history [7, 8, 9] [] rb1"
    using pipe_history.wrote [OF new(1), of 3 0 "[7, 8, 9]" True "[]" 3 rb1] w(1) by (simp add: aw)
  obtain alive where "write_end rb1 = Some alive" using w(4) new(2) by (auto simp: pipe_ok_def)
  from read_round_spec [OF w(2) this, of 2] obtain rb2 where "read_round 2 rb1 = Some (Return [7, 8], rb2)"
    by (auto simp: w(3))
  from pipe_history.got [OF h1 this] have "pipe_history [7, 8, 9] [7, 8] rb2" by simp
  from pipe_delivers_in_order [OF this] show ?thesis by blast
qed

definition feeder :: "nat \<Rightarrow> PipeRingBuffer \<Rightarrow> PipeRingBuffer" where
  "feeder i rb = (if w_ready rb then write_byte 5 rb else rb)"

lemma feeder_ok: "pipe_ok rb \<Longrightarrow> pipe_ok (feeder i rb)"
proof -
  assume ok: "pipe_ok rb"
  then have inv: "rb_invar rb" by (simp add: pipe_ok_def)
  show ?thesis
  proof (cases "w_ready rb")
    case True
    then have "available_read rb < RING_BUFFER_SIZE" using inv rb_tail(4) [OF inv] by (auto simp: rb_invar_def w_ready_def)
    then show ?thesis using rb_enq(1) [OF inv] ok True by (simp add: feeder_def pipe_ok_def)
  qed (use ok in \<open>simp add: feeder_def\<close>)
qed

text \<open>C32: a reader returns.  When the other tasks keep the buffer well formed and after \<open>k\<close>
  suspensions there is a byte to read or the writers are gone, the call returns within
  \<open>k + 1\<close> rounds, with the first bytes, at most as many as wanted, of the buffer as it was
  at its last round; it never returns empty-handed while a writer is alive.\<close>

theorem pipe_read_returns:
  assumes "\<forall>i rb. pipe_ok rb \<longrightarrow> pipe_ok (env i rb)" and "pipe_ok rb"
    and "read_finished (env_after env 0 k rb)" and "k < fuel"
  shows "\<exists>j\<le>k. \<exists>rb'. read_user fuel env read_end_with_buffer want rb =
      Some (Some (take want (rb_content (env_after env 0 j rb)), rb'))
    \<and> rb_content rb' = drop want (rb_content (env_after env 0 j rb))
    \<and> (rb_content (env_after env 0 j rb) \<noteq> [] \<or> write_end (env_after env 0 j rb) = Some False)"
  using read_rounds_returns [of env rb 0 k fuel want] assms
  by (auto simp: read_user_def read_end_with_buffer_def read_finished_def)

theorem pipe_read_returns_witness:
  "\<exists>j\<le>1. \<exists>rb'. read_user 2 feeder read_end_with_buffer 4 (snd (snd make_pipe)) =
      Some (Some (take 4 (rb_content (env_after feeder 0 j (snd (snd make_pipe)))), rb'))
    \<and> rb_content rb' = drop 4 (rb_content (env_after feeder 0 j (snd (snd make_pipe))))
    \<and> (rb_content (env_after feeder 0 j (snd (snd make_pipe))) \<noteq> []
      \<or> write_end (env_after feeder 0 j (snd (snd make_pipe))) = Some False)"
proof (rule pipe_read_returns)
  show "\<forall>i rb. pipe_ok rb \<longrightarrow> pipe_ok (feeder i rb)" using feeder_ok by blast
  have "rb_content (write_byte 5 (snd (snd make_pipe))) = rb_content (snd (snd make_pipe)) @ [5]"
    using pipe_ok_new by (intro rb_enq(2)) (simp_all add: pipe_ok_def make_pipe_def PipeRingBuffer_new_def
      available_read_def set_read_end_def set_write_end_def)
  moreover have "w_ready (snd (snd make_pipe))"
    by (simp add: w_ready_def make_pipe_def PipeRingBuffer_new_def set_read_end_def set_write_end_def)
  ultimately show "read_finished (env_after feeder 0 1 (snd (snd make_pipe)))"
    by (simp add: read_finished_def feeder_def)
qed (simp_all add: pipe_ok_new)

text \<open>C33: a writer returns.  When every suspension leaves a well-formed buffer with some room,
  \<^verbatim>\<open>write_user\<close> writes all bytes of the user buffer and returns their number, within two
  rounds a byte.\<close>

theorem pipe_write_returns:
  assumes "\<forall>i rb. pipe_ok rb \<longrightarrow> pipe_ok (env i rb) \<and> 0 < available_write (env i rb)" and "pipe_ok rb"
    and "2 * length buf + 1 < fuel"
  shows "\<exists>rb'. write_user fuel env write_end_with_buffer buf rb = Some (Some (length buf, rb'))"
proof -
  have "2 * length buf + (if available_write rb = 0 then 1 else 0) < fuel" using assms(3) by simp
  then obtain rb' where "write_rounds fuel env 0 (length buf) buf 0 rb = Some (length buf, rb')"
    using write_rounds_returns [of env rb "length buf" 0 buf fuel 0] assms(1,2) by auto
  then show ?thesis by (simp add: write_user_def write_end_with_buffer_def)
qed

definition drainer :: "nat \<Rightarrow> PipeRingBuffer \<Rightarrow> PipeRingBuffer" where
  "drainer i rb = (if r_ready rb then snd (read_byte rb) else rb)"

lemma drainer_ok:
  assumes ok: "pipe_ok rb"
  shows "pipe_ok (drainer i rb) \<and> 0 < available_write (drainer i rb)"
proof -
  have inv: "rb_invar rb" using ok by (simp add: pipe_ok_def)
  show ?thesis
  proof (cases "r_ready rb")
    case True
    then have "0 < available_read rb" using inv by (auto simp: rb_invar_def r_ready_def)
    then obtain c cs where c: "rb_content rb = c # cs" by (cases "rb_content rb") (auto simp: rb_content_def)
    obtain rb' where rb': "read_byte rb = (c, rb')" "rb_invar rb'" "rb_content rb' = cs" using rb_deq [OF inv c] by blast
    have "available_read rb' < 1024"
      using c rb'(3) rb_tail(4) [OF inv] length_rb_content [of rb] length_rb_content [of rb'] by simp
    then have "0 < available_write rb'" using available_write_eq [OF rb'(2)] by simp
    moreover have "pipe_ok rb'" using ok rb' byte_ends(3,4) [of rb] by (simp add: pipe_ok_def)
    ultimately show ?thesis using True rb'(1) by (simp add: drainer_def)
  next
    case False
    then have "available_read rb = 0" using inv by (auto simp: rb_invar_def r_ready_def)
    then show ?thesis using ok False available_write_eq [OF inv] by (simp add: drainer_def)
  qed
qed

theorem pipe_write_returns_witness:
  "\<exists>rb'. write_user 4002 drainer write_end_with_buffer (replicate 2000 7) (snd (snd make_pipe)) = Some (Some (2000, rb'))"
  using pipe_write_returns [of drainer "snd (snd make_pipe)" "replicate 2000 7" 4002] drainer_ok pipe_ok_new
  by (simp del: replicate.simps)



text \<open>When only one descriptor is free, \<^verbatim>\<open>sys_pipe\<close> fails and leaves the read end in the table.\<close>

lemma sys_pipe_leaks_read_end:
  "\<exists>t'. sys_pipe mk \<lparr>inner = [], recycled = [], soft_limit = 1, hard_limit = 256\<rparr> = Some (EMFILE, None, t')
    \<and> fdt_content t' 0 = Some \<lparr>cloexec = False, nonblock = False, fd_file = mk read_end_with_buffer\<rparr>"
  by (simp add: sys_pipe_def make_pipe_def fdt_insert_def vec_push_def fdt_content_def)

end
