(* ===== verification/Timer.thy ===== *)
theory Timer
  imports Kernel_Config
begin

text \<open>
  \<^verbatim>\<open>kernel/src/timer.rs\<close>: readings of the clock, the time types \<^verbatim>\<open>TimeSpec\<close>, \<^verbatim>\<open>TimeVal\<close>,
  \<^verbatim>\<open>ITimerVal\<close> and \<^verbatim>\<open>Times\<close> with their arithmetic and order, on 64-bit words.  The
  time register is an argument of the functions that read it.  The frequency is the one of
  the board \<^verbatim>\<open>qemu\<close>.
\<close>

section \<open>Reading the clock\<close>

definition CLOCK_FREQ :: usize where "CLOCK_FREQ = 12500000"
definition TICKS_PER_SEC :: usize where "TICKS_PER_SEC = 100"
definition MSEC_PER_SEC :: usize where "MSEC_PER_SEC = 1000"
definition USEC_PER_SEC :: usize where "USEC_PER_SEC = 1000000"
definition USEC_PER_MSEC :: usize where "USEC_PER_MSEC = 1000"
definition NSEC_PER_SEC :: usize where "NSEC_PER_SEC = 1000000000"
definition NSEC_PER_MSEC :: usize where "NSEC_PER_MSEC = 1000000"
definition NSEC_PER_USEC :: usize where "NSEC_PER_USEC = 1000"

lemmas time_units = CLOCK_FREQ_def TICKS_PER_SEC_def MSEC_PER_SEC_def USEC_PER_SEC_def USEC_PER_MSEC_def
  NSEC_PER_SEC_def NSEC_PER_MSEC_def NSEC_PER_USEC_def

definition get_time_sec :: "usize \<Rightarrow> usize" where
  "get_time_sec time = time div CLOCK_FREQ"

definition get_time_ms :: "usize \<Rightarrow> usize" where
  "get_time_ms time = time div (CLOCK_FREQ div MSEC_PER_SEC)"

definition get_time_us :: "usize \<Rightarrow> usize" where
  "get_time_us time = time div (CLOCK_FREQ div USEC_PER_SEC)"

definition get_time_ns :: "usize \<Rightarrow> usize" where
  "get_time_ns time = time * NSEC_PER_SEC div CLOCK_FREQ"

definition next_trigger :: "usize \<Rightarrow> usize" where
  "next_trigger time = time + CLOCK_FREQ div TICKS_PER_SEC"

section \<open>Seconds and nanoseconds\<close>

datatype TimeSpec = TimeSpec (tv_sec: usize) (tv_nsec: usize)

definition TimeSpec_new :: TimeSpec where
  "TimeSpec_new = TimeSpec 0 0"

definition ts_from_tick :: "usize \<Rightarrow> TimeSpec" where
  "ts_from_tick tick = TimeSpec (tick div CLOCK_FREQ) ((tick mod CLOCK_FREQ) * NSEC_PER_SEC div CLOCK_FREQ)"

definition ts_from_s :: "usize \<Rightarrow> TimeSpec" where
  "ts_from_s s = TimeSpec s 0"

definition ts_from_ms :: "usize \<Rightarrow> TimeSpec" where
  "ts_from_ms ms = TimeSpec (ms div MSEC_PER_SEC) ((ms mod MSEC_PER_SEC) * NSEC_PER_MSEC)"

definition ts_from_us :: "usize \<Rightarrow> TimeSpec" where
  "ts_from_us us = TimeSpec (us div USEC_PER_SEC) ((us mod USEC_PER_SEC) * NSEC_PER_USEC)"

definition ts_from_ns :: "usize \<Rightarrow> TimeSpec" where
  "ts_from_ns ns = TimeSpec (ns div NSEC_PER_SEC) (ns mod NSEC_PER_SEC)"

definition ts_to_ns :: "TimeSpec \<Rightarrow> usize" where
  "ts_to_ns t = tv_sec t * NSEC_PER_SEC + tv_nsec t"

definition ts_is_zero :: "TimeSpec \<Rightarrow> bool" where
  "ts_is_zero t \<longleftrightarrow> tv_sec t = 0 \<and> tv_nsec t = 0"

definition ts_now :: "usize \<Rightarrow> TimeSpec" where
  "ts_now time = ts_from_tick time"

definition ts_add_assign :: "TimeSpec \<Rightarrow> TimeSpec \<Rightarrow> TimeSpec" where
  "ts_add_assign t rhs = TimeSpec (tv_sec t + tv_sec rhs) (tv_nsec t + tv_nsec rhs)"

definition ts_add :: "TimeSpec \<Rightarrow> TimeSpec \<Rightarrow> TimeSpec" where
  "ts_add t other =
    (let sec = tv_sec t + tv_sec other;
         nsec = tv_nsec t + tv_nsec other
     in TimeSpec (sec + nsec div NSEC_PER_SEC) (nsec mod NSEC_PER_SEC))"

definition ts_sub :: "TimeSpec \<Rightarrow> TimeSpec \<Rightarrow> TimeSpec" where
  "ts_sub t other =
    (if ts_to_ns t \<le> ts_to_ns other then TimeSpec_new else ts_from_ns (ts_to_ns t - ts_to_ns other))"

text \<open>\<^verbatim>\<open>Ord::cmp\<close> gives one of the three values of \<^verbatim>\<open>Ordering\<close>; the order of the type is the one it defines.\<close>

datatype Ordering = Less | Equal | Greater

definition word_cmp :: "usize \<Rightarrow> usize \<Rightarrow> Ordering" where
  "word_cmp a b = (if a < b then Less else if a = b then Equal else Greater)"

definition ts_cmp :: "TimeSpec \<Rightarrow> TimeSpec \<Rightarrow> Ordering" where
  "ts_cmp t other =
    (case word_cmp (tv_sec t) (tv_sec other) of
       Less \<Rightarrow> Less
     | Equal \<Rightarrow> word_cmp (tv_nsec t) (tv_nsec other)
     | Greater \<Rightarrow> Greater)"

instantiation TimeSpec :: linorder
begin

definition less_eq_TimeSpec :: "TimeSpec \<Rightarrow> TimeSpec \<Rightarrow> bool" where
  "less_eq_TimeSpec s t \<longleftrightarrow> ts_cmp s t \<noteq> Greater"

definition less_TimeSpec :: "TimeSpec \<Rightarrow> TimeSpec \<Rightarrow> bool" where
  "less_TimeSpec s t \<longleftrightarrow> ts_cmp s t = Less"

instance
  by standard (auto simp: less_eq_TimeSpec_def less_TimeSpec_def ts_cmp_def word_cmp_def TimeSpec.expand split: Ordering.splits if_splits)

end

section \<open>Seconds and microseconds\<close>

datatype TimeVal = TimeVal (tvv_sec: usize) (tv_usec: usize)

definition TimeVal_new :: TimeVal where
  "TimeVal_new = TimeVal 0 0"

definition tv_from_tick :: "usize \<Rightarrow> TimeVal" where
  "tv_from_tick tick = TimeVal (tick div CLOCK_FREQ) ((tick mod CLOCK_FREQ) * USEC_PER_SEC div CLOCK_FREQ)"

definition tv_to_tick :: "TimeVal \<Rightarrow> usize" where
  "tv_to_tick t = tvv_sec t * CLOCK_FREQ + tv_usec t * CLOCK_FREQ div USEC_PER_SEC"

definition tv_from_s :: "usize \<Rightarrow> TimeVal" where
  "tv_from_s s = TimeVal s 0"

definition tv_from_ms :: "usize \<Rightarrow> TimeVal" where
  "tv_from_ms ms = TimeVal (ms div MSEC_PER_SEC) ((ms mod MSEC_PER_SEC) * USEC_PER_MSEC)"

definition tv_from_us :: "usize \<Rightarrow> TimeVal" where
  "tv_from_us us = TimeVal (us div USEC_PER_SEC) (us mod USEC_PER_SEC)"

definition tv_to_us :: "TimeVal \<Rightarrow> usize" where
  "tv_to_us t = tvv_sec t * USEC_PER_SEC + tv_usec t"

definition tv_is_zero :: "TimeVal \<Rightarrow> bool" where
  "tv_is_zero t \<longleftrightarrow> tvv_sec t = 0 \<and> tv_usec t = 0"

definition tv_now :: "usize \<Rightarrow> TimeVal" where
  "tv_now time = tv_from_tick time"

definition tv_add :: "TimeVal \<Rightarrow> TimeVal \<Rightarrow> TimeVal" where
  "tv_add t other =
    (let sec = tvv_sec t + tvv_sec other;
         usec = tv_usec t + tv_usec other
     in TimeVal (sec + usec div USEC_PER_SEC) (usec mod USEC_PER_SEC))"

definition tv_sub :: "TimeVal \<Rightarrow> TimeVal \<Rightarrow> TimeVal" where
  "tv_sub t other =
    (if tv_to_us t \<le> tv_to_us other then TimeVal_new else tv_from_us (tv_to_us t - tv_to_us other))"

definition tv_cmp :: "TimeVal \<Rightarrow> TimeVal \<Rightarrow> Ordering" where
  "tv_cmp t other =
    (case word_cmp (tvv_sec t) (tvv_sec other) of
       Less \<Rightarrow> Less
     | Equal \<Rightarrow> word_cmp (tv_usec t) (tv_usec other)
     | Greater \<Rightarrow> Greater)"

section \<open>Interval timers and process times\<close>

record ITimerVal =
  it_interval :: TimeVal
  it_value :: TimeVal

definition ITimerVal_new :: ITimerVal where
  "ITimerVal_new = \<lparr>it_interval = TimeVal_new, it_value = TimeVal_new\<rparr>"

definition itimer_is_zero :: "ITimerVal \<Rightarrow> bool" where
  "itimer_is_zero t \<longleftrightarrow> tv_is_zero (it_interval t) \<and> tv_is_zero (it_value t)"

record Times =
  tms_utime :: usize
  tms_stime :: usize
  tms_cutime :: usize
  tms_cstime :: usize

definition Times_new :: Times where
  "Times_new = \<lparr>tms_utime = 0, tms_stime = 0, tms_cutime = 0, tms_cstime = 0\<rparr>"

definition times_add :: "Times \<Rightarrow> Times \<Rightarrow> Times" where
  "times_add t other =
    \<lparr>tms_utime = tms_utime t + tms_utime other, tms_stime = tms_stime t + tms_stime other,
     tms_cutime = tms_cutime t + tms_cutime other, tms_cstime = tms_cstime t + tms_cstime other\<rparr>"

definition times_sub :: "Times \<Rightarrow> Times \<Rightarrow> Times" where
  "times_sub t other =
    (if tms_utime t < tms_utime other \<or> tms_stime t < tms_stime other
        \<or> tms_cutime t < tms_cutime other \<or> tms_cstime t < tms_cstime other
     then Times_new
     else \<lparr>tms_utime = tms_utime t + tms_utime other, tms_stime = tms_stime t + tms_stime other,
           tms_cutime = tms_cutime t + tms_cutime other, tms_cstime = tms_cstime t + tms_cstime other\<rparr>)"

section \<open>Normal form\<close>

text \<open>A time is normal when its nanoseconds are less than a second; its value counts all nanoseconds.\<close>

definition ts_normal :: "TimeSpec \<Rightarrow> bool" where
  "ts_normal t \<longleftrightarrow> unat (tv_nsec t) < 1000000000"

definition ts_value :: "TimeSpec \<Rightarrow> nat" where
  "ts_value t = unat (tv_sec t) * 1000000000 + unat (tv_nsec t)"

lemma unat_units [simp]:
  "unat CLOCK_FREQ = 12500000" "unat NSEC_PER_SEC = 1000000000" "unat USEC_PER_SEC = 1000000" "unat MSEC_PER_SEC = 1000"
  "unat NSEC_PER_MSEC = 1000000" "unat NSEC_PER_USEC = 1000"
  by (simp_all add: time_units)

lemma unat_mult_lt: "unat (a :: usize) * unat b < 2 ^ 64 \<Longrightarrow> unat (a * b) = unat a * unat b"
  by (simp add: unat_word_ariths(2))

lemma unat_add_lt: "unat (a :: usize) + unat b < 2 ^ 64 \<Longrightarrow> unat (a + b) = unat a + unat b"
  by (simp add: unat_word_ariths(1))

lemma unat_scaled_mod:
  assumes "0 < unat m" and "unat m * unat k \<le> 2 ^ 64"
  shows "unat ((a mod m) * k :: usize) = unat a mod unat m * unat k" and "unat a mod unat m * unat k \<le> (unat m - 1) * unat k"
proof -
  have lt: "unat a mod unat m < unat m" using assms(1) by simp
  then have "unat a mod unat m \<le> unat m - 1" by linarith
  then show "unat a mod unat m * unat k \<le> (unat m - 1) * unat k" by (rule mult_le_mono1)
  have "unat a mod unat m * unat k < 2 ^ 64"
  proof (cases "unat k = 0")
    case False
    then have "unat a mod unat m * unat k < unat m * unat k" using lt by simp
    then show ?thesis using assms(2) by linarith
  qed simp
  then show "unat ((a mod m) * k :: usize) = unat a mod unat m * unat k" using unat_mult_lt [of "a mod m" k] by (simp add: unat_mod)
qed

lemma ts_normal_from: "ts_normal (ts_from_tick n)" "ts_normal (ts_from_s n)" "ts_normal (ts_from_ms n)" "ts_normal (ts_from_us n)"
  "ts_normal (ts_from_ns n)"
proof -
  note m = unat_scaled_mod [of CLOCK_FREQ NSEC_PER_SEC n] unat_scaled_mod [of MSEC_PER_SEC NSEC_PER_MSEC n]
    unat_scaled_mod [of USEC_PER_SEC NSEC_PER_USEC n]
  show "ts_normal (ts_from_tick n)" using m(1,2)
    by (simp add: ts_normal_def ts_from_tick_def unat_div div_less_iff_less_mult)
  show "ts_normal (ts_from_ms n)" "ts_normal (ts_from_us n)" using m(3-6)
    by (simp_all add: ts_normal_def ts_from_ms_def ts_from_us_def)
qed (simp_all add: ts_normal_def ts_from_s_def ts_from_ns_def unat_mod)

lemma ts_normal_add: "ts_normal (ts_add s t)"
  by (simp add: ts_normal_def ts_add_def Let_def unat_mod)

lemma ts_normal_sub: "ts_normal (ts_sub s t)"
  using ts_normal_from(2) [of 0] ts_normal_from(5) by (simp add: ts_sub_def TimeSpec_new_def ts_from_s_def)

lemma ts_value_less: "ts_normal s \<Longrightarrow> ts_normal t \<Longrightarrow> s < t \<longleftrightarrow> ts_value s < ts_value t"
proof -
  assume n: "ts_normal s" "ts_normal t"
  let ?a = "unat (tv_sec s)" and ?b = "unat (tv_sec t)" and ?c = "unat (tv_nsec s)" and ?d = "unat (tv_nsec t)"
  have "s < t \<longleftrightarrow> ?a < ?b \<or> ?a = ?b \<and> ?c < ?d"
    by (auto simp: less_TimeSpec_def ts_cmp_def word_cmp_def word_less_nat_alt unat_eqD split: if_splits Ordering.splits dest: unat_eqD)
  also have "\<dots> \<longleftrightarrow> ?a * 1000000000 + ?c < ?b * 1000000000 + ?d" using n by (auto simp: ts_normal_def)
  finally show ?thesis by (simp add: ts_value_def)
qed

lemma ts_value_add:
  assumes "ts_value s + ts_value t < 2 ^ 64" shows "ts_value (ts_add s t) = ts_value s + ts_value t"
proof -
  let ?a = "unat (tv_sec s)" and ?b = "unat (tv_sec t)" and ?c = "unat (tv_nsec s)" and ?d = "unat (tv_nsec t)"
  have le: "?a + ?b + (?c + ?d) < 2 ^ 64" using assms by (simp add: ts_value_def)
  have sum: "unat (tv_nsec s + tv_nsec t) = ?c + ?d" by (rule unat_add_lt) (use le in simp)
  have ab: "unat (tv_sec s + tv_sec t) = ?a + ?b" by (rule unat_add_lt) (use le in simp)
  have "unat (tv_sec s + tv_sec t + (tv_nsec s + tv_nsec t) div NSEC_PER_SEC) = ?a + ?b + (?c + ?d) div 1000000000"
    using le div_le_dividend [of "?c + ?d" 1000000000]
    by (subst unat_add_lt) (simp_all add: ab unat_div sum)
  then show ?thesis by (simp add: ts_value_def ts_add_def Let_def unat_mod sum)
qed

lemma ts_to_ns_value: "ts_value t < 2 ^ 64 \<Longrightarrow> unat (ts_to_ns t) = ts_value t"
  by (simp add: ts_to_ns_def ts_value_def unat_word_ariths)

lemma ts_value_sub:
  assumes "ts_value s < 2 ^ 64" and "ts_value t < 2 ^ 64" shows "ts_value (ts_sub s t) = ts_value s - ts_value t"
proof (cases "ts_value s \<le> ts_value t")
  case True
  then show ?thesis using assms by (simp add: ts_sub_def word_le_nat_alt ts_to_ns_value TimeSpec_new_def) (simp add: ts_value_def)
next
  case False
  then have gt: "\<not> ts_to_ns s \<le> ts_to_ns t" using assms by (simp add: word_le_nat_alt ts_to_ns_value)
  then have "unat (ts_to_ns s - ts_to_ns t) = ts_value s - ts_value t"
    using assms by (simp add: unat_sub ts_to_ns_value)
  moreover have "ts_value (ts_from_ns n) = unat n" for n by (simp add: ts_value_def ts_from_ns_def unat_div unat_mod)
  ultimately show ?thesis using gt by (simp add: ts_sub_def)
qed

text \<open>C18: every \<^verbatim>\<open>TimeSpec\<close> that the kernel makes from ticks, seconds, milli-, micro- or nanoseconds, and every
  sum and difference, even after overflow, is in normal form (its nanoseconds are less than a second), so that the
  derived order always is the order of the times; \<^verbatim>\<open>+=\<close> is the exception.\<close>

theorem timespec_normal_form:
  "(\<forall>n. ts_normal (ts_now n) \<and> ts_normal (ts_from_s n) \<and> ts_normal (ts_from_ms n) \<and> ts_normal (ts_from_us n) \<and> ts_normal (ts_from_ns n))
   \<and> ts_normal (ts_add s t) \<and> ts_normal (ts_sub s t)
   \<and> (ts_add s t < ts_add u v \<longleftrightarrow> ts_value (ts_add s t) < ts_value (ts_add u v))
   \<and> \<not> ts_normal (ts_add_assign (ts_from_ms 600) (ts_from_ms 600))"
proof -
  have "\<not> ts_normal (ts_add_assign (ts_from_ms 600) (ts_from_ms 600))"
    by (simp add: ts_normal_def ts_add_assign_def ts_from_ms_def time_units)
  then show ?thesis using ts_normal_from ts_normal_add ts_normal_sub ts_value_less [of "ts_add s t" "ts_add u v"]
    by (simp add: ts_now_def)
qed

text \<open>addition and truncated subtraction of times are those of their nanosecond values whenever these fit in
  64 bits, and the order of normal times is the order of the values.\<close>

theorem timespec_arithmetic:
  assumes "ts_value s + ts_value t < 2 ^ 64" and "ts_normal s" and "ts_normal t"
  shows "ts_value (ts_add s t) = ts_value s + ts_value t \<and> ts_value (ts_sub s t) = ts_value s - ts_value t
    \<and> (s < t \<longleftrightarrow> ts_value s < ts_value t) \<and> ts_sub (ts_add s t) t = s"
proof -
  have "ts_value (ts_sub (ts_add s t) t) = ts_value s" using ts_value_add [OF assms(1)] assms(1) by (subst ts_value_sub) simp_all
  moreover have "s = t'" if "ts_value s = ts_value t'" "ts_normal t'" for t'
    using ts_value_less [of s t'] ts_value_less [of t' s] that assms(2) by (metis less_irrefl neqE)
  ultimately have "ts_sub (ts_add s t) t = s" using ts_normal_sub by metis
  then show ?thesis using ts_value_add [OF assms(1)] ts_value_sub [of s t] ts_value_less [OF assms(2,3)] assms(1) by simp
qed

theorem timespec_arithmetic_witness:
  "ts_add (TimeSpec 1 700000000) (TimeSpec 2 600000000) = TimeSpec 4 300000000
   \<and> ts_sub (TimeSpec 4 300000000) (TimeSpec 2 600000000) = TimeSpec 1 700000000"
proof -
  have "ts_add (TimeSpec 1 700000000) (TimeSpec 2 600000000) = TimeSpec 4 300000000"
    by (simp add: ts_add_def Let_def time_units)
  then show ?thesis using timespec_arithmetic [of "TimeSpec 1 700000000" "TimeSpec 2 600000000"]
    by (simp add: ts_value_def ts_normal_def)
qed

end
