(* ===== verification/Allocator.thy ===== *)
theory Allocator
  imports Prelude
begin

text \<open>
  The contract that the kernel's identifier allocators share.  Physical frames
  (\<^verbatim>\<open>mm/frame_allocator.rs\<close>), process, thread and kernel-stack numbers
  (\<^verbatim>\<open>task/id.rs\<close>) and swap pages (\<^verbatim>\<open>fs/swap.rs\<close>) are handed out and taken back by
  different code that promises the same thing: an identifier that is out is never
  handed out again before it comes back, and giving back one that is out never
  panics.  The consequences for a client that frees only what it holds are proved
  here once.
\<close>

section \<open>Clients\<close>

text \<open>What an owner of identifiers does: ask for one, or drop the \<open>n\<close>-th it holds.\<close>

datatype alloc_op = AllocOp | DropOp nat

definition remove_nth :: "nat \<Rightarrow> 'a list \<Rightarrow> 'a list" where
  "remove_nth n xs = take n xs @ drop (Suc n) xs"

fun run_ops :: "('s \<Rightarrow> 'i option \<times> 's) \<Rightarrow> ('s \<Rightarrow> 'i \<Rightarrow> 's run) \<Rightarrow>
    alloc_op list \<Rightarrow> 's \<Rightarrow> 'i list \<Rightarrow> ('s \<times> 'i list) run" where
  "run_ops alloc dealloc [] s held = ret (s, held)"
| "run_ops alloc dealloc (AllocOp # ops) s held =
    (case alloc s of
       (None, s') \<Rightarrow> run_ops alloc dealloc ops s' held
     | (Some i, s') \<Rightarrow> run_ops alloc dealloc ops s' (i # held))"
| "run_ops alloc dealloc (DropOp n # ops) s held =
    (if n < length held
     then do { s' \<leftarrow> dealloc s (held ! n); run_ops alloc dealloc ops s' (remove_nth n held) }
     else run_ops alloc dealloc ops s held)"

lemma set_remove_nth:
  assumes "distinct xs" and "n < length xs"
  shows "set (remove_nth n xs) = set xs - {xs ! n}" and "distinct (remove_nth n xs)"
proof -
  define as x bs where "as = take n xs" and "x = xs ! n" and "bs = drop (Suc n) xs"
  have "xs = as @ x # bs" unfolding as_def x_def bs_def using assms(2) by (rule id_take_nth_drop)
  moreover have "remove_nth n xs = as @ bs" by (simp add: remove_nth_def as_def bs_def)
  ultimately show "set (remove_nth n xs) = set xs - {xs ! n}" and "distinct (remove_nth n xs)"
    using assms(1) unfolding x_def [symmetric] by auto
qed

section \<open>The contract\<close>

locale id_allocator =
  fixes alloc :: "'s \<Rightarrow> 'i option \<times> 's"
    and dealloc :: "'s \<Rightarrow> 'i \<Rightarrow> 's run"
    and live :: "'s \<Rightarrow> 'i set"
    and invar :: "'s \<Rightarrow> bool"
  assumes alloc_None: "invar s \<Longrightarrow> alloc s = (None, s') \<Longrightarrow> s' = s"
    and alloc_Some: "invar s \<Longrightarrow> alloc s = (Some i, s') \<Longrightarrow>
      invar s' \<and> i \<notin> live s \<and> live s' = insert i (live s)"
    and dealloc_live: "invar s \<Longrightarrow> i \<in> live s \<Longrightarrow>
      \<exists>s'. dealloc s i = Some s' \<and> invar s' \<and> live s' = live s - {i}"
begin

lemma run_ops_safe:
  assumes "invar s" and "distinct held" and "set held = live s"
  shows "\<exists>s' held'. run_ops alloc dealloc ops s held = Some (s', held') \<and>
    invar s' \<and> distinct held' \<and> set held' = live s'"
  using assms
proof (induction ops arbitrary: s held)
  case (Cons op ops)
  have step: ?case if "run_ops alloc dealloc (op # ops) s held = run_ops alloc dealloc ops s1 held1"
    "invar s1" "distinct held1" "set held1 = live s1" for s1 held1
    unfolding that(1) using that(2-4) by (rule Cons.IH)
  show ?case
  proof (cases op)
    case AllocOp
    obtain r s1 where alloc: "alloc s = (r, s1)" by (cases "alloc s")
    show ?thesis
    proof (cases r)
      case None
      then have "s1 = s" using alloc alloc_None [OF Cons.prems(1)] by simp
      then show ?thesis using Cons.prems alloc None AllocOp by (intro step [of s held]) simp_all
    next
      case (Some i)
      then show ?thesis
        using Cons.prems alloc alloc_Some [OF Cons.prems(1), of i s1] AllocOp
        by (intro step [of s1 "i # held"]) simp_all
    qed
  next
    case (DropOp n)
    show ?thesis
    proof (cases "n < length held")
      case True
      then have "held ! n \<in> live s" using nth_mem [OF True] Cons.prems(3) by simp
      from dealloc_live [OF Cons.prems(1) this] obtain s1 where s1: "dealloc s (held ! n) = Some s1" "invar s1" "live s1 = live s - {held ! n}"
        by blast
      moreover note set_remove_nth [OF Cons.prems(2) True]
      ultimately show ?thesis using Cons.prems(3) True DropOp
        by (intro step [of s1 "remove_nth n held"]) simp_all
    next
      case False
      then show ?thesis using Cons.prems DropOp by (intro step [of s held]) simp_all
    qed
  qed
qed simp

lemma alloc_fresh:
  assumes "invar s" and "alloc s = (Some i, s')" and "alloc s' = (Some j, s'')"
  shows "i \<noteq> j"
  using alloc_Some [OF assms(1,2)] alloc_Some [OF _ assms(3)] by auto

lemma alloc_dealloc_live:
  assumes "invar s" and "alloc s = (Some i, s')"
  shows "\<exists>s''. dealloc s' i = Some s'' \<and> invar s'' \<and> live s'' = live s"
  using alloc_Some [OF assms] dealloc_live [of s' i] by auto

end

end
