(* ===== verification/Address.thy ===== *)
theory Address
  imports Kernel_Config
begin

unbundle bit_operations_syntax

text \<open>
  \<^verbatim>\<open>kernel/src/mm/address.rs\<close>: physical and virtual addresses and page numbers of the
  Sv39 paging scheme, their conversions, the page-table indexes of a virtual page
  number, and ranges of page numbers.
\<close>

section \<open>Definitions\<close>

definition PA_WIDTH_SV39 :: nat where [config_defs]: "PA_WIDTH_SV39 = 56"
definition VA_WIDTH_SV39 :: nat where [config_defs]: "VA_WIDTH_SV39 = 39"
definition PPN_WIDTH_SV39 :: nat where [config_defs]: "PPN_WIDTH_SV39 = PA_WIDTH_SV39 - PAGE_SIZE_BITS"
definition VPN_WIDTH_SV39 :: nat where [config_defs]: "VPN_WIDTH_SV39 = VA_WIDTH_SV39 - PAGE_SIZE_BITS"

datatype PhysAddr = PhysAddr (pa0: usize)
datatype VirtAddr = VirtAddr (va0: usize)
datatype PhysPageNum = PhysPageNum (ppn0: usize)
datatype VirtPageNum = VirtPageNum (vpn0: usize)

definition pa_from :: "usize \<Rightarrow> PhysAddr" where
  "pa_from v = PhysAddr (v AND (push_bit PA_WIDTH_SV39 1 - 1))"

definition ppn_from :: "usize \<Rightarrow> PhysPageNum" where
  "ppn_from v = PhysPageNum (v AND (push_bit PPN_WIDTH_SV39 1 - 1))"

definition va_from :: "usize \<Rightarrow> VirtAddr" where
  "va_from v = VirtAddr (v AND (push_bit VA_WIDTH_SV39 1 - 1))"

definition vpn_from :: "usize \<Rightarrow> VirtPageNum" where
  "vpn_from v = VirtPageNum (v AND (push_bit VPN_WIDTH_SV39 1 - 1))"

definition usize_from_va :: "VirtAddr \<Rightarrow> usize" where
  "usize_from_va v =
    (if push_bit (VA_WIDTH_SV39 - 1) 1 \<le> va0 v
     then va0 v OR NOT (push_bit VA_WIDTH_SV39 1 - 1)
     else va0 v)"

definition va_floor :: "VirtAddr \<Rightarrow> VirtPageNum" where
  "va_floor v = VirtPageNum (va0 v div PAGE_SIZE)"

definition va_ceil :: "VirtAddr \<Rightarrow> VirtPageNum" where
  "va_ceil v = VirtPageNum ((va0 v - 1 + PAGE_SIZE) div PAGE_SIZE)"

definition va_page_offset :: "VirtAddr \<Rightarrow> usize" where
  "va_page_offset v = va0 v AND (PAGE_SIZE - 1)"

definition va_aligned :: "VirtAddr \<Rightarrow> bool" where
  "va_aligned v = (va_page_offset v = 0)"

definition vpn_from_va :: "VirtAddr \<Rightarrow> VirtPageNum run" where
  "vpn_from_va v = do { rust_assert (va_page_offset v = 0); ret (va_floor v) }"

definition va_from_vpn :: "VirtPageNum \<Rightarrow> VirtAddr" where
  "va_from_vpn v = VirtAddr (push_bit PAGE_SIZE_BITS (vpn0 v))"

definition pa_floor :: "PhysAddr \<Rightarrow> PhysPageNum" where
  "pa_floor v = PhysPageNum (pa0 v div PAGE_SIZE)"

definition pa_ceil :: "PhysAddr \<Rightarrow> PhysPageNum" where
  "pa_ceil v = PhysPageNum ((pa0 v - 1 + PAGE_SIZE) div PAGE_SIZE)"

definition pa_page_offset :: "PhysAddr \<Rightarrow> usize" where
  "pa_page_offset v = pa0 v AND (PAGE_SIZE - 1)"

definition ppn_from_pa :: "PhysAddr \<Rightarrow> PhysPageNum run" where
  "ppn_from_pa v = do { rust_assert (pa_page_offset v = 0); ret (pa_floor v) }"

definition pa_from_ppn :: "PhysPageNum \<Rightarrow> PhysAddr" where
  "pa_from_ppn v = PhysAddr (push_bit PAGE_SIZE_BITS (ppn0 v))"

text \<open>The loop of \<^verbatim>\<open>indexes\<close> runs \<open>i = 2, 1, 0\<close> over the array.\<close>

fun indexes_loop :: "nat \<Rightarrow> usize \<Rightarrow> usize list \<Rightarrow> usize list" where
  "indexes_loop 0 vpn idx = idx"
| "indexes_loop (Suc i) vpn idx = indexes_loop i (drop_bit 9 vpn) (idx[i := vpn AND 511])"

definition indexes :: "VirtPageNum \<Rightarrow> usize list" where
  "indexes v = indexes_loop 3 (vpn0 v) [0, 0, 0]"

definition vpn_step :: "VirtPageNum \<Rightarrow> VirtPageNum" where
  "vpn_step v = VirtPageNum (vpn0 v + 1)"

definition ppn_step :: "PhysPageNum \<Rightarrow> PhysPageNum" where
  "ppn_step v = PhysPageNum (ppn0 v + 1)"

instantiation VirtPageNum :: linorder
begin
definition less_eq_VirtPageNum :: "VirtPageNum \<Rightarrow> VirtPageNum \<Rightarrow> bool" where
  "less_eq_VirtPageNum a b = (vpn0 a \<le> vpn0 b)"
definition less_VirtPageNum :: "VirtPageNum \<Rightarrow> VirtPageNum \<Rightarrow> bool" where
  "less_VirtPageNum a b = (vpn0 a < vpn0 b)"
instance
  by standard (auto simp: less_eq_VirtPageNum_def less_VirtPageNum_def VirtPageNum.expand)
end

instantiation VirtAddr :: linorder
begin
definition less_eq_VirtAddr :: "VirtAddr \<Rightarrow> VirtAddr \<Rightarrow> bool" where
  "less_eq_VirtAddr a b = (va0 a \<le> va0 b)"
definition less_VirtAddr :: "VirtAddr \<Rightarrow> VirtAddr \<Rightarrow> bool" where
  "less_VirtAddr a b = (va0 a < va0 b)"
instance
  by standard (auto simp: less_eq_VirtAddr_def less_VirtAddr_def VirtAddr.expand)
end

record VPNRange =
  range_l :: VirtPageNum
  range_r :: VirtPageNum

definition VPNRange_new :: "VirtPageNum \<Rightarrow> VirtPageNum \<Rightarrow> VPNRange run" where
  "VPNRange_new start end = do {
     rust_assert (start \<le> end);
     ret \<lparr>range_l = start, range_r = end\<rparr> }"

definition range_next :: "VirtPageNum \<Rightarrow> VirtPageNum \<Rightarrow> (VirtPageNum \<times> VirtPageNum) option" where
  "range_next current end =
    (if current = end then None else Some (current, vpn_step current))"

text \<open>The elements the iterator of a range yields, with the number of steps as fuel.\<close>

fun range_iter :: "nat \<Rightarrow> VirtPageNum \<Rightarrow> VirtPageNum \<Rightarrow> VirtPageNum list" where
  "range_iter 0 current end = []"
| "range_iter (Suc n) current end =
    (case range_next current end of
       None \<Rightarrow> []
     | Some (v, current') \<Rightarrow> v # range_iter n current' end)"

definition range_vpns :: "VPNRange \<Rightarrow> VirtPageNum list" where
  "range_vpns r = range_iter (unat (vpn0 (range_r r) - vpn0 (range_l r))) (range_l r) (range_r r)"

text \<open>The addresses the hardware accepts: bits 63 to 39 repeat bit 38.\<close>

definition va_canonical :: "usize \<Rightarrow> bool" where
  "va_canonical v = (unat v < 2 ^ 38 \<or> 2 ^ 64 - 2 ^ 38 \<le> unat v)"

section \<open>Conversions as operations on bits\<close>

lemma mask_take_bit:
  "x AND (push_bit n 1 - 1) = take_bit n (x :: 'a :: len word)"
  by (simp add: take_bit_eq_mask mask_eq_exp_minus_1 push_bit_of_1)

lemma ppn_width: "PPN_WIDTH_SV39 = 44" and vpn_width: "VPN_WIDTH_SV39 = 27"
  by (simp_all add: config_defs)

lemma pa_from_eq: "pa_from x = PhysAddr (take_bit 56 x)"
  by (simp only: pa_from_def mask_take_bit PA_WIDTH_SV39_def)

lemma ppn_from_eq: "ppn_from x = PhysPageNum (take_bit 44 x)"
  by (simp only: ppn_from_def mask_take_bit ppn_width)

lemma va_from_eq: "va_from x = VirtAddr (take_bit 39 x)"
  by (simp only: va_from_def mask_take_bit VA_WIDTH_SV39_def)

lemma vpn_from_eq: "vpn_from x = VirtPageNum (take_bit 27 x)"
  by (simp only: vpn_from_def mask_take_bit vpn_width)

lemma page_and_eq: "(x :: usize) AND (PAGE_SIZE - 1) = take_bit 12 x"
  by (simp add: config_defs take_bit_eq_mask mask_eq_exp_minus_1)

lemma page_div_eq: "(x :: usize) div PAGE_SIZE = drop_bit 12 x"
  by (simp add: config_defs drop_bit_eq_div)

lemma va_page_offset_eq: "va_page_offset v = take_bit 12 (va0 v)"
  by (simp only: va_page_offset_def page_and_eq)

lemma pa_page_offset_eq: "pa_page_offset v = take_bit 12 (pa0 v)"
  by (simp only: pa_page_offset_def page_and_eq)

lemma va_floor_eq: "va_floor v = VirtPageNum (drop_bit 12 (va0 v))"
  by (simp only: va_floor_def page_div_eq)

lemma pa_floor_eq: "pa_floor v = PhysPageNum (drop_bit 12 (pa0 v))"
  by (simp only: pa_floor_def page_div_eq)

lemma va_from_vpn_eq: "va_from_vpn v = VirtAddr (push_bit 12 (vpn0 v))"
  by (simp add: va_from_vpn_def PAGE_SIZE_BITS_def)

lemma pa_from_ppn_eq: "pa_from_ppn v = PhysAddr (push_bit 12 (ppn0 v))"
  by (simp add: pa_from_ppn_def PAGE_SIZE_BITS_def)

lemmas addr_eqs = pa_from_eq ppn_from_eq va_from_eq vpn_from_eq va_page_offset_eq
  pa_page_offset_eq va_floor_eq pa_floor_eq va_from_vpn_eq pa_from_ppn_eq

lemma ppn_from_id: "unat x < 2 ^ 44 \<Longrightarrow> ppn_from x = PhysPageNum x"
  unfolding ppn_from_eq by (rule arg_cong [where f = PhysPageNum], rule take_bit_word_id)

lemma unat_ppn_from: "unat (ppn0 (ppn_from x)) < 2 ^ 44"
  by (simp add: ppn_from_eq unat_take_bit)

lemma unat_va_floor: "unat (vpn0 (va_floor v)) = unat (va0 v) div 4096"
  by (simp add: va_floor_eq unat_drop_bit)

lemma unat_va_page_offset: "unat (va_page_offset v) = unat (va0 v) mod 4096"
  by (simp add: va_page_offset_eq unat_take_bit)

lemma va_split: "unat (va0 v) = unat (vpn0 (va_floor v)) * 4096 + unat (va_page_offset v)"
  by (simp add: unat_va_floor unat_va_page_offset)

text \<open>\<^verbatim>\<open>ceil\<close> subtracts 1 before adding: at address 0 the subtraction wraps and the sum
  wraps back, so the result is page 0.\<close>

lemma unat_va_ceil:
  assumes "unat (va0 v) + 4096 \<le> 2 ^ 64"
  shows "unat (vpn0 (va_ceil v)) = (unat (va0 v) + 4095) div 4096"
proof -
  have "va0 v - 1 + PAGE_SIZE = va0 v + 4095" by (simp add: config_defs)
  moreover have "unat (va0 v + 4095) = unat (va0 v) + 4095"
    using assms by (simp add: unat_word_ariths(1))
  ultimately have "unat (va0 v - 1 + PAGE_SIZE) = unat (va0 v) + 4095" by (simp only:)
  then show ?thesis by (simp add: va_ceil_def page_div_eq unat_drop_bit)
qed

section \<open>Sign extension\<close>

lemma usize_from_va_low: "unat (va0 v) < 2 ^ 38 \<Longrightarrow> usize_from_va v = va0 v"
  by (simp add: usize_from_va_def VA_WIDTH_SV39_def word_le_nat_alt)

lemma or_sign_mask:
  assumes "unat (x :: usize) < 2 ^ 39"
  shows "unat (x OR NOT (mask 39)) = unat x + (2 ^ 64 - 2 ^ 39)"
proof -
  have "x AND NOT (mask 39) = 0"
  proof -
    have "take_bit 39 x = x" using assms by (rule take_bit_word_id)
    then have "x AND NOT (mask 39) = (x AND mask 39) AND NOT (mask 39)"
      by (simp only: take_bit_eq_mask)
    also have "\<dots> = 0" by (simp only: and.assoc bit.conj_cancel_right and_zero_eq)
    finally show ?thesis .
  qed
  then have "x OR NOT (mask 39) = x + NOT (mask 39)" by (simp only: disjunctive_add_eq_or)
  moreover have "unat (NOT (mask 39) :: usize) = 2 ^ 64 - 2 ^ 39"
    by (simp add: mask_eq_exp_minus_1 unat_word_ariths)
  ultimately show ?thesis
    using assms unat_word_ariths(1) [of x "NOT (mask 39)"] by (simp only:) simp
qed

lemma usize_from_va_high:
  assumes "2 ^ 38 \<le> unat (va0 v)" and "unat (va0 v) < 2 ^ 39"
  shows "unat (usize_from_va v) = unat (va0 v) + (2 ^ 64 - 2 ^ 39)"
proof -
  have "usize_from_va v = va0 v OR NOT (mask 39)"
    using assms(1)
    by (simp add: usize_from_va_def VA_WIDTH_SV39_def word_le_nat_alt mask_eq_exp_minus_1)
  then show ?thesis using or_sign_mask [OF assms(2)] by (simp only:)
qed

lemma unat_va_from: "unat (va0 (va_from v)) = unat v mod 2 ^ 39"
  by (simp add: va_from_eq unat_take_bit)

lemma unat_usize_from_va_from:
  "unat (usize_from_va (va_from v)) =
    (if unat v mod 2 ^ 39 < 2 ^ 38 then unat v mod 2 ^ 39
     else unat v mod 2 ^ 39 + (2 ^ 64 - 2 ^ 39))"
proof (cases "unat v mod 2 ^ 39 < 2 ^ 38")
  case True
  then show ?thesis using usize_from_va_low [of "va_from v"] by (simp add: unat_va_from)
next
  case False
  have "unat (usize_from_va (va_from v)) = unat v mod 2 ^ 39 + (2 ^ 64 - 2 ^ 39)"
    using False usize_from_va_high [of "va_from v"] by (simp only: unat_va_from) simp
  then show ?thesis using False by (simp only: if_False)
qed

section \<open>Page-table indexes\<close>

lemma indexes_eq:
  "indexes v = [take_bit 9 (drop_bit 18 (vpn0 v)), take_bit 9 (drop_bit 9 (vpn0 v)),
     take_bit 9 (vpn0 v)]"
proof -
  have "(x :: usize) AND 511 = take_bit 9 x" for x
    by (simp add: take_bit_eq_mask mask_eq_exp_minus_1)
  then show ?thesis
    by (simp add: indexes_def numeral_3_eq_3 numeral_2_eq_2 drop_bit_drop_bit)
qed

lemma length_indexes [simp]: "length (indexes v) = 3"
  by (simp add: indexes_eq)

definition index_at :: "VirtPageNum \<Rightarrow> nat \<Rightarrow> nat" where
  "index_at v i = unat (indexes v ! i)"

lemma index_at_simps:
  "index_at v 0 = unat (vpn0 v) div 2 ^ 18 mod 512"
  "index_at v (Suc 0) = unat (vpn0 v) div 2 ^ 9 mod 512"
  "index_at v 2 = unat (vpn0 v) mod 512"
  by (simp_all add: index_at_def indexes_eq unat_take_bit unat_drop_bit)

lemma indexes_recompose:
  assumes "unat (vpn0 v) < 2 ^ 27"
  shows "unat (vpn0 v) = index_at v 0 * 2 ^ 18 + index_at v 1 * 2 ^ 9 + index_at v 2"
proof -
  define n where "n = unat (vpn0 v)"
  have "n div 2 ^ 18 < 512" using assms by (simp add: n_def)
  then have 0: "n div 2 ^ 18 mod 512 = n div 2 ^ 18" by simp
  have 1: "n div 2 ^ 18 = n div 512 div 512" by (simp add: div_mult2_eq [symmetric])
  define q where "q = n div 512"
  have "n = q * 512 + n mod 512" by (simp add: q_def)
  moreover have "q = q div 512 * 512 + q mod 512" by simp
  ultimately have "n = q div 512 * 262144 + q mod 512 * 512 + n mod 512" by linarith
  with 0 1 show ?thesis by (simp add: index_at_simps n_def [symmetric] q_def)
qed

lemma indexes_inj:
  assumes "unat (vpn0 v) < 2 ^ 27" and "unat (vpn0 w) < 2 ^ 27" and "indexes v = indexes w"
  shows "v = w"
proof -
  have "index_at v i = index_at w i" for i using assms(3) by (simp add: index_at_def)
  then have "unat (vpn0 v) = unat (vpn0 w)"
    using indexes_recompose [OF assms(1)] indexes_recompose [OF assms(2)] by simp
  then show ?thesis by (simp add: word_unat_eq_iff VirtPageNum.expand)
qed

lemma index_at_lt:
  assumes "i < 3"
  shows "index_at v i < 512"
proof -
  have "i = 0 \<or> i = Suc 0 \<or> i = 2" using assms by arith
  then show ?thesis by (elim disjE) (simp_all add: index_at_simps)
qed

section \<open>Ranges\<close>

lemma range_iter_nth:
  "n = unat (vpn0 r - vpn0 l) \<Longrightarrow> range_iter n l r = map (\<lambda>i. VirtPageNum (vpn0 l + of_nat i)) [0..<n]"
proof (induction n arbitrary: l)
  case (Suc n)
  have ne: "l \<noteq> r" using Suc.prems by auto
  have "unat (vpn0 r - vpn0 (vpn_step l)) = n"
  proof -
    have "vpn0 r - vpn0 (vpn_step l) = (vpn0 r - vpn0 l) - 1" by (simp add: vpn_step_def)
    moreover have "vpn0 r - vpn0 l \<noteq> 0" using Suc.prems by auto
    ultimately have "unat (vpn0 r - vpn0 (vpn_step l)) = unat (vpn0 r - vpn0 l) - 1"
      using unat_minus_one [of "vpn0 r - vpn0 l"] by (simp only:) blast
    then show ?thesis using Suc.prems by simp
  qed
  then have "range_iter n (vpn_step l) r = map (\<lambda>i. VirtPageNum (vpn0 (vpn_step l) + of_nat i)) [0..<n]"
    by (rule Suc.IH [OF sym])
  moreover have "[0..<Suc n] = 0 # map Suc [0..<n]" by (simp add: map_Suc_upt upt_conv_Cons)
  ultimately show ?case using ne
    by (simp add: range_next_def vpn_step_def o_def add.assoc)
qed simp

end
