(* ===== verification/Frame_Allocator.thy ===== *)
theory Frame_Allocator
  imports Allocator Address
begin

text \<open>
  \<^verbatim>\<open>kernel/src/mm/frame_allocator.rs\<close>: the stack allocator of physical page frames.
\<close>

section \<open>The allocator\<close>

record StackFrameAllocator =
  fa_current :: usize
  fa_end :: usize
  fa_recycled :: "usize list"

definition fa_new :: StackFrameAllocator where
  "fa_new = \<lparr>fa_current = 0, fa_end = 0, fa_recycled = []\<rparr>"

definition fa_init :: "PhysPageNum \<Rightarrow> PhysPageNum \<Rightarrow> StackFrameAllocator \<Rightarrow> StackFrameAllocator" where
  "fa_init l r s = s\<lparr>fa_current := ppn0 l, fa_end := ppn0 r\<rparr>"

definition unallocated_frames :: "StackFrameAllocator \<Rightarrow> usize" where
  "unallocated_frames s = of_nat (length (fa_recycled s)) + fa_end s - fa_current s"

definition fa_alloc :: "StackFrameAllocator \<Rightarrow> PhysPageNum option \<times> StackFrameAllocator" where
  "fa_alloc s =
    (case vec_pop (fa_recycled s) of
       Some (ppn, rest) \<Rightarrow> (Some (ppn_from ppn), s\<lparr>fa_recycled := rest\<rparr>)
     | None \<Rightarrow>
         if fa_current s = fa_end s then (None, s)
         else let s' = s\<lparr>fa_current := fa_current s + 1\<rparr>
              in (Some (ppn_from (fa_current s' - 1)), s'))"

definition fa_dealloc :: "StackFrameAllocator \<Rightarrow> PhysPageNum \<Rightarrow> StackFrameAllocator run" where
  "fa_dealloc s ppn =
    (if fa_current s \<le> ppn0 ppn \<or> ppn0 ppn \<in> set (fa_recycled s) then panic
     else ret (s\<lparr>fa_recycled := vec_push (fa_recycled s) (ppn0 ppn)\<rparr>))"

definition init_frame_allocator :: "usize \<Rightarrow> StackFrameAllocator \<Rightarrow> StackFrameAllocator" where
  "init_frame_allocator ekernel s = fa_init (pa_ceil (pa_from ekernel)) (pa_floor (pa_from MEMORY_END)) s"

definition frame_reserve :: "usize \<Rightarrow> StackFrameAllocator \<Rightarrow> unit run" where
  "frame_reserve num s = (if unallocated_frames s < num then panic else ret ())"

section \<open>Physical memory and frame trackers\<close>

text \<open>Physical memory is a map from frames to their 512 cells of eight bytes, the
  granularity \<^verbatim>\<open>get_pte_array\<close> sees; \<^verbatim>\<open>kmem\<close> adds the global frame allocator.  A
  \<^verbatim>\<open>FrameTracker\<close> owns its frame when \<^verbatim>\<open>hold\<close> is set: dropping it frees the frame.\<close>

type_synonym phys_mem = "PhysPageNum \<Rightarrow> nat \<Rightarrow> usize"

record kmem =
  phys :: phys_mem
  falloc :: StackFrameAllocator

record FrameTracker =
  ft_ppn :: PhysPageNum
  ft_hold :: bool

definition FrameTracker_new :: "PhysPageNum \<Rightarrow> kmem \<Rightarrow> FrameTracker \<times> kmem" where
  "FrameTracker_new ppn km =
    (\<lparr>ft_ppn = ppn, ft_hold = True\<rparr>, km\<lparr>phys := (phys km)(ppn := (\<lambda>_. 0))\<rparr>)"

definition FrameTracker_cover :: "PhysPageNum \<Rightarrow> FrameTracker" where
  "FrameTracker_cover ppn = \<lparr>ft_ppn = ppn, ft_hold = False\<rparr>"

definition frame_dealloc :: "PhysPageNum \<Rightarrow> kmem \<Rightarrow> kmem run" where
  "frame_dealloc ppn km = do {
     a \<leftarrow> fa_dealloc (falloc km) ppn;
     ret (km\<lparr>falloc := a\<rparr>) }"

definition FrameTracker_drop :: "FrameTracker \<Rightarrow> kmem \<Rightarrow> kmem run" where
  "FrameTracker_drop t km = (if ft_hold t then frame_dealloc (ft_ppn t) km else ret km)"

definition frame_alloc :: "kmem \<Rightarrow> FrameTracker option \<times> kmem" where
  "frame_alloc km =
    (case fa_alloc (falloc km) of
       (None, a) \<Rightarrow> (None, km\<lparr>falloc := a\<rparr>)
     | (Some ppn, a) \<Rightarrow> map_prod Some id (FrameTracker_new ppn (km\<lparr>falloc := a\<rparr>)))"

definition frame_alloc_unwrap :: "kmem \<Rightarrow> (FrameTracker \<times> kmem) run" where
  "frame_alloc_unwrap km =
    (case frame_alloc km of (None, _) \<Rightarrow> panic | (Some f, km') \<Rightarrow> ret (f, km'))"

section \<open>Invariant and contract\<close>

text \<open>\<open>base\<close> is the first frame given to \<^verbatim>\<open>init\<close>; everything the allocator hands out lies
  in \<open>[base, current)\<close> and is live unless it is on the recycle stack.\<close>

definition fa_invar :: "usize \<Rightarrow> StackFrameAllocator \<Rightarrow> bool" where
  "fa_invar base s \<longleftrightarrow> base \<le> fa_current s \<and> fa_current s \<le> fa_end s \<and> unat (fa_end s) \<le> 2 ^ 44
     \<and> distinct (fa_recycled s) \<and> (\<forall>p \<in> set (fa_recycled s). base \<le> p \<and> p < fa_current s)"

definition fa_live :: "usize \<Rightarrow> StackFrameAllocator \<Rightarrow> PhysPageNum set" where
  "fa_live base s = {ppn. base \<le> ppn0 ppn \<and> ppn0 ppn < fa_current s \<and> ppn0 ppn \<notin> set (fa_recycled s)}"

lemma fa_below_end_id:
  assumes "fa_invar base s" and "p < fa_end s"
  shows "ppn_from p = PhysPageNum p"
  using assms by (intro ppn_from_id) (auto simp: fa_invar_def word_less_nat_alt)

lemma fa_alloc_cases:
  assumes "fa_invar base s"
  obtains
    (recycled) p rest where "fa_recycled s = rest @ [p]"
      "fa_alloc s = (Some (PhysPageNum p), s\<lparr>fa_recycled := rest\<rparr>)" "base \<le> p" "p < fa_current s"
  | (exhausted) "fa_recycled s = []" "fa_current s = fa_end s" "fa_alloc s = (None, s)"
  | (fresh) "fa_recycled s = []" "fa_current s < fa_end s"
      "fa_alloc s = (Some (PhysPageNum (fa_current s)), s\<lparr>fa_current := fa_current s + 1\<rparr>)"
proof (cases "fa_recycled s" rule: rev_cases)
  case Nil
  have "fa_current s \<noteq> fa_end s \<Longrightarrow> fa_current s < fa_end s"
    using assms by (auto simp: fa_invar_def)
  then show ?thesis
    using Nil fa_below_end_id [OF assms, of "fa_current s"] that
    by (cases "fa_current s = fa_end s") (auto simp: fa_alloc_def)
next
  case (snoc rest p)
  then have "base \<le> p" "p < fa_current s" "p < fa_end s"
    using assms by (auto simp: fa_invar_def)
  then show ?thesis
    using snoc fa_below_end_id [OF assms, of p] that by (auto simp: fa_alloc_def)
qed

lemma fa_alloc_None_iff:
  assumes "fa_invar base s"
  shows "fst (fa_alloc s) = None \<longleftrightarrow> fa_recycled s = [] \<and> fa_current s = fa_end s"
  using assms
proof (cases rule: fa_alloc_cases)
  case (recycled p rest)
  then show ?thesis by simp
next
  case exhausted
  then show ?thesis by simp
next
  case fresh
  then show ?thesis by auto
qed

lemma fa_dealloc_live:
  assumes "fa_invar base s" and "ppn \<in> fa_live base s"
  shows "\<exists>s'. fa_dealloc s ppn = Some s' \<and> fa_invar base s' \<and> fa_live base s' = fa_live base s - {ppn}"
proof -
  have "fa_dealloc s ppn = Some (s\<lparr>fa_recycled := vec_push (fa_recycled s) (ppn0 ppn)\<rparr>)"
    using assms(2) by (auto simp: fa_dealloc_def fa_live_def)
  moreover have "fa_invar base (s\<lparr>fa_recycled := vec_push (fa_recycled s) (ppn0 ppn)\<rparr>)"
    using assms by (auto simp: fa_invar_def fa_live_def)
  ultimately show ?thesis by (auto simp: fa_live_def PhysPageNum.expand)
qed

lemma fa_alloc_Some:
  assumes "fa_invar base s" and "fa_alloc s = (Some ppn, s')"
  shows "fa_invar base s' \<and> ppn \<notin> fa_live base s \<and> fa_live base s' = insert ppn (fa_live base s)"
  using assms(1)
proof (cases rule: fa_alloc_cases)
  case (recycled p rest)
  then show ?thesis using assms by (auto simp: fa_invar_def fa_live_def PhysPageNum.expand)
next
  case fresh
  note inc = less_inc_cases [OF fresh(2)] and le = inc_le_of_less [OF fresh(2)]
  have "base \<le> fa_current s" using assms(1) by (simp add: fa_invar_def)
  also have "fa_current s \<le> fa_current s + 1" using inc [of "fa_current s"] by simp
  finally have "base \<le> fa_current s + 1" .
  then have "fa_invar base s'" and "fa_live base s' = insert ppn (fa_live base s)"
    using assms fresh(1,3) le by (auto simp: fa_invar_def fa_live_def inc PhysPageNum.expand)
  moreover have "ppn \<notin> fa_live base s" using assms fresh(3) by (auto simp: fa_live_def)
  ultimately show ?thesis by simp
qed (use assms in auto)

interpretation frames: id_allocator fa_alloc fa_dealloc "fa_live base" "fa_invar base" for base
proof unfold_locales
  fix s s' assume "fa_invar base s" "fa_alloc s = (None, s')"
  then show "s' = s" by (cases rule: fa_alloc_cases) auto
qed (use fa_alloc_Some fa_dealloc_live in blast)+

section \<open>Capacity\<close>

lemma fa_live_card:
  assumes "fa_invar base s"
  shows "card (fa_live base s) + length (fa_recycled s) = unat (fa_current s) - unat base"
proof -
  let ?I = "{unat base..<unat (fa_current s)}"
  let ?R = "unat ` set (fa_recycled s)"
  have inj: "inj_on (\<lambda>p. unat (ppn0 p)) A" for A
    by (auto intro!: inj_onI PhysPageNum.expand dest: unat_eqD)
  have "(\<lambda>p. unat (ppn0 p)) ` fa_live base s = ?I - ?R"
  proof (intro set_eqI iffI)
    fix n assume n: "n \<in> ?I - ?R"
    then have "n < 2 ^ 64" using unat_lt_size64 [of "fa_current s"] by simp
    then obtain w :: usize where w: "n = unat w" using unat_of_nat64 by metis
    then have "PhysPageNum w \<in> fa_live base s"
      using n by (auto simp: fa_live_def word_le_nat_alt word_less_nat_alt)
    then show "n \<in> (\<lambda>p. unat (ppn0 p)) ` fa_live base s"
      using w by (intro image_eqI [of _ _ "PhysPageNum w"]) simp_all
  qed (auto simp: fa_live_def word_le_nat_alt word_less_nat_alt dest: unat_eqD)
  then have "card (fa_live base s) = card (?I - ?R)"
    using card_image [OF inj, of "fa_live base s"] by (simp only:)
  moreover have "?R \<subseteq> ?I"
    using assms by (auto simp: fa_invar_def word_le_nat_alt word_less_nat_alt)
  moreover have "card ?R = length (fa_recycled s)"
    using assms by (simp add: fa_invar_def card_image [OF inj_on_unat] distinct_card)
  moreover have "card ?R \<le> card ?I" using \<open>?R \<subseteq> ?I\<close> by (intro card_mono) auto
  ultimately show ?thesis by (simp add: card_Diff_subset)
qed

lemma unat_unallocated_frames:
  assumes "fa_invar base s"
  shows "unat (unallocated_frames s) =
    length (fa_recycled s) + (unat (fa_end s) - unat (fa_current s))"
proof -
  have le: "fa_current s \<le> fa_end s" and E: "unat (fa_end s) \<le> 2 ^ 44"
    using assms by (auto simp: fa_invar_def)
  have "length (fa_recycled s) \<le> unat (fa_current s)" using fa_live_card [OF assms] by linarith
  also have "\<dots> \<le> unat (fa_end s)" using le by (simp add: word_le_nat_alt)
  finally have R: "length (fa_recycled s) \<le> 2 ^ 44" using E by linarith
  have "unallocated_frames s = of_nat (length (fa_recycled s)) + (fa_end s - fa_current s)"
    by (simp add: unallocated_frames_def)
  moreover have "unat (fa_end s - fa_current s) = unat (fa_end s) - unat (fa_current s)"
    using le by (rule unat_sub)
  moreover have "unat (of_nat (length (fa_recycled s)) :: usize) = length (fa_recycled s)"
    using R by (simp add: unat_of_nat)
  ultimately have "unat (unallocated_frames s) =
      (length (fa_recycled s) + (unat (fa_end s) - unat (fa_current s))) mod 2 ^ LENGTH(64)"
    by (simp only: unat_word_ariths(1))
  then show ?thesis using R E by simp
qed

lemma fa_alloc_end: "fa_alloc s = (r, s') \<Longrightarrow> fa_end s' = fa_end s"
  by (auto simp: fa_alloc_def Let_def split: option.splits if_splits)

lemma fa_dealloc_end: "fa_dealloc s ppn = Some s' \<Longrightarrow> fa_end s' = fa_end s"
  by (auto simp: fa_dealloc_def split: if_splits)

lemma unallocated_live:
  assumes "fa_invar base s"
  shows "unat (unallocated_frames s) + card (fa_live base s) = unat (fa_end s) - unat base"
proof -
  have "unat base \<le> unat (fa_current s)" "unat (fa_current s) \<le> unat (fa_end s)"
    using assms by (auto simp: fa_invar_def word_le_nat_alt)
  then show ?thesis using unat_unallocated_frames [OF assms] fa_live_card [OF assms] by simp
qed

lemma frame_alloc_None_unallocated:
  assumes "fa_invar base s"
  shows "fst (fa_alloc s) = None \<longleftrightarrow> unallocated_frames s = 0"
proof -
  note u = unat_unallocated_frames [OF assms]
  have le: "unat (fa_current s) \<le> unat (fa_end s)"
    using assms by (auto simp: fa_invar_def word_le_nat_alt)
  have "unat (unallocated_frames s) = 0 \<longleftrightarrow>
      fa_recycled s = [] \<and> unat (fa_current s) = unat (fa_end s)"
    using le by (cases "unat (fa_current s) = unat (fa_end s)") (simp_all add: u)
  then have zero: "unallocated_frames s = 0 \<longleftrightarrow> fa_recycled s = [] \<and> fa_current s = fa_end s"
    by (auto simp: unat_eq_0 dest: unat_eqD)
  show ?thesis unfolding zero using assms by (rule fa_alloc_None_iff)
qed

lemma finite_fa_live: "finite (fa_live base s)"
proof -
  have "finite (PhysPageNum ` (UNIV :: usize set))" by simp
  moreover have "PhysPageNum ` UNIV = UNIV" by (metis PhysPageNum.exhaust surj_def)
  ultimately show ?thesis by (metis finite_subset subset_UNIV)
qed

lemma fa_alloc_unallocated:
  assumes "fa_invar base s" and "fa_alloc s = (Some ppn, s')"
  shows "unat (unallocated_frames s') = unat (unallocated_frames s) - 1"
proof -
  note spec = fa_alloc_Some [OF assms]
  then have "card (fa_live base s') = Suc (card (fa_live base s))"
    using finite_fa_live by simp
  moreover have "fa_end s' = fa_end s" using assms(2) by (rule fa_alloc_end)
  moreover have "unat (unallocated_frames s') + card (fa_live base s') = unat (fa_end s') - unat base"
    using spec by (intro unallocated_live) blast
  ultimately show ?thesis using unallocated_live [OF assms(1)] by simp
qed

lemma fa_init_invar:
  assumes "l \<le> r" and "unat r \<le> 2 ^ 44"
  shows "fa_invar l (fa_init (PhysPageNum l) (PhysPageNum r) fa_new)"
    and "fa_live l (fa_init (PhysPageNum l) (PhysPageNum r) fa_new) = {}"
  using assms by (auto simp: fa_invar_def fa_live_def fa_init_def fa_new_def)

lemma fa_live_range:
  assumes "fa_invar base s" and "ppn \<in> fa_live base s"
  shows "base \<le> ppn0 ppn" and "ppn0 ppn < fa_end s" and "unat (ppn0 ppn) < 2 ^ 44"
  using assms by (auto simp: fa_invar_def fa_live_def word_le_nat_alt word_less_nat_alt)

lemma run_ops_fa_end:
  "run_ops fa_alloc fa_dealloc ops s held = Some (s', held') \<Longrightarrow> fa_end s' = fa_end s"
proof (induction ops arbitrary: s held)
  case (Cons op ops)
  show ?case
  proof (cases op)
    case AllocOp
    then show ?thesis using Cons by (auto simp: fa_alloc_end split: prod.splits option.splits)
  next
    case (DropOp n)
    then show ?thesis using Cons by (auto simp: fa_dealloc_end split: if_splits elim!: bind_eq_SomeE)
  qed
qed simp

section \<open>Properties\<close>

text \<open>C10: starting from a freshly initialised allocator over the frames \<open>[l, r)\<close>, no
  sequence of allocations and drops by owners that drop only what they hold ever
  panics, no frame is held twice, and every frame held lies in \<open>[l, r)\<close>.\<close>

theorem frame_alloc_no_double_owner:
  assumes "l \<le> r" and "unat r \<le> 2 ^ 44"
  shows "\<exists>s held. run_ops fa_alloc fa_dealloc ops (fa_init (PhysPageNum l) (PhysPageNum r) fa_new) []
      = Some (s, held) \<and> distinct held \<and> (\<forall>p \<in> set held. l \<le> ppn0 p \<and> ppn0 p < r)"
proof -
  obtain s held where run: "run_ops fa_alloc fa_dealloc ops
      (fa_init (PhysPageNum l) (PhysPageNum r) fa_new) [] = Some (s, held)"
    and inv: "fa_invar l s" "distinct held" "set held = fa_live l s"
    using frames.run_ops_safe [OF fa_init_invar(1) [OF assms], of "[]" ops] fa_init_invar(2) [OF assms]
    by auto
  have "fa_end s = r" using run_ops_fa_end [OF run] by (simp add: fa_init_def)
  then show ?thesis using run inv fa_live_range [OF inv(1)] by auto
qed

theorem frame_alloc_no_double_owner_witness:
  "\<exists>s held. run_ops fa_alloc fa_dealloc [AllocOp, AllocOp, DropOp 1, AllocOp]
      (fa_init (PhysPageNum 5) (PhysPageNum 8) fa_new) [] = Some (s, held)
    \<and> distinct held \<and> (\<forall>p \<in> set held. 5 \<le> ppn0 p \<and> ppn0 p < 8)"
  by (rule frame_alloc_no_double_owner) simp_all


definition frame_conservation_example :: StackFrameAllocator where
  "frame_conservation_example = \<lparr>fa_current = 7, fa_end = 9, fa_recycled = [5]\<rparr>"


end
