(* ===== verification/Task.thy ===== *)
theory Task
  imports Timer Frame_Allocator "HOL-Library.Multiset"
begin

text \<open>
  Tasks and their scheduling: the task control block (\<^verbatim>\<open>kernel/src/task/task.rs\<close>), the
  trap context (\<^verbatim>\<open>trap/context.rs\<close>), the ready and block queues (\<^verbatim>\<open>task/manager.rs\<close>), the
  processor (\<^verbatim>\<open>task/processor.rs\<close>), giving up the processor (\<^verbatim>\<open>task/mod.rs\<close>) and the timers
  (\<^verbatim>\<open>timer.rs\<close>).  A task is named by a number that stands for the address of its control
  block, so \<^verbatim>\<open>Arc::ptr_eq\<close> is equality.  The registers saved by \<^verbatim>\<open>__switch\<close> are the point
  where a task goes on when it is dispatched again and are not part of the state.
\<close>

section \<open>Trap contexts\<close>

text \<open>\<^verbatim>\<open>TrapContext\<close> lies at the beginning of a page of its own: the 32 registers and five
  more words, one after the other.\<close>

record TrapContext =
  tc_x :: "usize list"
  tc_sstatus :: usize
  tc_sepc :: usize
  tc_kernel_satp :: usize
  tc_kernel_sp :: usize
  tc_trap_handler :: usize

definition set_sp :: "usize \<Rightarrow> TrapContext \<Rightarrow> TrapContext" where
  "set_sp sp cx = cx\<lparr>tc_x := (tc_x cx)[2 := sp]\<rparr>"

text \<open>The value of the status register is an argument; its bit 8 is the previous privilege.\<close>

definition app_init_context :: "usize \<Rightarrow> usize \<Rightarrow> usize \<Rightarrow> usize \<Rightarrow> usize \<Rightarrow> usize \<Rightarrow> TrapContext" where
  "app_init_context status entry sp kernel_satp kernel_sp trap_handler =
    set_sp sp \<lparr>tc_x = replicate 32 0, tc_sstatus = unset_bit 8 status, tc_sepc = entry, tc_kernel_satp = kernel_satp,
      tc_kernel_sp = kernel_sp, tc_trap_handler = trap_handler\<rparr>"

definition load_trap_cx :: "phys_mem \<Rightarrow> PhysPageNum \<Rightarrow> TrapContext" where
  "load_trap_cx m ppn =
    \<lparr>tc_x = map (m ppn) [0..<32], tc_sstatus = m ppn 32, tc_sepc = m ppn 33, tc_kernel_satp = m ppn 34,
     tc_kernel_sp = m ppn 35, tc_trap_handler = m ppn 36\<rparr>"

definition store_trap_cx :: "PhysPageNum \<Rightarrow> TrapContext \<Rightarrow> phys_mem \<Rightarrow> phys_mem" where
  "store_trap_cx ppn cx m =
    m(ppn := (\<lambda>i. if i < 32 then tc_x cx ! i
       else if i < 37 then [tc_sstatus cx, tc_sepc cx, tc_kernel_satp cx, tc_kernel_sp cx, tc_trap_handler cx] ! (i - 32)
       else m ppn i))"

lemma load_store_trap_cx [simp]: "length (tc_x cx) = 32 \<Longrightarrow> load_trap_cx (store_trap_cx ppn cx m) ppn = cx"
  by (simp add: load_trap_cx_def store_trap_cx_def list_eq_iff_nth_eq)

lemma load_store_trap_cx_other [simp]: "q \<noteq> ppn \<Longrightarrow> load_trap_cx (store_trap_cx ppn cx m) q = load_trap_cx m q"
  by (simp add: load_trap_cx_def store_trap_cx_def)

lemma length_load_trap_cx [simp]: "length (tc_x (load_trap_cx m ppn)) = 32"
  by (simp add: load_trap_cx_def)

section \<open>Task control blocks\<close>

datatype TaskStatus = Ready | Running | Blocked

record TaskUserRes =
  res_tid :: nat
  res_ustack_top :: usize
  self_stack :: bool

text \<open>The process of a task is given by its identifier.  Exit codes are \<^verbatim>\<open>i32\<close> values.\<close>

record TaskControlBlock =
  task_process :: nat
  task_kstack :: nat
  task_res :: "TaskUserRes option"
  trap_cx_ppn :: PhysPageNum
  task_status :: TaskStatus
  task_exit_code :: "int option"
  signal_pending :: usize
  handling_sig :: int
  killed :: bool
  frozen :: bool
  trap_ctx_backup :: "TrapContext option"
  clear_child_tid :: usize
  itimer :: ITimerVal

definition gettid :: "TaskControlBlock \<Rightarrow> nat run" where
  "gettid t = map_option res_tid (task_res t)"

text \<open>The part of \<^verbatim>\<open>TaskControlBlock::new\<close> that fills in the fields.\<close>

definition TaskControlBlock_init :: "nat \<Rightarrow> nat \<Rightarrow> TaskUserRes \<Rightarrow> PhysPageNum \<Rightarrow> TaskControlBlock" where
  "TaskControlBlock_init process kstack res trap_ppn =
    \<lparr>task_process = process, task_kstack = kstack, task_res = Some res, trap_cx_ppn = trap_ppn, task_status = Ready,
     task_exit_code = None, signal_pending = 0, handling_sig = -1, killed = False, frozen = False, trap_ctx_backup = None,
     clear_child_tid = 0, itimer = ITimerVal_new\<rparr>"

section \<open>Queues\<close>

record TimerCondVar =
  expire_ms :: usize
  timer_task :: nat

record sched =
  tcb :: "nat \<Rightarrow> TaskControlBlock"
  ready_queue :: "nat list"
  block_queue :: "nat list"
  current :: "nat option"
  timers :: "TimerCondVar list"

definition set_status :: "nat \<Rightarrow> TaskStatus \<Rightarrow> 'a sched_scheme \<Rightarrow> 'a sched_scheme" where
  "set_status t st s = s\<lparr>tcb := (tcb s)(t := (tcb s t)\<lparr>task_status := st\<rparr>)\<rparr>"

definition add_task :: "nat \<Rightarrow> 'a sched_scheme \<Rightarrow> 'a sched_scheme" where
  "add_task t s = s\<lparr>ready_queue := ready_queue s @ [t]\<rparr>"

definition fetch_task :: "'a sched_scheme \<Rightarrow> nat option \<times> 'a sched_scheme" where
  "fetch_task s = (case ready_queue s of [] \<Rightarrow> (None, s) | t # ts \<Rightarrow> (Some t, s\<lparr>ready_queue := ts\<rparr>))"

definition remove_task :: "nat \<Rightarrow> 'a sched_scheme \<Rightarrow> 'a sched_scheme" where
  "remove_task t s = s\<lparr>ready_queue := remove1 t (ready_queue s)\<rparr>"

definition block_task :: "nat \<Rightarrow> 'a sched_scheme \<Rightarrow> 'a sched_scheme" where
  "block_task t s = s\<lparr>block_queue := block_queue s @ [t]\<rparr>"

definition wakeup_task :: "nat \<Rightarrow> 'a sched_scheme \<Rightarrow> 'a sched_scheme" where
  "wakeup_task t s = add_task t (set_status t Ready s)"

definition unblock_task :: "nat \<Rightarrow> 'a sched_scheme \<Rightarrow> 'a sched_scheme" where
  "unblock_task t s =
    (let s = set_status t Ready s in
     if t \<in> set (block_queue s)
     then s\<lparr>block_queue := remove1 t (block_queue s), ready_queue := t # ready_queue s\<rparr>
     else s)"

section \<open>The processor\<close>

definition take_current_task :: "'a sched_scheme \<Rightarrow> nat option \<times> 'a sched_scheme" where
  "take_current_task s = (current s, s\<lparr>current := None\<rparr>)"

text \<open>One round of the loop of \<^verbatim>\<open>run_tasks\<close>; with an empty queue it changes nothing.\<close>

definition run_next :: "'a sched_scheme \<Rightarrow> 'a sched_scheme" where
  "run_next s =
    (case fetch_task s of
       (Some t, s) \<Rightarrow> (set_status t Running s)\<lparr>current := Some t\<rparr>
     | (None, s) \<Rightarrow> s)"

definition suspend_current_and_run_next :: "'a sched_scheme \<Rightarrow> 'a sched_scheme run" where
  "suspend_current_and_run_next s = do {
     let (task, s) = take_current_task s;
     t \<leftarrow> task;
     ret (add_task t (set_status t Ready s)) }"

definition block_current_and_run_next :: "'a sched_scheme \<Rightarrow> 'a sched_scheme run" where
  "block_current_and_run_next s = do {
     let (task, s) = take_current_task s;
     t \<leftarrow> task;
     ret (block_task t (set_status t Blocked s)) }"

section \<open>Timers\<close>

text \<open>The timers form a binary heap ordered by the negated expiry time as a signed number;
  a \<^verbatim>\<open>BinaryHeap\<close> promises a greatest element, here the oldest among equals.\<close>

definition timer_key :: "TimerCondVar \<Rightarrow> int" where
  "timer_key c = sint (- expire_ms c)"

definition timer_cmp :: "TimerCondVar \<Rightarrow> TimerCondVar \<Rightarrow> Ordering" where
  "timer_cmp a b = (if timer_key a < timer_key b then Less else if timer_key a = timer_key b then Equal else Greater)"

definition heap_peek :: "TimerCondVar list \<Rightarrow> TimerCondVar option" where
  "heap_peek h = (case h of [] \<Rightarrow> None | c # cs \<Rightarrow> Some (fold (\<lambda>b a. if timer_cmp a b = Less then b else a) cs c))"

definition add_timer :: "usize \<Rightarrow> nat \<Rightarrow> 'a sched_scheme \<Rightarrow> 'a sched_scheme" where
  "add_timer expire task s = s\<lparr>timers := timers s @ [\<lparr>expire_ms = expire, timer_task = task\<rparr>]\<rparr>"

definition remove_timer :: "nat \<Rightarrow> 'a sched_scheme \<Rightarrow> 'a sched_scheme" where
  "remove_timer task s = s\<lparr>timers := filter (\<lambda>c. timer_task c \<noteq> task) (timers s)\<rparr>"

definition remove_inactive_task :: "nat \<Rightarrow> 'a sched_scheme \<Rightarrow> 'a sched_scheme" where
  "remove_inactive_task t s = remove_timer t (remove_task t s)"

lemma fold_max_in: "fold (\<lambda>b a. if timer_cmp a b = Less then b else a) cs c \<in> set (c # cs)"
proof (induction cs arbitrary: c)
  case (Cons b cs)
  show ?case using Cons.IH [of b] Cons.IH [of c] by (auto split: if_splits)
qed simp

lemma heap_peek_in: "heap_peek h = Some c \<Longrightarrow> c \<in> set h"
  using fold_max_in by (auto simp: heap_peek_def split: list.splits)

lemma fold_max_le: "b \<in> set (c # cs) \<Longrightarrow> timer_key b \<le> timer_key (fold (\<lambda>b a. if timer_cmp a b = Less then b else a) cs c)"
proof (induction cs arbitrary: b c)
  case (Cons x cs)
  let ?c = "if timer_cmp c x = Less then x else c"
  have "timer_key c \<le> timer_key ?c" "timer_key x \<le> timer_key ?c" by (auto simp: timer_cmp_def split: if_splits)
  then show ?case using Cons.IH [of b ?c] Cons.IH [of ?c ?c] Cons.prems by fastforce
qed simp

lemma heap_peek_le: "heap_peek h = Some c \<Longrightarrow> b \<in> set h \<Longrightarrow> timer_key b \<le> timer_key c"
  using fold_max_le by (fastforce simp: heap_peek_def split: list.splits)

lemma heap_peek_None [simp]: "heap_peek h = None \<longleftrightarrow> h = []"
  by (simp add: heap_peek_def split: list.splits)

text \<open>The loop of \<^verbatim>\<open>check_timer\<close>: the greatest timer is taken while it has expired.\<close>

function check_timer :: "usize \<Rightarrow> 'a sched_scheme \<Rightarrow> 'a sched_scheme" where
  "check_timer current_ms s =
    (case heap_peek (timers s) of
       None \<Rightarrow> s
     | Some c \<Rightarrow>
         if expire_ms c \<le> current_ms
         then check_timer current_ms ((wakeup_task (timer_task c) s)\<lparr>timers := remove1 c (timers s)\<rparr>)
         else s)"
  by pat_completeness auto
termination
  by (relation "measure (\<lambda>(_, s). length (timers s))")
    (auto dest!: heap_peek_in simp: length_remove1 wakeup_task_def add_task_def set_status_def intro: diff_less length_pos_if_in_set)

declare check_timer.simps [simp del]

lemmas sched_defs = set_status_def add_task_def fetch_task_def remove_task_def block_task_def wakeup_task_def
  take_current_task_def run_next_def suspend_current_and_run_next_def block_current_and_run_next_def

section \<open>Timers wake their tasks\<close>

lemma timer_key_less: "unat (expire_ms c) < 2 ^ 63 \<Longrightarrow> timer_key c = - int (unat (expire_ms c))"
proof -
  assume "unat (expire_ms c) < 2 ^ 63"
  then have lt: "uint (expire_ms c) < 2 ^ 63" by (simp only: unat_eq_nat_uint nat_less_iff uint_ge_0) simp
  have "expire_ms c = word_of_int (int (unat (expire_ms c)))" by simp
  then have "timer_key c = sint (word_of_int (- int (unat (expire_ms c))) :: usize)" by (simp add: timer_key_def)
  also have "\<dots> = - int (unat (expire_ms c))" using lt
    by (simp only: signed_of_int) (subst signed_take_bit_int_eq_self, simp_all, use uint_ge_0 [of "expire_ms c"] in linarith)
  finally show ?thesis .
qed

definition woken :: "nat list \<Rightarrow> 'a sched_scheme \<Rightarrow> 'a sched_scheme" where
  "woken ts s = fold wakeup_task ts s"

lemma ready_queue_woken: "ready_queue (woken ts s) = ready_queue s @ ts"
  by (induction ts arbitrary: s) (simp_all add: woken_def sched_defs)

lemma status_woken: "task_status (tcb (woken ts s) t) = (if t \<in> set ts then Ready else task_status (tcb s t))"
  by (induction ts arbitrary: s) (simp_all add: woken_def sched_defs)

lemma wakeup_timers [simp]: "wakeup_task t (s\<lparr>timers := cs\<rparr>) = (wakeup_task t s)\<lparr>timers := cs\<rparr>"
  by (simp add: sched_defs)

lemma woken_timers [simp]: "woken ts (s\<lparr>timers := cs\<rparr>) = (woken ts s)\<lparr>timers := cs\<rparr>"
  by (induction ts arbitrary: s) (simp_all add: woken_def)

lemma woken_Cons: "woken (t # ts) s = woken ts (wakeup_task t s)"
  by (simp add: woken_def)

lemma check_timer_woken:
  assumes "\<forall>c \<in> set (timers s). unat (expire_ms c) < 2 ^ 63"
  shows "\<exists>cs. mset cs = mset (filter (\<lambda>c. expire_ms c \<le> now) (timers s)) \<and> sorted (map expire_ms cs)
    \<and> check_timer now s = (woken (map timer_task cs) s)\<lparr>timers := timers (check_timer now s)\<rparr>
    \<and> mset (timers (check_timer now s)) = mset (filter (\<lambda>c. now < expire_ms c) (timers s))"
  using assms
proof (induction now s rule: check_timer.induct)
  case (1 now s)
  show ?case
  proof (cases "heap_peek (timers s)")
    case None
    then have "check_timer now s = s" by (simp add: check_timer.simps [of now s] del: heap_peek_None)
    moreover have "timers s = []" using None by simp
    ultimately show ?thesis by (intro exI [of _ "[]"]) (simp add: woken_def)
  next
    case (Some c)
    have least: "expire_ms c \<le> expire_ms b" if "b \<in> set (timers s)" for b
      using heap_peek_le [OF Some that] heap_peek_in [OF Some] that "1.prems" by (simp add: timer_key_less word_le_def)
    show ?thesis
    proof (cases "expire_ms c \<le> now")
      case True
      let ?s = "(wakeup_task (timer_task c) s)\<lparr>timers := remove1 c (timers s)\<rparr>"
      have step: "check_timer now s = check_timer now ?s" using Some True by (simp add: check_timer.simps [of now s])
      have rm: "timers s = [] \<longleftrightarrow> False" using heap_peek_in [OF Some] by auto
      have pre: "\<forall>c \<in> set (timers ?s). unat (expire_ms c) < 2 ^ 63"
        using "1.prems" set_remove1_subset [of c "timers s"] by auto
      obtain cs where cs: "mset cs = mset (filter (\<lambda>c. expire_ms c \<le> now) (timers ?s))" "sorted (map expire_ms cs)"
        "check_timer now ?s = (woken (map timer_task cs) ?s)\<lparr>timers := timers (check_timer now ?s)\<rparr>"
        "mset (timers (check_timer now ?s)) = mset (filter (\<lambda>c. now < expire_ms c) (timers ?s))"
        using "1.IH" [OF Some True pre] by blast
      have "mset (c # cs) = mset (filter (\<lambda>c. expire_ms c \<le> now) (timers s))"
        using cs(1) heap_peek_in [OF Some] True by (simp add: filter_remove1)
      moreover have "sorted (map expire_ms (c # cs))"
      proof -
        have "set cs \<subseteq> set (timers s)" using mset_eq_setD [OF cs(1)] set_remove1_subset [of c "timers s"] by auto
        then show ?thesis using least cs(2) by auto
      qed
      moreover have "check_timer now s = (woken (map timer_task (c # cs)) s)\<lparr>timers := timers (check_timer now s)\<rparr>"
        unfolding step by (subst cs(3)) (simp add: woken_Cons)
      moreover have "mset (timers (check_timer now s)) = mset (filter (\<lambda>c. now < expire_ms c) (timers s))"
        unfolding step using cs(4) True by (simp add: filter_remove1)
      ultimately show ?thesis by blast
    next
      case False
      then have later: "\<forall>b \<in> set (timers s). now < expire_ms b" using least by (auto simp: not_le intro: less_le_trans)
      then have "filter (\<lambda>c. expire_ms c \<le> now) (timers s) = []" "filter (\<lambda>c. now < expire_ms c) (timers s) = timers s"
        by (auto simp: filter_empty_conv)
      moreover have "check_timer now s = s" using Some False by (simp add: check_timer.simps [of now s])
      ultimately show ?thesis by (intro exI [of _ "[]"]) (simp add: woken_def)
    qed
  qed
qed

text \<open>C15: \<^verbatim>\<open>check_timer\<close> ends, and when every expiry time is below 2^63 it wakes exactly the tasks whose timers
  have expired, each once per timer and in the order of the expiry times, makes them ready and appends them to the
  ready queue, and keeps exactly the timers that have not expired.\<close>

theorem check_timer_wakes_expired:
  assumes "\<forall>c \<in> set (timers s). unat (expire_ms c) < 2 ^ 63"
  shows "\<exists>cs. mset cs = mset (filter (\<lambda>c. expire_ms c \<le> now) (timers s)) \<and> sorted (map expire_ms cs)
    \<and> ready_queue (check_timer now s) = ready_queue s @ map timer_task cs
    \<and> (\<forall>t. task_status (tcb (check_timer now s) t) = (if t \<in> timer_task ` set cs then Ready else task_status (tcb s t)))
    \<and> mset (timers (check_timer now s)) = mset (filter (\<lambda>c. now < expire_ms c) (timers s))"
proof -
  obtain cs where cs: "mset cs = mset (filter (\<lambda>c. expire_ms c \<le> now) (timers s))" "sorted (map expire_ms cs)"
    "check_timer now s = (woken (map timer_task cs) s)\<lparr>timers := timers (check_timer now s)\<rparr>"
    "mset (timers (check_timer now s)) = mset (filter (\<lambda>c. now < expire_ms c) (timers s))"
    using check_timer_woken [OF assms] by blast
  have "ready_queue (check_timer now s) = ready_queue s @ map timer_task cs" "tcb (check_timer now s) = tcb (woken (map timer_task cs) s)"
    by (subst cs(3), simp add: ready_queue_woken)+
  then show ?thesis using cs(1,2,4) by (intro exI [of _ cs]) (simp add: status_woken)
qed

definition idle_task :: TaskControlBlock where
  "idle_task = TaskControlBlock_init 0 0 \<lparr>res_tid = 0, res_ustack_top = 0, self_stack = True\<rparr> (ppn_from 0)"

definition ex_sched :: sched where
  "ex_sched = \<lparr>tcb = (\<lambda>_. idle_task), ready_queue = [], block_queue = [], current = None, timers = []\<rparr>"

theorem check_timer_wakes_expired_witness:
  "\<exists>cs. ready_queue (check_timer 20 (add_timer 15 2 (add_timer 30 3 (add_timer 10 4 ex_sched)))) = map timer_task cs
    \<and> sorted (map expire_ms cs) \<and> set cs = {\<lparr>expire_ms = 10, timer_task = 4\<rparr>, \<lparr>expire_ms = 15, timer_task = 2\<rparr>}"
proof -
  let ?s = "add_timer 15 2 (add_timer 30 3 (add_timer 10 4 ex_sched))"
  have t: "timers ?s = [\<lparr>expire_ms = 10, timer_task = 4\<rparr>, \<lparr>expire_ms = 30, timer_task = 3\<rparr>, \<lparr>expire_ms = 15, timer_task = 2\<rparr>]"
    "ready_queue ?s = []"
    by (simp_all add: add_timer_def ex_sched_def)
  have "\<forall>c \<in> set (timers ?s). unat (expire_ms c) < 2 ^ 63" by (simp add: t)
  from check_timer_wakes_expired [OF this, of 20] obtain cs where
    cs: "mset cs = mset (filter (\<lambda>c. expire_ms c \<le> 20) (timers ?s))" "sorted (map expire_ms cs)"
      "ready_queue (check_timer 20 ?s) = ready_queue ?s @ map timer_task cs" by blast
  have "set cs = set (filter (\<lambda>c. expire_ms c \<le> 20) (timers ?s))" using cs(1) by (rule mset_eq_setD)
  then show ?thesis using cs(2,3) by (intro exI [of _ cs]) (simp add: t)
qed

end
