(* ===== verification/Sync.thy ===== *)
theory Sync
  imports Task "HOL-Library.AList"
begin

text \<open>
  \<^verbatim>\<open>kernel/src/sync\<close>: the spinning and the blocking mutex, the semaphore, the condition
  variable and the futex, over the scheduler state of \<^verbatim>\<open>Task\<close>.  An operation
  that may block returns whether it went through at once; when it did not, the task has left
  the processor and the operation returns when the task is dispatched again.  A system of
  tasks that use one blocking object is a step relation, and the bound on the number of
  tasks inside is proved once for the mutex and the semaphore.
\<close>

section \<open>Mutex\<close>

text \<open>One round of the loop of \<^verbatim>\<open>MutexSpin::lock\<close>: the task yields when the mutex is locked.\<close>

definition spin_lock_round :: "'a sched_scheme \<times> bool \<Rightarrow> (bool \<times> 'a sched_scheme \<times> bool) run" where
  "spin_lock_round sm = do {
     let (s, locked) = sm;
     if locked then do {
       s \<leftarrow> suspend_current_and_run_next s;
       ret (False, s, locked) }
     else ret (True, s, True) }"

definition spin_unlock :: "'a sched_scheme \<times> bool \<Rightarrow> ('a sched_scheme \<times> bool) run" where
  "spin_unlock sm = ret (fst sm, False)"

record MutexBlocking =
  mutex_locked :: bool
  mutex_wait_queue :: "nat list"

definition MutexBlocking_new :: MutexBlocking where
  "MutexBlocking_new = \<lparr>mutex_locked = False, mutex_wait_queue = []\<rparr>"

definition mutex_lock :: "'a sched_scheme \<times> MutexBlocking \<Rightarrow> (bool \<times> 'a sched_scheme \<times> MutexBlocking) run" where
  "mutex_lock sm = do {
     let (s, m) = sm;
     if mutex_locked m then do {
       t \<leftarrow> current s;
       let m = m\<lparr>mutex_wait_queue := mutex_wait_queue m @ [t]\<rparr>;
       s \<leftarrow> block_current_and_run_next s;
       ret (False, s, m) }
     else ret (True, s, m\<lparr>mutex_locked := True\<rparr>) }"

definition mutex_unlock :: "'a sched_scheme \<times> MutexBlocking \<Rightarrow> ('a sched_scheme \<times> MutexBlocking) run" where
  "mutex_unlock sm = do {
     let (s, m) = sm;
     rust_assert (mutex_locked m);
     case mutex_wait_queue m of
       t # q \<Rightarrow> ret (wakeup_task t s, m\<lparr>mutex_wait_queue := q\<rparr>)
     | [] \<Rightarrow> ret (s, m\<lparr>mutex_locked := False\<rparr>) }"

section \<open>Semaphore\<close>

text \<open>The count is an \<^verbatim>\<open>isize\<close>; each call moves it by one, so that it stays in range.\<close>

record Semaphore =
  sem_count :: int
  sem_wait_queue :: "nat list"

definition Semaphore_new :: "usize \<Rightarrow> Semaphore" where
  "Semaphore_new res_count = \<lparr>sem_count = sint res_count, sem_wait_queue = []\<rparr>"

definition sem_up :: "'a sched_scheme \<times> Semaphore \<Rightarrow> ('a sched_scheme \<times> Semaphore) run" where
  "sem_up sm = do {
     let (s, m) = sm;
     let m = m\<lparr>sem_count := sem_count m + 1\<rparr>;
     if sem_count m \<le> 0 then
       (case sem_wait_queue m of
          t # q \<Rightarrow> ret (wakeup_task t s, m\<lparr>sem_wait_queue := q\<rparr>)
        | [] \<Rightarrow> ret (s, m))
     else ret (s, m) }"

definition sem_down :: "'a sched_scheme \<times> Semaphore \<Rightarrow> (bool \<times> 'a sched_scheme \<times> Semaphore) run" where
  "sem_down sm = do {
     let (s, m) = sm;
     let m = m\<lparr>sem_count := sem_count m - 1\<rparr>;
     if sem_count m < 0 then do {
       t \<leftarrow> current s;
       let m = m\<lparr>sem_wait_queue := sem_wait_queue m @ [t]\<rparr>;
       s \<leftarrow> block_current_and_run_next s;
       ret (False, s, m) }
     else ret (True, s, m) }"

section \<open>Condition variable\<close>

text \<open>A condition variable is its queue; \<^verbatim>\<open>wait\<close> up to the point where the task blocks, after
  which it locks the mutex again.\<close>

type_synonym Condvar = "nat list"

definition condvar_signal :: "'a sched_scheme \<times> Condvar \<Rightarrow> 'a sched_scheme \<times> Condvar" where
  "condvar_signal sc = (case sc of (s, t # q) \<Rightarrow> (wakeup_task t s, q) | (s, []) \<Rightarrow> (s, []))"

definition condvar_wait :: "'a sched_scheme \<times> Condvar \<times> MutexBlocking \<Rightarrow> ('a sched_scheme \<times> Condvar \<times> MutexBlocking) run" where
  "condvar_wait scm = do {
     let (s, q, m) = scm;
     (s, m) \<leftarrow> mutex_unlock (s, m);
     t \<leftarrow> current s;
     s \<leftarrow> block_current_and_run_next s;
     ret (s, q @ [t], m) }"

section \<open>Futex\<close>

text \<open>The queues of a process by the address of the futex word.  \<^verbatim>\<open>futex_wait\<close> compares the word
  \<open>futex_word\<close> read from user memory; the timeout is computed and not used.\<close>

type_synonym Futex = "(usize \<times> nat list) list"

definition futex_wait :: "usize \<Rightarrow> u32 \<Rightarrow> u32 \<Rightarrow> 'a sched_scheme \<times> Futex \<Rightarrow> (int \<times> 'a sched_scheme \<times> Futex) run" where
  "futex_wait uaddr futex_word val sf = do {
     let (s, f) = sf;
     if futex_word \<noteq> val then ret (EAGAIN, s, f)
     else do {
       t \<leftarrow> current s;
       let f = AList.update uaddr (t # (case map_of f uaddr of Some q \<Rightarrow> q | None \<Rightarrow> [])) f;
       s \<leftarrow> block_current_and_run_next s;
       ret (SUCCESS, s, f) } }"

text \<open>The loop of \<^verbatim>\<open>futex_signal\<close> with \<open>n\<close> rounds left after \<open>cnt\<close> rounds.\<close>

fun futex_signal_loop :: "nat \<Rightarrow> nat \<Rightarrow> usize \<Rightarrow> 'a sched_scheme \<times> Futex \<Rightarrow> (nat + int) \<times> 'a sched_scheme \<times> Futex" where
  "futex_signal_loop 0 cnt uaddr (s, f) = (Inl cnt, s, f)"
| "futex_signal_loop (Suc n) cnt uaddr (s, f) =
    (case map_of f uaddr of
       Some (t # q) \<Rightarrow> futex_signal_loop n (cnt + 1) uaddr (unblock_task t s, AList.update uaddr q f)
     | Some [] \<Rightarrow> (Inr (int cnt + 1), s, f)
     | None \<Rightarrow> (Inr EINVAL, s, f))"

definition futex_signal :: "usize \<Rightarrow> u32 \<Rightarrow> 'a sched_scheme \<times> Futex \<Rightarrow> int \<times> 'a sched_scheme \<times> Futex" where
  "futex_signal uaddr val sf =
    (case futex_signal_loop (unat val) 0 uaddr sf of
       (Inl _, s, f) \<Rightarrow> (int (unat val), s, f)
     | (Inr r, s, f) \<Rightarrow> (r, s, f))"

section \<open>Tasks that share a blocking object\<close>

datatype phase = Outside | Waiting | Inside

text \<open>The steps of the tasks: the running task acquires the object, or queues for it and leaves
  the processor, releases it, or yields; the processor takes the next ready task, and a task
  that had queued returns from the acquiring call when it is dispatched.\<close>

inductive sync_step :: "(sched \<times> 'o \<Rightarrow> (bool \<times> sched \<times> 'o) run) \<Rightarrow> (sched \<times> 'o \<Rightarrow> (sched \<times> 'o) run) \<Rightarrow>
    sched \<times> 'o \<times> (nat \<Rightarrow> phase) \<Rightarrow> sched \<times> 'o \<times> (nat \<Rightarrow> phase) \<Rightarrow> bool"
  for acquire release where
  acquire: "current s = Some t \<Longrightarrow> ph t = Outside \<Longrightarrow> acquire (s, ob) = Some (entered, s', ob') \<Longrightarrow>
    sync_step acquire release (s, ob, ph) (s', ob', ph(t := if entered then Inside else Waiting))"
| release: "current s = Some t \<Longrightarrow> ph t = Inside \<Longrightarrow> release (s, ob) = Some (s', ob') \<Longrightarrow>
    sync_step acquire release (s, ob, ph) (s', ob', ph(t := Outside))"
| yield: "suspend_current_and_run_next s = Some s' \<Longrightarrow> sync_step acquire release (s, ob, ph) (s', ob, ph)"
| dispatch: "current s = None \<Longrightarrow> ready_queue s = t # ts \<Longrightarrow>
    sync_step acquire release (s, ob, ph) (run_next s, ob, ph(t := if ph t = Waiting then Inside else ph t))"

inductive_cases sync_stepE: "sync_step acquire release (s, ob, ph) st'"

text \<open>The tasks that have the object: those inside, and those that were woken and will be inside
  when they run.\<close>

definition owners :: "nat list \<Rightarrow> (nat \<Rightarrow> phase) \<Rightarrow> nat set" where
  "owners q ph = {t. ph t = Inside \<or> ph t = Waiting \<and> t \<notin> set q}"

definition sync_invar :: "nat \<Rightarrow> nat list \<Rightarrow> sched \<Rightarrow> (nat \<Rightarrow> phase) \<Rightarrow> bool" where
  "sync_invar n q s ph \<longleftrightarrow> finite (owners q ph) \<and> card (owners q ph) = n \<and> distinct q
    \<and> (\<forall>t \<in> set q. ph t = Waiting \<and> t \<notin> set (ready_queue s) \<and> current s \<noteq> Some t)
    \<and> (\<forall>t. ph t = Waiting \<longrightarrow> current s \<noteq> Some t)
    \<and> (\<forall>t. current s = Some t \<longrightarrow> t \<notin> set (ready_queue s)) \<and> distinct (ready_queue s)
    \<and> (\<forall>t. ph t = Waiting \<and> t \<notin> set q \<longrightarrow> t \<in> set (ready_queue s))"

locale sync_object =
  fixes acquire :: "sched \<times> 'o \<Rightarrow> (bool \<times> sched \<times> 'o) run" and release :: "sched \<times> 'o \<Rightarrow> (sched \<times> 'o) run"
    and used :: "'o \<Rightarrow> nat" and queue :: "'o \<Rightarrow> nat list" and good :: "'o \<Rightarrow> bool" and cap :: nat
  assumes used_le: "good ob \<Longrightarrow> used ob \<le> cap"
    and full: "good ob \<Longrightarrow> queue ob \<noteq> [] \<Longrightarrow> used ob = cap"
    and acquire_free: "good ob \<Longrightarrow> used ob < cap \<Longrightarrow>
      \<exists>ob'. acquire (s, ob) = Some (True, s, ob') \<and> good ob' \<and> used ob' = Suc (used ob) \<and> queue ob' = queue ob"
    and acquire_full: "good ob \<Longrightarrow> used ob = cap \<Longrightarrow> current s = Some t \<Longrightarrow>
      \<exists>s' ob'. acquire (s, ob) = Some (False, s', ob') \<and> block_current_and_run_next s = Some s'
        \<and> good ob' \<and> used ob' = cap \<and> queue ob' = queue ob @ [t]"
    and release_last: "good ob \<Longrightarrow> 0 < used ob \<Longrightarrow> queue ob = [] \<Longrightarrow>
      \<exists>ob'. release (s, ob) = Some (s, ob') \<and> good ob' \<and> Suc (used ob') = used ob \<and> queue ob' = []"
    and release_next: "good ob \<Longrightarrow> 0 < used ob \<Longrightarrow> queue ob = t # q \<Longrightarrow>
      \<exists>ob'. release (s, ob) = Some (wakeup_task t s, ob') \<and> good ob' \<and> used ob' = used ob \<and> queue ob' = q"
begin

lemma owners_Inside: "owners q (ph(t := Inside)) = insert t (owners q ph)"
  by (auto simp: owners_def)

lemma acquire_keeps:
  assumes inv: "sync_invar (used ob) (queue ob) s ph" "good ob" and t: "current s = Some t" "ph t = Outside"
    and a: "acquire (s, ob) = Some (entered, s', ob')"
  shows "sync_invar (used ob') (queue ob') s' (ph(t := if entered then Inside else Waiting)) \<and> good ob'"
proof (cases "used ob < cap")
  case True
  then have e: "entered" "s' = s" "good ob'" "used ob' = Suc (used ob)" "queue ob' = queue ob"
    using acquire_free [OF inv(2) True, of s] a by auto
  have "t \<notin> owners (queue ob) ph" using t(2) by (simp add: owners_def)
  then show ?thesis using inv(1) t e by (auto simp: sync_invar_def owners_Inside)
next
  case False
  then have u: "used ob = cap" using used_le [OF inv(2)] by simp
  have e: "\<not> entered" "block_current_and_run_next s = Some s'" "good ob'" "used ob' = cap" "queue ob' = queue ob @ [t]"
    using acquire_full [OF inv(2) u t(1)] a by auto
  have s': "s' = block_task t (set_status t Blocked (s\<lparr>current := None\<rparr>))"
    using e(2) t(1) by (simp add: block_current_and_run_next_def take_current_task_def)
  have "owners (queue ob @ [t]) (ph(t := Waiting)) = owners (queue ob) ph" using t(2) by (auto simp: owners_def)
  then show ?thesis using inv(1) t e u by (auto simp: sync_invar_def s' sched_defs)
qed

lemma release_keeps:
  assumes inv: "sync_invar (used ob) (queue ob) s ph" "good ob" and t: "current s = Some t" "ph t = Inside"
    and r: "release (s, ob) = Some (s', ob')"
  shows "sync_invar (used ob') (queue ob') s' (ph(t := Outside)) \<and> good ob'"
proof -
  have t_in: "t \<in> owners (queue ob) ph" using t(2) by (simp add: owners_def)
  have fin: "finite (owners (queue ob) ph)" "card (owners (queue ob) ph) = used ob" using inv(1) by (simp_all add: sync_invar_def)
  then have pos: "0 < used ob" using t_in card_gt_0_iff by fastforce
  have tq: "t \<notin> set (queue ob)" using inv(1) t by (auto simp: sync_invar_def)
  show ?thesis
  proof (cases "queue ob")
    case Nil
    have e: "s' = s" "good ob'" "Suc (used ob') = used ob" "queue ob' = []"
      using release_last [OF inv(2) pos Nil, of s] r by auto
    have "owners (queue ob) (ph(t := Outside)) = owners (queue ob) ph - {t}" using t(2) by (auto simp: owners_def)
    then have "card (owners (queue ob) (ph(t := Outside))) = used ob'" "finite (owners (queue ob) (ph(t := Outside)))"
      using fin t_in e(3) by simp_all
    then show ?thesis using inv(1) t e Nil by (auto simp: sync_invar_def)
  next
    case (Cons n q)
    have e: "s' = wakeup_task n s" "good ob'" "used ob' = used ob" "queue ob' = q"
      using release_next [OF inv(2) pos Cons, of s] r by auto
    have n: "ph n = Waiting" "n \<notin> set q" "n \<noteq> t" "n \<notin> set (ready_queue s)" using inv(1) Cons t by (auto simp: sync_invar_def)
    have "owners q (ph(t := Outside)) = insert n (owners (queue ob) ph - {t})" using t(2) n Cons by (auto simp: owners_def)
    moreover have "n \<notin> owners (queue ob) ph" using n(1) Cons by (simp add: owners_def)
    ultimately have "card (owners q (ph(t := Outside))) = used ob" "finite (owners q (ph(t := Outside)))"
      using fin t_in pos by simp_all
    then show ?thesis using inv(1) t e Cons n by (auto simp: sync_invar_def sched_defs)
  qed
qed

lemma yield_keeps: "sync_invar n q s ph \<Longrightarrow> suspend_current_and_run_next s = Some s' \<Longrightarrow> sync_invar n q s' ph"
  by (auto simp: sync_invar_def sched_defs split: option.splits bind_splits)

lemma dispatch_keeps:
  assumes "sync_invar n q s ph" and "current s = None" and "ready_queue s = t # ts"
  shows "sync_invar n q (run_next s) (ph(t := if ph t = Waiting then Inside else ph t))"
proof -
  have "t \<notin> set q" using assms(1,3) by (auto simp: sync_invar_def)
  then have "owners q (ph(t := if ph t = Waiting then Inside else ph t)) = owners q ph" by (auto simp: owners_def)
  then show ?thesis using assms by (auto simp: sync_invar_def sched_defs)
qed

lemma step_keeps:
  assumes "sync_step acquire release (s, ob, ph) (s', ob', ph')" and "sync_invar (used ob) (queue ob) s ph" and "good ob"
  shows "sync_invar (used ob') (queue ob') s' ph' \<and> good ob'"
  using assms(1)
proof cases
  case (acquire t entered)
  then show ?thesis using acquire_keeps [OF assms(2,3)] by blast
next
  case (release t)
  then show ?thesis using release_keeps [OF assms(2,3)] by blast
next
  case yield
  then show ?thesis using yield_keeps [OF assms(2)] assms(3) by blast
next
  case (dispatch t ts)
  then show ?thesis using dispatch_keeps [OF assms(2), of t ts] assms(3) by blast
qed

lemma steps_keep:
  assumes "(sync_step acquire release)\<^sup>*\<^sup>* (s0, ob0, ph0) (s, ob, ph)" and "sync_invar (used ob0) (queue ob0) s0 ph0" and "good ob0"
  shows "sync_invar (used ob) (queue ob) s ph \<and> good ob"
  using assms by (induction "(s, ob, ph)" arbitrary: s ob ph rule: rtranclp_induct) (auto dest: step_keeps)

lemma inside_bound:
  assumes "sync_invar (used ob) (queue ob) s ph" and "good ob"
  shows "finite {t. ph t = Inside} \<and> card {t. ph t = Inside} \<le> cap"
proof -
  have "{t. ph t = Inside} \<subseteq> owners (queue ob) ph" by (auto simp: owners_def)
  moreover have "finite (owners (queue ob) ph)" "card (owners (queue ob) ph) \<le> cap"
    using assms used_le by (simp_all add: sync_invar_def)
  ultimately show ?thesis using card_mono [of "owners (queue ob) ph"] finite_subset by (meson order_trans)
qed

lemma release_returns:
  assumes "sync_invar (used ob) (queue ob) s ph" and "good ob" and "ph t = Inside"
  shows "\<exists>s' ob'. release (s, ob) = Some (s', ob') \<and> (case queue ob of [] \<Rightarrow> s' = s | n # q \<Rightarrow> s' = wakeup_task n s \<and> queue ob' = q)"
proof -
  have "t \<in> owners (queue ob) ph" using assms(3) by (simp add: owners_def)
  then have pos: "0 < used ob" using assms(1) card_gt_0_iff by (fastforce simp: sync_invar_def)
  show ?thesis using release_last [OF assms(2) pos, of s] release_next [OF assms(2) pos, of _ _ s] by (cases "queue ob") auto
qed

end

lemma sync_invar_init: "distinct (ready_queue s) \<Longrightarrow> \<forall>t. current s = Some t \<longrightarrow> t \<notin> set (ready_queue s) \<Longrightarrow> sync_invar 0 [] s (\<lambda>_. Outside)"
  by (simp add: sync_invar_def owners_def)

definition mutex_used :: "MutexBlocking \<Rightarrow> nat" where
  "mutex_used m = (if mutex_locked m then 1 else 0)"

definition mutex_good :: "MutexBlocking \<Rightarrow> bool" where
  "mutex_good m \<longleftrightarrow> mutex_wait_queue m = [] \<or> mutex_locked m"

interpretation mx: sync_object mutex_lock mutex_unlock mutex_used mutex_wait_queue mutex_good 1
proof
  fix m s t q
  assume "mutex_good m" "0 < mutex_used m" "mutex_wait_queue m = t # q"
  then show "\<exists>m'. mutex_unlock (s, m) = Some (wakeup_task t s, m') \<and> mutex_good m' \<and> mutex_used m' = mutex_used m \<and> mutex_wait_queue m' = q"
    by (simp add: mutex_unlock_def mutex_used_def mutex_good_def split: if_splits)
qed (auto simp: mutex_lock_def mutex_unlock_def mutex_used_def mutex_good_def block_current_and_run_next_def take_current_task_def
    split: if_splits)

definition sem_used :: "nat \<Rightarrow> Semaphore \<Rightarrow> nat" where
  "sem_used n m = nat (int n - max 0 (sem_count m))"

definition sem_good :: "nat \<Rightarrow> Semaphore \<Rightarrow> bool" where
  "sem_good n m \<longleftrightarrow> sem_count m \<le> int n \<and> length (sem_wait_queue m) = nat (- sem_count m)"

interpretation sem: sync_object sem_down sem_up "sem_used n" sem_wait_queue "sem_good n" n for n
proof
  fix m s t q
  assume "sem_good n m" "0 < sem_used n m" "sem_wait_queue m = t # q"
  moreover from this have "sem_count m < 0" by (cases "sem_count m < 0") (auto simp: sem_good_def)
  ultimately show "\<exists>m'. sem_up (s, m) = Some (wakeup_task t s, m') \<and> sem_good n m' \<and> sem_used n m' = sem_used n m \<and> sem_wait_queue m' = q"
    by (auto simp: sem_up_def sem_used_def sem_good_def Let_def)
next
  fix m s
  assume "sem_good n m" "0 < sem_used n m" "sem_wait_queue m = []"
  then show "\<exists>m'. sem_up (s, m) = Some (s, m') \<and> sem_good n m' \<and> Suc (sem_used n m') = sem_used n m \<and> sem_wait_queue m' = []"
    by (auto simp: sem_up_def sem_used_def sem_good_def Let_def)
next
  fix m
  assume good: "sem_good n m" and "sem_wait_queue m \<noteq> []"
  then have "0 < length (sem_wait_queue m)" by simp
  then have "0 < nat (- sem_count m)" using good unfolding sem_good_def by metis
  then have "sem_count m < 0" by simp
  then show "sem_used n m = n" by (simp add: sem_used_def)
qed (auto simp: sem_down_def sem_used_def sem_good_def Let_def block_current_and_run_next_def take_current_task_def)

text \<open>C5: mutual exclusion. Tasks that lock and unlock one \<^verbatim>\<open>MutexBlocking\<close>, yield and are dispatched in any
  order are never two at once inside; \<^verbatim>\<open>unlock\<close> by the task inside never panics and hands the mutex to the task
  that has waited longest; and a task that was handed the mutex is in the ready queue, so it is not lost.\<close>

theorem mutex_excludes:
  assumes "distinct (ready_queue s0)" and "\<forall>t. current s0 = Some t \<longrightarrow> t \<notin> set (ready_queue s0)"
    and "(sync_step mutex_lock mutex_unlock)\<^sup>*\<^sup>* (s0, MutexBlocking_new, \<lambda>_. Outside) (s, m, ph)"
  shows "(ph t = Inside \<and> ph u = Inside \<longrightarrow> t = u)
    \<and> (ph t = Inside \<longrightarrow> (\<exists>s' m'. mutex_unlock (s, m) = Some (s', m')
        \<and> (case mutex_wait_queue m of [] \<Rightarrow> s' = s | n # q \<Rightarrow> s' = wakeup_task n s \<and> mutex_wait_queue m' = q)))
    \<and> (ph t = Waiting \<longrightarrow> t \<in> set (mutex_wait_queue m) \<or> t \<in> set (ready_queue s))"
proof -
  have "sync_invar (mutex_used MutexBlocking_new) (mutex_wait_queue MutexBlocking_new) s0 (\<lambda>_. Outside)" "mutex_good MutexBlocking_new"
    using sync_invar_init [OF assms(1,2)] by (simp_all add: mutex_used_def mutex_good_def MutexBlocking_new_def)
  then have inv: "sync_invar (mutex_used m) (mutex_wait_queue m) s ph" "mutex_good m" using mx.steps_keep [OF assms(3)] by blast+
  have "finite {t. ph t = Inside} \<and> card {t. ph t = Inside} \<le> Suc 0" using mx.inside_bound [OF inv] by simp
  then have "ph t = Inside \<and> ph u = Inside \<longrightarrow> t = u" using card_le_Suc0_iff_eq [of "{t. ph t = Inside}"] by blast
  then show ?thesis using mx.release_returns [OF inv] inv(1) by (auto simp: sync_invar_def)
qed

definition two_tasks :: sched where
  "two_tasks = ex_sched\<lparr>current := Some 5, ready_queue := [6]\<rparr>"

definition contended :: sched where
  "contended = block_task 6 (set_status 6 Blocked ((run_next (add_task 5 (set_status 5 Ready (two_tasks\<lparr>current := None\<rparr>))))\<lparr>current := None\<rparr>))"

text \<open>Task 5 locks the mutex and yields, task 6 waits for it.\<close>

lemma contended_reached:
  "(sync_step mutex_lock mutex_unlock)\<^sup>*\<^sup>* (two_tasks, MutexBlocking_new, \<lambda>_. Outside)
     (contended, \<lparr>mutex_locked = True, mutex_wait_queue = [6]\<rparr>, (\<lambda>_. Outside)(5 := Inside, 6 := Waiting))"
proof -
  let ?step = "sync_step mutex_lock mutex_unlock" and ?m = "\<lparr>mutex_locked = True, mutex_wait_queue = []\<rparr>"
  let ?s2 = "add_task 5 (set_status 5 Ready (two_tasks\<lparr>current := None\<rparr>))" and ?ph = "(\<lambda>_. Outside)(5 :: nat := Inside)"
  have "?step (two_tasks, MutexBlocking_new, \<lambda>_. Outside) (two_tasks, ?m, (\<lambda>_. Outside)(5 := if True then Inside else Waiting))"
    by (rule sync_step.acquire) (simp_all add: two_tasks_def mutex_lock_def MutexBlocking_new_def)
  moreover have "?step (two_tasks, ?m, ?ph) (?s2, ?m, ?ph)"
    by (rule sync_step.yield) (simp add: two_tasks_def suspend_current_and_run_next_def take_current_task_def)
  moreover have "?step (?s2, ?m, ?ph) (run_next ?s2, ?m, ?ph(6 := if ?ph 6 = Waiting then Inside else ?ph 6))"
    by (rule sync_step.dispatch [where ts = "[5]" and ph = ?ph and t = 6]) (simp_all add: two_tasks_def sched_defs)
  moreover have "?step (run_next ?s2, ?m, ?ph) (contended, ?m\<lparr>mutex_wait_queue := [6]\<rparr>, ?ph(6 := if False then Inside else Waiting))"
    by (rule sync_step.acquire) (simp_all add: two_tasks_def contended_def mutex_lock_def sched_defs)
  moreover have "?ph(6 := if ?ph 6 = Waiting then Inside else ?ph 6) = ?ph" by auto
  ultimately show ?thesis by (simp add: converse_rtranclp_into_rtranclp)
qed

theorem mutex_excludes_witness:
  "\<exists>s m ph. (sync_step mutex_lock mutex_unlock)\<^sup>*\<^sup>* (two_tasks, MutexBlocking_new, \<lambda>_. Outside) (s, m, ph)
     \<and> ph 5 = Inside \<and> ph 6 = Waiting \<and> (\<exists>m'. mutex_unlock (s, m) = Some (wakeup_task 6 s, m'))"
proof -
  have "distinct (ready_queue two_tasks)" "\<forall>t. current two_tasks = Some t \<longrightarrow> t \<notin> set (ready_queue two_tasks)"
    by (simp_all add: two_tasks_def)
  from mutex_excludes [OF this contended_reached, of 5 5] contended_reached show ?thesis by fastforce
qed

text \<open>A task that is blocked may also be made ready by \<^verbatim>\<open>unblock_task\<close>, as
  \<^verbatim>\<open>exit_current_and_run_next\<close> does with the first task of the parent process.\<close>

inductive signal_step :: "(sched \<times> 'o \<Rightarrow> (bool \<times> sched \<times> 'o) run) \<Rightarrow> (sched \<times> 'o \<Rightarrow> (sched \<times> 'o) run) \<Rightarrow>
    sched \<times> 'o \<times> (nat \<Rightarrow> phase) \<Rightarrow> sched \<times> 'o \<times> (nat \<Rightarrow> phase) \<Rightarrow> bool"
  for acquire release where
  normal: "sync_step acquire release st st' \<Longrightarrow> signal_step acquire release st st'"
| child_exit: "task_status (tcb s t) = Blocked \<Longrightarrow> signal_step acquire release (s, ob, ph) (unblock_task t s, ob, ph)"


text \<open>C14: a semaphore made for \<open>n\<close> tasks admits at most \<open>n\<close> of the tasks that call \<^verbatim>\<open>down\<close> and \<^verbatim>\<open>up\<close> in turn,
  over every interleaving; no task that waits is lost.\<close>

theorem semaphore_admits_at_most:
  assumes "distinct (ready_queue s0)" and "\<forall>t. current s0 = Some t \<longrightarrow> t \<notin> set (ready_queue s0)" and "unat n < 2 ^ 63"
    and "(sync_step sem_down sem_up)\<^sup>*\<^sup>* (s0, Semaphore_new n, \<lambda>_. Outside) (s, m, ph)"
  shows "finite {t. ph t = Inside} \<and> card {t. ph t = Inside} \<le> unat n
    \<and> (ph t = Waiting \<longrightarrow> t \<in> set (sem_wait_queue m) \<or> t \<in> set (ready_queue s))"
proof -
  have "uint n < 2 ^ 63" using assms(3) by (simp only: unat_eq_nat_uint nat_less_iff uint_ge_0) simp
  then have "sint n = int (unat n)" using uint_ge_0 [of n] by (simp add: sint_uint) (subst signed_take_bit_int_eq_self, simp_all, use uint_ge_0 [of n] in linarith)
  then have "sync_invar (sem_used (unat n) (Semaphore_new n)) (sem_wait_queue (Semaphore_new n)) s0 (\<lambda>_. Outside)" "sem_good (unat n) (Semaphore_new n)"
    using sync_invar_init [OF assms(1,2)] by (simp_all add: sem_used_def sem_good_def Semaphore_new_def)
  then have inv: "sync_invar (sem_used (unat n) m) (sem_wait_queue m) s ph" "sem_good (unat n) m" using sem.steps_keep [OF assms(4)] by blast+
  then show ?thesis using sem.inside_bound [OF inv] by (auto simp: sync_invar_def)
qed

theorem semaphore_admits_at_most_witness:
  "\<exists>s m ph. (sync_step sem_down sem_up)\<^sup>*\<^sup>* (two_tasks, Semaphore_new 2, \<lambda>_. Outside) (s, m, ph) \<and> ph 5 = Inside
     \<and> finite {t. ph t = Inside} \<and> card {t. ph t = Inside} \<le> 2"
proof -
  have "sync_step sem_down sem_up (two_tasks, Semaphore_new 2, \<lambda>_. Outside)
      (two_tasks, \<lparr>sem_count = 1, sem_wait_queue = []\<rparr>, (\<lambda>_. Outside)(5 := if True then Inside else Waiting))"
    by (rule sync_step.acquire) (simp_all add: two_tasks_def sem_down_def Semaphore_new_def Let_def)
  then have "(sync_step sem_down sem_up)\<^sup>*\<^sup>* (two_tasks, Semaphore_new 2, \<lambda>_. Outside)
      (two_tasks, \<lparr>sem_count = 1, sem_wait_queue = []\<rparr>, (\<lambda>_. Outside)(5 := Inside))" by auto
  moreover have "distinct (ready_queue two_tasks)" "\<forall>t. current two_tasks = Some t \<longrightarrow> t \<notin> set (ready_queue two_tasks)"
    by (simp_all add: two_tasks_def)
  ultimately show ?thesis using semaphore_admits_at_most [of two_tasks 2] by fastforce
qed

section \<open>Waking futex waiters\<close>

lemma futex_signal_loop_eq:
  "map_of f uaddr = Some q \<Longrightarrow> \<exists>f'. futex_signal_loop n cnt uaddr (s, f) =
     ((if n \<le> length q then Inl (cnt + n) else Inr (int cnt + int (length q) + 1)), fold unblock_task (take n q) s, f')
     \<and> map_of f' = (map_of f)(uaddr \<mapsto> drop n q)"
proof (induction n arbitrary: cnt q s f)
  case 0
  then show ?case by (auto intro: exI [of _ f])
next
  case (Suc n)
  show ?case
  proof (cases q)
    case Nil
    then show ?thesis using Suc.prems by (auto intro: exI [of _ f])
  next
    case (Cons t q')
    have "map_of (AList.update uaddr q' f) uaddr = Some q'" by (simp add: update_conv')
    from Suc.IH [OF this, of "cnt + 1" "unblock_task t s"] show ?thesis using Suc.prems Cons
      by (auto simp: update_conv' fun_eq_iff)
  qed
qed

text \<open>\<^verbatim>\<open>futex_signal\<close> on a queue of \<open>k\<close> waiters wakes the first min(val, k) tasks of the queue and leaves the
  others queued; it returns the number of tasks woken when \<open>val\<close> tasks were there, but one more than that number
  otherwise, and EINVAL for an address nobody has waited on.\<close>

theorem futex_signal_wakes:
  "(case map_of f uaddr of
      None \<Rightarrow> futex_signal uaddr val (s, f) = (if val = 0 then 0 else EINVAL, s, f)
    | Some q \<Rightarrow> \<exists>f'. futex_signal uaddr val (s, f) =
        (if unat val \<le> length q then int (unat val) else int (length q) + 1, fold unblock_task (take (unat val) q) s, f')
        \<and> map_of f' = (map_of f)(uaddr \<mapsto> drop (unat val) q))"
proof (cases "map_of f uaddr")
  case None
  then show ?thesis by (cases "unat val") (auto simp: futex_signal_def unat_eq_0)
next
  case (Some q)
  show ?thesis using futex_signal_loop_eq [OF Some, of "unat val" 0 s] Some by (auto simp: futex_signal_def)
qed

end
