(* ===== verification/Page_Table.thy ===== *)
theory Page_Table
  imports Frame_Allocator
begin

unbundle bit_operations_syntax

text \<open>
  \<^verbatim>\<open>kernel/src/mm/page_table.rs\<close>: page-table entries and the three-level Sv39 page
  table over physical memory.  A reference \<^verbatim>\<open>&mut PageTableEntry\<close> into a table frame is
  the pair of the frame and the index of the entry.
\<close>

section \<open>Page-table entries\<close>

type_synonym PTEFlags = u8

definition PTE_V :: PTEFlags where "PTE_V = 1"
definition PTE_R :: PTEFlags where "PTE_R = 2"
definition PTE_W :: PTEFlags where "PTE_W = 4"
definition PTE_X :: PTEFlags where "PTE_X = 8"
definition PTE_U :: PTEFlags where "PTE_U = 16"
definition PTE_G :: PTEFlags where "PTE_G = 32"
definition PTE_A :: PTEFlags where "PTE_A = 64"
definition PTE_D :: PTEFlags where "PTE_D = 128"

lemmas PTE_flag_defs = PTE_V_def PTE_R_def PTE_W_def PTE_X_def PTE_U_def PTE_G_def PTE_A_def PTE_D_def

datatype PageTableEntry = PageTableEntry (bits: usize)

definition PTE_new :: "PhysPageNum \<Rightarrow> PTEFlags \<Rightarrow> PageTableEntry" where
  "PTE_new ppn flags = PageTableEntry (push_bit 10 (ppn0 ppn) OR ucast flags)"

definition PTE_empty :: PageTableEntry where
  "PTE_empty = PageTableEntry 0"

definition pte_ppn :: "PageTableEntry \<Rightarrow> PhysPageNum" where
  "pte_ppn pte = ppn_from (drop_bit 10 (bits pte) AND (push_bit 44 1 - 1))"

definition pte_flags :: "PageTableEntry \<Rightarrow> PTEFlags" where
  "pte_flags pte = ucast (bits pte)"

definition pte_is_valid :: "PageTableEntry \<Rightarrow> bool" where
  "pte_is_valid pte = (pte_flags pte AND PTE_V \<noteq> 0)"

definition pte_is_dirty :: "PageTableEntry \<Rightarrow> bool" where
  "pte_is_dirty pte = (pte_flags pte AND PTE_D \<noteq> 0)"

definition pte_readable :: "PageTableEntry \<Rightarrow> bool" where
  "pte_readable pte = (pte_flags pte AND PTE_R \<noteq> 0)"

definition pte_writable :: "PageTableEntry \<Rightarrow> bool" where
  "pte_writable pte = (pte_flags pte AND PTE_W \<noteq> 0)"

definition pte_executable :: "PageTableEntry \<Rightarrow> bool" where
  "pte_executable pte = (pte_flags pte AND PTE_X \<noteq> 0)"

section \<open>The table\<close>

record PageTable =
  root_ppn :: PhysPageNum
  pt_frames :: "FrameTracker list"

definition get_pte :: "phys_mem \<Rightarrow> PhysPageNum \<Rightarrow> nat \<Rightarrow> PageTableEntry" where
  "get_pte m ppn i = PageTableEntry (m ppn i)"

definition set_pte :: "PhysPageNum \<Rightarrow> nat \<Rightarrow> PageTableEntry \<Rightarrow> kmem \<Rightarrow> kmem" where
  "set_pte ppn i pte km = km\<lparr>phys := (phys km)(ppn := (phys km ppn)(i := bits pte))\<rparr>"

definition PageTable_new :: "kmem \<Rightarrow> (PageTable \<times> kmem) run" where
  "PageTable_new km = do {
     (frame, km') \<leftarrow> frame_alloc_unwrap km;
     ret (\<lparr>root_ppn = ft_ppn frame, pt_frames = [frame]\<rparr>, km') }"

definition from_token :: "usize \<Rightarrow> PageTable" where
  "from_token satp = \<lparr>root_ppn = ppn_from (satp AND (push_bit 44 1 - 1)), pt_frames = []\<rparr>"

fun find_pte_create_loop :: "(nat \<times> nat) list \<Rightarrow> PhysPageNum \<Rightarrow> FrameTracker list \<Rightarrow> kmem \<Rightarrow>
    ((PhysPageNum \<times> nat) option \<times> FrameTracker list \<times> kmem) run" where
  "find_pte_create_loop [] ppn frames km = ret (None, frames, km)"
| "find_pte_create_loop ((i, idx) # idxs) ppn frames km =
    (if i = 2 then ret (Some (ppn, idx), frames, km)
     else if \<not> pte_is_valid (get_pte (phys km) ppn idx) then do {
       (frame, km1) \<leftarrow> frame_alloc_unwrap km;
       let km2 = set_pte ppn idx (PTE_new (ft_ppn frame) PTE_V) km1;
       find_pte_create_loop idxs (pte_ppn (get_pte (phys km2) ppn idx)) (vec_push frames frame) km2 }
     else find_pte_create_loop idxs (pte_ppn (get_pte (phys km) ppn idx)) frames km)"

definition enum_indexes :: "VirtPageNum \<Rightarrow> (nat \<times> nat) list" where
  "enum_indexes vpn = enumerate 0 (map unat (indexes vpn))"

definition find_pte_create :: "VirtPageNum \<Rightarrow> PageTable \<Rightarrow> kmem \<Rightarrow>
    ((PhysPageNum \<times> nat) option \<times> PageTable \<times> kmem) run" where
  "find_pte_create vpn pt km = do {
     (result, frames, km') \<leftarrow> find_pte_create_loop (enum_indexes vpn) (root_ppn pt) (pt_frames pt) km;
     ret (result, pt\<lparr>pt_frames := frames\<rparr>, km') }"

fun find_pte_loop :: "(nat \<times> nat) list \<Rightarrow> PhysPageNum \<Rightarrow> phys_mem \<Rightarrow> (PhysPageNum \<times> nat) option" where
  "find_pte_loop [] ppn m = None"
| "find_pte_loop ((i, idx) # idxs) ppn m =
    (if i = 2 then Some (ppn, idx)
     else if \<not> pte_is_valid (get_pte m ppn idx) then None
     else find_pte_loop idxs (pte_ppn (get_pte m ppn idx)) m)"

definition find_pte :: "VirtPageNum \<Rightarrow> PageTable \<Rightarrow> phys_mem \<Rightarrow> (PhysPageNum \<times> nat) option" where
  "find_pte vpn pt m = find_pte_loop (enum_indexes vpn) (root_ppn pt) m"

definition pt_map :: "VirtPageNum \<Rightarrow> PhysPageNum \<Rightarrow> PTEFlags \<Rightarrow> PageTable \<Rightarrow> kmem \<Rightarrow>
    (PageTable \<times> kmem) run" where
  "pt_map vpn ppn flags pt km = do {
     (result, pt', km') \<leftarrow> find_pte_create vpn pt km;
     (q, idx) \<leftarrow> result;
     rust_assert (\<not> pte_is_valid (get_pte (phys km') q idx));
     ret (pt', set_pte q idx (PTE_new ppn (flags OR PTE_V)) km') }"

definition pt_unmap :: "VirtPageNum \<Rightarrow> PageTable \<Rightarrow> kmem \<Rightarrow> kmem run" where
  "pt_unmap vpn pt km = do {
     (q, idx) \<leftarrow> find_pte vpn pt (phys km);
     rust_assert (pte_is_valid (get_pte (phys km) q idx));
     ret (set_pte q idx PTE_empty km) }"

definition pt_translate :: "VirtPageNum \<Rightarrow> PageTable \<Rightarrow> phys_mem \<Rightarrow> PageTableEntry option" where
  "pt_translate vpn pt m = map_option (\<lambda>(q, idx). get_pte m q idx) (find_pte vpn pt m)"

definition translate_va :: "VirtAddr \<Rightarrow> PageTable \<Rightarrow> phys_mem \<Rightarrow> PhysAddr option" where
  "translate_va va pt m =
    map_option (\<lambda>(q, idx).
      let aligned_pa = pa_from_ppn (pte_ppn (get_pte m q idx));
          offset = va_page_offset va
      in pa_from (pa0 aligned_pa + offset))
    (find_pte (va_floor va) pt m)"

definition pt_token :: "PageTable \<Rightarrow> usize" where
  "pt_token pt = push_bit 60 8 OR ppn0 (root_ppn pt)"

definition set_pte_flags :: "VirtPageNum \<Rightarrow> PTEFlags \<Rightarrow> PageTable \<Rightarrow> kmem \<Rightarrow> bool \<times> kmem" where
  "set_pte_flags vpn flags pt km =
    (case find_pte vpn pt (phys km) of
       Some (q, idx) \<Rightarrow>
         let pte = get_pte (phys km) q idx in
         if \<not> pte_is_valid pte then (False, km)
         else (True, set_pte q idx
            (PageTableEntry (push_bit 10 (ppn0 (pte_ppn pte)) OR ucast (flags OR PTE_U OR PTE_V))) km)
     | None \<Rightarrow> (False, km))"

definition delete_pte_flags :: "VirtPageNum \<Rightarrow> PTEFlags \<Rightarrow> PageTable \<Rightarrow> kmem \<Rightarrow> bool \<times> kmem" where
  "delete_pte_flags vpn flags pt km =
    (case find_pte vpn pt (phys km) of
       Some (q, idx) \<Rightarrow>
         let pte = get_pte (phys km) q idx in
         if \<not> pte_is_valid pte then (False, km)
         else (True, set_pte q idx (PageTableEntry (bits pte AND NOT (ucast flags))) km)
     | None \<Rightarrow> (False, km))"

section \<open>Entries: the bit layout\<close>

lemma pte_flags_new [simp]: "pte_flags (PTE_new ppn flags) = flags"
  by (rule bit_word_eqI) (auto simp: pte_flags_def PTE_new_def bit_simps)

lemma pte_ppn_eq: "pte_ppn pte = PhysPageNum (take_bit 44 (drop_bit 10 (bits pte)))"
  by (simp only: pte_ppn_def mask_take_bit ppn_from_eq take_bit_take_bit min.idem)

lemma pte_ppn_new:
  assumes "unat (ppn0 ppn) < 2 ^ 44"
  shows "pte_ppn (PTE_new ppn flags) = ppn"
proof -
  have "take_bit 44 (drop_bit 10 (bits (PTE_new ppn flags))) = take_bit 44 (ppn0 ppn)"
    by (rule bit_word_eqI) (auto simp: PTE_new_def bit_simps dest: bit_imp_le_length)
  also have "\<dots> = ppn0 ppn" using assms by (rule take_bit_word_id)
  finally have "take_bit 44 (drop_bit 10 (bits (PTE_new ppn flags))) = ppn0 ppn" .
  then show ?thesis by (simp add: pte_ppn_eq)
qed

lemma pte_is_valid_iff: "pte_is_valid pte \<longleftrightarrow> bit (pte_flags pte) 0"
  by (simp add: pte_is_valid_def PTE_V_def and_one_eq odd_iff_mod_2_eq_one bit_0)

lemma pte_valid_new_V [simp]:
  "pte_is_valid (PTE_new ppn PTE_V)" "pte_is_valid (PTE_new ppn (flags OR PTE_V))"
  by (simp_all add: pte_is_valid_iff PTE_V_def bit_simps)

lemma pte_not_valid_0 [simp]: "\<not> pte_is_valid (PageTableEntry 0)" "\<not> pte_is_valid PTE_empty"
  by (simp_all add: pte_is_valid_def pte_flags_def PTE_empty_def)

lemma pte_ppn_lt: "unat (ppn0 (pte_ppn pte)) < 2 ^ 44"
  by (simp only: pte_ppn_def unat_ppn_from)

section \<open>The tree of table frames\<close>

text \<open>\<open>node m r p\<close> is the table frame reached from the table frame \<open>r\<close> along the path
  \<open>p\<close> of indexes.  The invariant of a page table says that different paths lead to
  different frames and that all of them are owned by the table.\<close>

fun node :: "phys_mem \<Rightarrow> PhysPageNum \<Rightarrow> nat list \<Rightarrow> PhysPageNum option" where
  "node m r [] = Some r"
| "node m r (i # p) =
    (if pte_is_valid (get_pte m r i) then node m (pte_ppn (get_pte m r i)) p else None)"

definition table_path :: "nat list \<Rightarrow> bool" where
  "table_path p \<longleftrightarrow> length p \<le> 2 \<and> (\<forall>i \<in> set p. i < 512)"

definition tree_invar :: "phys_mem \<Rightarrow> PhysPageNum \<Rightarrow> PhysPageNum set \<Rightarrow> bool" where
  "tree_invar m root own \<longleftrightarrow>
    (\<forall>p f. table_path p \<longrightarrow> node m root p = Some f \<longrightarrow> f \<in> own) \<and>
    (\<forall>p q f. table_path p \<longrightarrow> table_path q \<longrightarrow> node m root p = Some f \<longrightarrow> node m root q = Some f \<longrightarrow> p = q)"

definition vpn_path :: "VirtPageNum \<Rightarrow> nat list" where
  "vpn_path v = [index_at v 0, index_at v 1]"

lemma table_path_simps [simp]:
  "table_path []" "table_path [i] \<longleftrightarrow> i < 512" "table_path [i, j] \<longleftrightarrow> i < 512 \<and> j < 512"
  by (auto simp: table_path_def)

lemma table_path_vpn [simp]: "table_path (vpn_path v)"
  by (simp add: vpn_path_def index_at_lt)

lemma table_path_appendD: "table_path (p @ q) \<Longrightarrow> table_path p"
  by (auto simp: table_path_def)

lemma tree_invarD:
  assumes "tree_invar m root own" and "table_path p" and "node m root p = Some f"
  shows "f \<in> own" and "table_path q \<Longrightarrow> node m root q = Some f \<Longrightarrow> p = q"
  using assms by (auto simp: tree_invar_def)

lemma node_append:
  "node m r (p @ q) = (case node m r p of None \<Rightarrow> None | Some f \<Rightarrow> node m f q)"
  by (induction p arbitrary: r) auto

lemma node_snoc:
  "node m r (p @ [i]) = (case node m r p of None \<Rightarrow> None
     | Some f \<Rightarrow> if pte_is_valid (get_pte m f i) then Some (pte_ppn (get_pte m f i)) else None)"
  by (simp add: node_append split: option.splits)

lemma enum_indexes_eq:
  "enum_indexes v = [(0, index_at v 0), (1, index_at v 1), (2, index_at v 2)]"
  by (simp add: enum_indexes_def indexes_eq index_at_def numeral_2_eq_2)

lemma find_pte_eq: "find_pte v pt m = map_option (\<lambda>f. (f, index_at v 2)) (node m (root_ppn pt) (vpn_path v))"
  by (simp add: find_pte_def enum_indexes_eq vpn_path_def)

text \<open>A change of memory that leaves the tables on the way alone leaves the way alone.\<close>

lemma node_cong:
  assumes "\<And>q i s f. p = q @ i # s \<Longrightarrow> node m r q = Some f \<Longrightarrow> m' f i = m f i"
  shows "node m' r p = node m r p"
  using assms
proof (induction p rule: rev_induct)
  case (snoc i p)
  have "node m' r p = node m r p"
  proof (rule snoc.IH)
    fix q j s f assume "p = q @ j # s" and q: "node m r q = Some f"
    then show "m' f j = m f j" by (intro snoc.prems [of q j "s @ [i]"]) simp_all
  qed
  moreover have "m' f i = m f i" if "node m r p = Some f" for f
    using that by (intro snoc.prems [of p]) simp_all
  ultimately show ?case by (auto simp: node_snoc get_pte_def split: option.splits)
qed simp

lemma node_upd_other:
  assumes "\<And>q. table_path q \<Longrightarrow> length q \<le> 1 \<Longrightarrow> node m r q \<noteq> Some f" and "table_path p"
  shows "node (m(f := c)) r p = node m r p"
proof (rule node_cong)
  fix q i s f' assume p: "p = q @ i # s" and "node m r q = Some f'"
  moreover have "table_path q" "length q \<le> 1" using assms(2) p by (auto simp: table_path_def)
  ultimately show "(m(f := c)) f' i = m f' i" using assms(1) by auto
qed

lemma tree_invar_cong:
  assumes "\<And>p. table_path p \<Longrightarrow> node m' root p = node m root p" and "tree_invar m root own"
  shows "tree_invar m' root own"
  using assms(2) unfolding tree_invar_def by (metis assms(1))

lemma leaf_not_inner:
  assumes "tree_invar m root own" and "table_path p" and "length p = 2" and "node m root p = Some f"
    and "table_path q" and "length q \<le> 1"
  shows "node m root q \<noteq> Some f"
  using tree_invarD(2) [OF assms(1,2,4) assms(5)] assms(3,6) by auto

lemma node_create:
  assumes inv: "tree_invar m root own" and path: "table_path (p @ [i])" and f: "node m root p = Some f"
    and nv: "\<not> pte_is_valid (get_pte m f i)" and g: "g \<notin> own" "unat (ppn0 g) < 2 ^ 44"
    and m': "m' = (m(g := \<lambda>_. 0))(f := (m f)(i := bits (PTE_new g PTE_V)))"
    and q: "table_path q"
  shows "node m' root q = (if q = p @ [i] then Some g else node m root q)"
proof -
  have fown: "f \<in> own" using inv table_path_appendD [OF path] f by (rule tree_invarD(1))
  have same: "node m' root q = node m root q" if q: "table_path q" "\<And>s. q \<noteq> p @ i # s" for q
  proof (rule node_cong)
    fix q' j s f' assume q': "q = q' @ j # s" and f': "node m root q' = Some f'"
    have tq': "table_path q'" using q(1) q' table_path_appendD by blast
    then have "f' \<in> own" using inv f' tree_invarD(1) by blast
    then have "f' \<noteq> g" using g(1) by blast
    moreover have "f' = f \<Longrightarrow> q' = p"
      using tree_invarD(2) [OF inv tq' f'] table_path_appendD [OF path] f by blast
    ultimately show "m' f' j = m f' j" using q(2) q' m' by auto
  qed
  have pg: "node m' root (p @ [i]) = Some g"
    using same [of p] table_path_appendD [OF path] f g(2) m'
    by (simp add: node_snoc get_pte_def pte_ppn_new)
  show ?thesis
  proof (cases "\<exists>s. q = p @ i # s")
    case True
    then obtain s where s: "q = (p @ [i]) @ s" by auto
    have "node m root (p @ [i]) = None" using f nv by (simp add: node_snoc)
    then have "node m root q = None" using s by (simp only: node_append) simp
    moreover have "node m' root q = node m' g s" using pg s by (simp only: node_append) simp
    moreover have "m' g j = 0" for j using m' g(1) fown by auto
    ultimately show ?thesis using s by (cases s) (simp_all add: get_pte_def)
  next
    case False
    then show ?thesis using same [OF q] by auto
  qed
qed

lemma tree_invar_create:
  assumes inv: "tree_invar m root own" and path: "table_path (p @ [i])" and f: "node m root p = Some f"
    and nv: "\<not> pte_is_valid (get_pte m f i)" and g: "g \<notin> own" "unat (ppn0 g) < 2 ^ 44"
    and m': "m' = (m(g := \<lambda>_. 0))(f := (m f)(i := bits (PTE_new g PTE_V)))"
  shows "tree_invar m' root (insert g own)"
proof -
  note node' = node_create [OF assms]
  have "f' \<in> insert g own" if "table_path q" "node m' root q = Some f'" for q f'
    using that inv by (auto simp: node' tree_invar_def split: if_splits)
  moreover have "q = q'" if "table_path q" "table_path q'" "node m' root q = Some f'"
    "node m' root q' = Some f'" for q q' f'
    using that inv g(1) by (auto simp: node' tree_invar_def split: if_splits)
  ultimately show ?thesis unfolding tree_invar_def by blast
qed

section \<open>Abstraction and invariant\<close>

text \<open>What a page table means: a partial map from virtual pages to frames and flags.\<close>

definition pt_view :: "phys_mem \<Rightarrow> PhysPageNum \<Rightarrow> VirtPageNum \<Rightarrow> (PhysPageNum \<times> PTEFlags) option" where
  "pt_view m root v =
    (case node m root (vpn_path v) of
       None \<Rightarrow> None
     | Some f \<Rightarrow> let e = get_pte m f (index_at v 2) in
         if pte_is_valid e then Some (pte_ppn e, pte_flags e) else None)"

abbreviation pt_owned :: "PageTable \<Rightarrow> PhysPageNum set" where
  "pt_owned pt \<equiv> ft_ppn ` set (pt_frames pt)"

definition pt_invar :: "usize \<Rightarrow> kmem \<Rightarrow> PageTable \<Rightarrow> bool" where
  "pt_invar base km pt \<longleftrightarrow> fa_invar base (falloc km)
    \<and> tree_invar (phys km) (root_ppn pt) (pt_owned pt)
    \<and> pt_owned pt \<subseteq> fa_live base (falloc km)
    \<and> distinct (map ft_ppn (pt_frames pt)) \<and> (\<forall>t \<in> set (pt_frames pt). ft_hold t)"

definition same_entry :: "VirtPageNum \<Rightarrow> VirtPageNum \<Rightarrow> bool" where
  "same_entry v w \<longleftrightarrow> indexes v = indexes w"

lemma same_entry_iff: "same_entry v w \<longleftrightarrow> vpn_path v = vpn_path w \<and> index_at v 2 = index_at w 2"
  by (auto simp: same_entry_def vpn_path_def index_at_def indexes_eq numeral_2_eq_2 dest: unat_eqD)

lemma same_entry_eq:
  assumes "unat (vpn0 v) < 2 ^ 27" and "unat (vpn0 w) < 2 ^ 27"
  shows "same_entry v w \<longleftrightarrow> v = w"
  using indexes_inj [OF assms] by (auto simp: same_entry_def)

lemma pt_translate_view:
  "pt_view m (root_ppn pt) v =
    (case pt_translate v pt m of None \<Rightarrow> None
     | Some e \<Rightarrow> if pte_is_valid e then Some (pte_ppn e, pte_flags e) else None)"
  by (simp add: pt_view_def pt_translate_def find_pte_eq Let_def split: option.splits)

lemma pt_view_create:
  assumes inv: "tree_invar m root own" and path: "table_path (p @ [i])" and f: "node m root p = Some f"
    and nv: "\<not> pte_is_valid (get_pte m f i)" and g: "g \<notin> own" "unat (ppn0 g) < 2 ^ 44"
    and m': "m' = (m(g := \<lambda>_. 0))(f := (m f)(i := bits (PTE_new g PTE_V)))"
  shows "pt_view m' root v = pt_view m root v"
proof -
  note node' = node_create [OF assms table_path_vpn]
  have lenp: "length p \<le> 1" "table_path p" using path by (auto simp: table_path_def)
  have fown: "f \<in> own" using inv lenp(2) f by (rule tree_invarD(1))
  show ?thesis
  proof (cases "vpn_path v = p @ [i]")
    case True
    have "node m root (p @ [i]) = None" using f nv by (simp add: node_snoc)
    moreover have "m' g j = 0" for j using m' g(1) fown by auto
    moreover have "node m' root (p @ [i]) = Some g" using node' [of v] True by simp
    ultimately show ?thesis by (simp add: pt_view_def True get_pte_def)
  next
    case False
    have "m' f' j = m f' j" if f': "node m root (vpn_path v) = Some f'" for f' j
    proof -
      have "f' \<in> own" using inv table_path_vpn f' by (rule tree_invarD(1))
      moreover have "f' \<noteq> f"
        using leaf_not_inner [OF inv table_path_vpn _ f' lenp(2,1)] f by (auto simp: vpn_path_def)
      ultimately show ?thesis using m' g(1) by auto
    qed
    then show ?thesis using False by (simp add: pt_view_def node' get_pte_def split: option.splits)
  qed
qed

lemma pt_view_set_leaf:
  assumes inv: "tree_invar m root own" and f: "node m root (vpn_path v) = Some f"
    and m': "m' = m(f := (m f)(index_at v 2 := bits e))"
  shows "pt_view m' root w =
    (if same_entry w v then if pte_is_valid e then Some (pte_ppn e, pte_flags e) else None
     else pt_view m root w)"
    and "table_path p \<Longrightarrow> node m' root p = node m root p"
proof -
  have len: "length (vpn_path v) = 2" for v by (simp add: vpn_path_def)
  show node': "node m' root p = node m root p" if "table_path p" for p
    unfolding m' using that by (intro node_upd_other leaf_not_inner [OF inv table_path_vpn len f])
  have diff: "f' = f \<Longrightarrow> vpn_path w = vpn_path v" if "node m root (vpn_path w) = Some f'" for f'
    using tree_invarD(2) [OF inv table_path_vpn that table_path_vpn] f by auto
  show "pt_view m' root w = (if same_entry w v then
      if pte_is_valid e then Some (pte_ppn e, pte_flags e) else None else pt_view m root w)"
  proof (cases "node m root (vpn_path w)")
    case None
    then have "vpn_path w \<noteq> vpn_path v" using f by auto
    then show ?thesis using None by (simp add: pt_view_def node' same_entry_iff)
  next
    case (Some f')
    have cell: "m' f' j = (if f' = f \<and> j = index_at v 2 then bits e else m f' j)" for j
      by (simp add: m')
    have "f' = f \<longleftrightarrow> vpn_path w = vpn_path v" using diff [OF Some] f Some by auto
    then show ?thesis
      using Some by (simp add: pt_view_def node' same_entry_iff get_pte_def cell)
  qed
qed

section \<open>Allocating table frames\<close>

lemma frame_alloc_unwrap_spec:
  assumes "fa_invar base (falloc km)" and "frame_alloc_unwrap km = Some (t, km')"
  shows "fa_invar base (falloc km')" and "ft_hold t" and "ft_ppn t \<notin> fa_live base (falloc km)"
    and "fa_live base (falloc km') = insert (ft_ppn t) (fa_live base (falloc km))"
    and "phys km' = (phys km)(ft_ppn t := \<lambda>_. 0)" and "unat (ppn0 (ft_ppn t)) < 2 ^ 44"
proof -
  obtain ppn a where a: "fa_alloc (falloc km) = (Some ppn, a)"
    and t: "t = \<lparr>ft_ppn = ppn, ft_hold = True\<rparr>"
    and km': "km' = km\<lparr>falloc := a, phys := (phys km)(ppn := \<lambda>_. 0)\<rparr>"
    using assms(2) by (auto simp: frame_alloc_unwrap_def frame_alloc_def FrameTracker_new_def
        split: prod.splits option.splits)
  note spec = fa_alloc_Some [OF assms(1) a]
  show "fa_invar base (falloc km')" "ft_hold t" "ft_ppn t \<notin> fa_live base (falloc km)"
    "fa_live base (falloc km') = insert (ft_ppn t) (fa_live base (falloc km))"
    "phys km' = (phys km)(ft_ppn t := \<lambda>_. 0)" using spec t km' by simp_all
  show "unat (ppn0 (ft_ppn t)) < 2 ^ 44"
    using fa_live_range(3) [of base a ppn] spec t by simp
qed

text \<open>The number of free frames, and that an allocation takes one of them.\<close>

definition free_frames :: "kmem \<Rightarrow> nat" where
  "free_frames km = unat (unallocated_frames (falloc km))"

lemma frame_alloc_unwrap_ok:
  assumes "fa_invar base (falloc km)" and "0 < free_frames km"
  shows "\<exists>t km'. frame_alloc_unwrap km = Some (t, km') \<and> free_frames km' = free_frames km - 1"
proof -
  have "fst (fa_alloc (falloc km)) \<noteq> None"
    using frame_alloc_None_unallocated [OF assms(1)] assms(2) by (auto simp: free_frames_def)
  then obtain ppn a where a: "fa_alloc (falloc km) = (Some ppn, a)"
    by (cases "fa_alloc (falloc km)") auto
  have "frame_alloc_unwrap km = Some (\<lparr>ft_ppn = ppn, ft_hold = True\<rparr>,
      km\<lparr>falloc := a, phys := (phys km)(ppn := \<lambda>_. 0)\<rparr>)"
    by (simp add: frame_alloc_unwrap_def frame_alloc_def FrameTracker_new_def a)
  moreover have "unat (unallocated_frames a) = unat (unallocated_frames (falloc km)) - 1"
    using assms(1) a by (rule fa_alloc_unallocated)
  ultimately show ?thesis by (simp add: free_frames_def)
qed

section \<open>Walking with creation\<close>

text \<open>One level of \<^verbatim>\<open>find_pte_create\<close>: make sure the entry \<open>idx\<close> of the table \<open>q\<close> leads to a
  table.\<close>

definition ensure_table :: "PhysPageNum \<Rightarrow> nat \<Rightarrow> FrameTracker list \<Rightarrow> kmem \<Rightarrow> (FrameTracker list \<times> kmem) run" where
  "ensure_table q idx frames km =
    (if pte_is_valid (get_pte (phys km) q idx) then ret (frames, km)
     else do { (frame, km1) \<leftarrow> frame_alloc_unwrap km;
       ret (vec_push frames frame, set_pte q idx (PTE_new (ft_ppn frame) PTE_V) km1) })"

lemma find_pte_create_loop_step:
  assumes "i \<noteq> 2"
  shows "find_pte_create_loop ((i, idx) # idxs) q frames km = do {
     (frames1, km1) \<leftarrow> ensure_table q idx frames km;
     find_pte_create_loop idxs (pte_ppn (get_pte (phys km1) q idx)) frames1 km1 }"
  using assms by (auto simp: ensure_table_def Let_def split: bind_splits)

lemma set_pte_simps [simp]:
  "phys (set_pte q i e km) = (phys km)(q := (phys km q)(i := bits e))"
  "falloc (set_pte q i e km) = falloc km"
  by (simp_all add: set_pte_def)

lemma free_frames_set_pte [simp]: "free_frames (set_pte q i e km) = free_frames km"
  by (simp add: free_frames_def)

lemma ensure_table_spec:
  assumes inv: "pt_invar base km pt" and path: "table_path (p @ [i])"
    and q: "node (phys km) (root_ppn pt) p = Some q"
    and run: "ensure_table q i (pt_frames pt) km = Some (frames', km')"
  shows "pt_invar base km' (pt\<lparr>pt_frames := frames'\<rparr>)
    \<and> node (phys km') (root_ppn pt) (p @ [i]) = Some (pte_ppn (get_pte (phys km') q i))
    \<and> (\<forall>v. pt_view (phys km') (root_ppn pt) v = pt_view (phys km) (root_ppn pt) v)"
proof (cases "pte_is_valid (get_pte (phys km) q i)")
  case True
  then have "frames' = pt_frames pt" "km' = km" using run by (simp_all add: ensure_table_def)
  then show ?thesis using True inv q by (simp add: node_snoc)
next
  case False
  then obtain t km1 where alloc: "frame_alloc_unwrap km = Some (t, km1)"
    and frames': "frames' = vec_push (pt_frames pt) t"
    and km': "km' = set_pte q i (PTE_new (ft_ppn t) PTE_V) km1"
    using run by (auto simp: ensure_table_def elim!: bind_eq_SomeE)
  let ?g = "ft_ppn t" and ?own = "pt_owned pt"
  have fa: "fa_invar base (falloc km)" and tree: "tree_invar (phys km) (root_ppn pt) ?own"
    and own: "?own \<subseteq> fa_live base (falloc km)"
    using inv by (auto simp: pt_invar_def)
  note spec = frame_alloc_unwrap_spec [OF fa alloc]
  have g: "?g \<notin> ?own" using spec(3) own by blast
  have "q \<in> ?own" using tree table_path_appendD [OF path] q by (rule tree_invarD(1))
  then have "q \<noteq> ?g" using g by blast
  then have m': "phys km' = ((phys km)(?g := \<lambda>_. 0))(q := (phys km q)(i := bits (PTE_new ?g PTE_V)))"
    by (simp add: km' spec(5))
  note create = tree path q False g spec(6) m'
  have "tree_invar (phys km') (root_ppn pt) (insert ?g ?own)" by (rule tree_invar_create [OF create])
  then have "pt_invar base km' (pt\<lparr>pt_frames := frames'\<rparr>)"
    using inv spec(1,2,4) g own by (auto simp: pt_invar_def frames' km' vec_push_def)
  moreover have "node (phys km') (root_ppn pt) (p @ [i]) = Some ?g"
    using node_create [OF create path] by simp
  moreover have "pte_ppn (get_pte (phys km') q i) = ?g"
    using spec(6) by (simp add: m' get_pte_def pte_ppn_new)
  ultimately show ?thesis using pt_view_create [OF create] by simp
qed

lemma ensure_table_ok:
  assumes "fa_invar base (falloc km)" and "0 < free_frames km"
  shows "\<exists>frames' km'. ensure_table q i frames km = Some (frames', km') \<and> free_frames km \<le> Suc (free_frames km')"
proof (cases "pte_is_valid (get_pte (phys km) q i)")
  case False
  obtain t km1 where "frame_alloc_unwrap km = Some (t, km1)" "free_frames km1 = free_frames km - 1"
    using frame_alloc_unwrap_ok [OF assms] by blast
  then show ?thesis using False by (simp add: ensure_table_def)
qed (simp add: ensure_table_def)

lemma find_pte_create_eq:
  "find_pte_create v pt km = do {
     (frames1, km1) \<leftarrow> ensure_table (root_ppn pt) (index_at v 0) (pt_frames pt) km;
     let q1 = pte_ppn (get_pte (phys km1) (root_ppn pt) (index_at v 0));
     (frames2, km2) \<leftarrow> ensure_table q1 (index_at v 1) frames1 km1;
     ret (Some (pte_ppn (get_pte (phys km2) q1 (index_at v 1)), index_at v 2), pt\<lparr>pt_frames := frames2\<rparr>, km2) }"
  unfolding find_pte_create_def enum_indexes_eq
  by (simp add: find_pte_create_loop_step del: find_pte_create_loop.simps)
    (simp add: find_pte_create_loop.simps case_prod_unfold Let_def)

lemma find_pte_create_spec:
  assumes inv: "pt_invar base km pt" and run: "find_pte_create v pt km = Some (r, pt', km')"
  shows "pt_invar base km' pt' \<and> root_ppn pt' = root_ppn pt
    \<and> (\<exists>f. r = Some (f, index_at v 2) \<and> node (phys km') (root_ppn pt) (vpn_path v) = Some f)
    \<and> (\<forall>w. pt_view (phys km') (root_ppn pt) w = pt_view (phys km) (root_ppn pt) w)"
proof -
  let ?i = "index_at v 0" and ?j = "index_at v 1"
  obtain fr1 km1 fr2 where e1: "ensure_table (root_ppn pt) ?i (pt_frames pt) km = Some (fr1, km1)"
    and e2: "ensure_table (pte_ppn (get_pte (phys km1) (root_ppn pt) ?i)) ?j fr1 km1 = Some (fr2, km')"
    and r: "r = Some (pte_ppn (get_pte (phys km') (pte_ppn (get_pte (phys km1) (root_ppn pt) ?i)) ?j), index_at v 2)"
    and pt': "pt' = pt\<lparr>pt_frames := fr2\<rparr>"
    using run unfolding find_pte_create_eq by (auto simp: Let_def elim!: bind_eq_SomeE)
  let ?pt1 = "pt\<lparr>pt_frames := fr1\<rparr>"
  have s1: "pt_invar base km1 ?pt1"
    "node (phys km1) (root_ppn pt) [?i] = Some (pte_ppn (get_pte (phys km1) (root_ppn pt) ?i))"
    "\<forall>w. pt_view (phys km1) (root_ppn pt) w = pt_view (phys km) (root_ppn pt) w"
    using ensure_table_spec [OF inv, of "[]" ?i] e1 index_at_lt [of 0 v] by simp_all
  have "pt_invar base km' (?pt1\<lparr>pt_frames := fr2\<rparr>)
    \<and> node (phys km') (root_ppn ?pt1) ([?i] @ [?j]) =
        Some (pte_ppn (get_pte (phys km') (pte_ppn (get_pte (phys km1) (root_ppn pt) ?i)) ?j))
    \<and> (\<forall>w. pt_view (phys km') (root_ppn ?pt1) w = pt_view (phys km1) (root_ppn ?pt1) w)"
    using s1(1) _ _ _ by (rule ensure_table_spec) (use s1(2) e2 index_at_lt in simp_all)
  then show ?thesis using s1(3) by (simp add: r pt' vpn_path_def)
qed

lemma find_pte_create_ok:
  assumes inv: "pt_invar base km pt" and free: "2 \<le> free_frames km"
  shows "\<exists>r pt' km'. find_pte_create v pt km = Some (r, pt', km') \<and> free_frames km \<le> free_frames km' + 2"
proof -
  have fa: "fa_invar base (falloc km)" using inv by (simp add: pt_invar_def)
  obtain fr1 km1 where e1: "ensure_table (root_ppn pt) (index_at v 0) (pt_frames pt) km = Some (fr1, km1)"
    and f1: "free_frames km \<le> Suc (free_frames km1)"
    using ensure_table_ok [OF fa, of "root_ppn pt" "index_at v 0" "pt_frames pt"] free by auto
  have "pt_invar base km1 (pt\<lparr>pt_frames := fr1\<rparr>)"
    using ensure_table_spec [OF inv, of "[]" "index_at v 0"] e1 index_at_lt [of 0 v] by simp
  then have "fa_invar base (falloc km1)" by (simp add: pt_invar_def)
  moreover have "0 < free_frames km1" using f1 free by simp
  ultimately obtain fr2 km2 where
    e2: "ensure_table (pte_ppn (get_pte (phys km1) (root_ppn pt) (index_at v 0))) (index_at v 1) fr1 km1
      = Some (fr2, km2)" and f2: "free_frames km1 \<le> Suc (free_frames km2)"
    using ensure_table_ok by blast
  show ?thesis unfolding find_pte_create_eq using e1 e2 f1 f2 by (auto simp: Let_def)
qed

lemma pt_invar_set_leaf:
  assumes inv: "pt_invar base km pt" and f: "node (phys km) (root_ppn pt) (vpn_path v) = Some f"
  shows "pt_invar base (set_pte f (index_at v 2) e km) pt"
    and "pt_view (phys (set_pte f (index_at v 2) e km)) (root_ppn pt) w =
      (if same_entry w v then if pte_is_valid e then Some (pte_ppn e, pte_flags e) else None
       else pt_view (phys km) (root_ppn pt) w)"
proof -
  have tree: "tree_invar (phys km) (root_ppn pt) (pt_owned pt)" using inv by (simp add: pt_invar_def)
  note leaf = pt_view_set_leaf [OF tree f set_pte_simps(1)]
  show "pt_view (phys (set_pte f (index_at v 2) e km)) (root_ppn pt) w =
      (if same_entry w v then if pte_is_valid e then Some (pte_ppn e, pte_flags e) else None
       else pt_view (phys km) (root_ppn pt) w)" by (rule leaf(1))
  have "tree_invar (phys (set_pte f (index_at v 2) e km)) (root_ppn pt) (pt_owned pt)"
    using leaf(2) tree by (rule tree_invar_cong)
  then show "pt_invar base (set_pte f (index_at v 2) e km) pt"
    using inv by (simp add: pt_invar_def del: set_pte_simps(1))
qed

lemma same_entry_refl [simp]: "same_entry v v"
  by (simp add: same_entry_def)

lemma pt_map_spec:
  assumes inv: "pt_invar base km pt" and run: "pt_map v ppn flags pt km = Some (pt', km')"
    and ppn: "unat (ppn0 ppn) < 2 ^ 44"
  shows "pt_invar base km' pt' \<and> root_ppn pt' = root_ppn pt
    \<and> pt_view (phys km) (root_ppn pt) v = None
    \<and> (\<forall>w. pt_view (phys km') (root_ppn pt) w =
        (if same_entry w v then Some (ppn, flags OR PTE_V) else pt_view (phys km) (root_ppn pt) w))"
proof -
  obtain q idx km1 where create: "find_pte_create v pt km = Some (Some (q, idx), pt', km1)"
    and nv: "\<not> pte_is_valid (get_pte (phys km1) q idx)"
    and km': "km' = set_pte q idx (PTE_new ppn (flags OR PTE_V)) km1"
    using run by (auto simp: pt_map_def elim!: bind_eq_SomeE split: option.splits)
  note spec = find_pte_create_spec [OF inv create]
  then have inv1: "pt_invar base km1 pt'" and root: "root_ppn pt' = root_ppn pt"
    and idx: "idx = index_at v 2" and q: "node (phys km1) (root_ppn pt') (vpn_path v) = Some q"
    and view: "\<And>w. pt_view (phys km1) (root_ppn pt) w = pt_view (phys km) (root_ppn pt) w"
    by auto
  have "pt_view (phys km) (root_ppn pt) v = None"
    using q nv root view [of v] by (simp add: pt_view_def idx)
  then show ?thesis
    using pt_invar_set_leaf [OF inv1 q] root ppn by (simp add: km' idx view pte_ppn_new)
qed

lemma pt_map_ok:
  assumes inv: "pt_invar base km pt" and free: "2 \<le> free_frames km"
    and unmapped: "pt_view (phys km) (root_ppn pt) v = None"
  shows "\<exists>pt' km'. pt_map v ppn flags pt km = Some (pt', km') \<and> free_frames km \<le> free_frames km' + 2"
proof -
  obtain r pt' km1 where create: "find_pte_create v pt km = Some (r, pt', km1)"
    and f: "free_frames km \<le> free_frames km1 + 2"
    using find_pte_create_ok [OF inv free] by blast
  note spec = find_pte_create_spec [OF inv create]
  then obtain q where r: "r = Some (q, index_at v 2)"
    and q: "node (phys km1) (root_ppn pt) (vpn_path v) = Some q" by blast
  have "pt_view (phys km1) (root_ppn pt) v = None" using spec unmapped by simp
  then have "\<not> pte_is_valid (get_pte (phys km1) q (index_at v 2))"
    using q by (auto simp: pt_view_def Let_def split: if_splits)
  then show ?thesis using create r f by (simp add: pt_map_def)
qed

lemma pt_view_SomeE:
  assumes "pt_view m root v = Some x"
  obtains f where "node m root (vpn_path v) = Some f" "pte_is_valid (get_pte m f (index_at v 2))"
  using assms by (auto simp: pt_view_def Let_def split: option.splits if_splits)

lemma pt_unmap_spec:
  assumes inv: "pt_invar base km pt"
  shows "pt_view (phys km) (root_ppn pt) v = None \<Longrightarrow> pt_unmap v pt km = None"
    and "pt_view (phys km) (root_ppn pt) v = Some x \<Longrightarrow>
      \<exists>km'. pt_unmap v pt km = Some km' \<and> pt_invar base km' pt \<and> free_frames km' = free_frames km
        \<and> falloc km' = falloc km
        \<and> (\<forall>w. pt_view (phys km') (root_ppn pt) w =
            (if same_entry w v then None else pt_view (phys km) (root_ppn pt) w))"
proof -
  assume "pt_view (phys km) (root_ppn pt) v = None"
  then show "pt_unmap v pt km = None"
    by (auto simp: pt_unmap_def find_pte_eq pt_view_def Let_def rust_assert_bind split: option.splits if_splits)
next
  assume "pt_view (phys km) (root_ppn pt) v = Some x"
  then obtain f where f: "node (phys km) (root_ppn pt) (vpn_path v) = Some f"
    and valid: "pte_is_valid (get_pte (phys km) f (index_at v 2))" by (rule pt_view_SomeE)
  have "pt_unmap v pt km = Some (set_pte f (index_at v 2) PTE_empty km)"
    using f valid by (simp add: pt_unmap_def find_pte_eq)
  then show "\<exists>km'. pt_unmap v pt km = Some km' \<and> pt_invar base km' pt \<and> free_frames km' = free_frames km
        \<and> falloc km' = falloc km
        \<and> (\<forall>w. pt_view (phys km') (root_ppn pt) w =
            (if same_entry w v then None else pt_view (phys km) (root_ppn pt) w))"
    using pt_invar_set_leaf [OF inv f, of PTE_empty] by (simp del: set_pte_simps(1))
qed

text \<open>Writing a frame that is not one of the tables changes no translation.\<close>

lemma pt_view_other_frame:
  assumes tree: "tree_invar m root own" and g: "g \<notin> own"
  shows "pt_view (m(g := c)) root v = pt_view m root v" and "tree_invar (m(g := c)) root own"
proof -
  have node': "node (m(g := c)) root p = node m root p" if "table_path p" for p
    using that g tree_invarD(1) [OF tree] by (intro node_upd_other) blast+
  show "pt_view (m(g := c)) root v = pt_view m root v"
  proof (cases "node m root (vpn_path v)")
    case (Some f)
    then have "f \<noteq> g" using tree_invarD(1) [OF tree table_path_vpn] g by blast
    then show ?thesis using Some by (simp add: pt_view_def node' get_pte_def)
  qed (simp add: pt_view_def node')
  show "tree_invar (m(g := c)) root own" using node' tree by (rule tree_invar_cong)
qed

lemma frame_alloc_unwrap_pt:
  assumes inv: "pt_invar base km pt" and alloc: "frame_alloc_unwrap km = Some (t, km')"
  shows "pt_invar base km' pt" and "pt_view (phys km') (root_ppn pt) v = pt_view (phys km) (root_ppn pt) v"
    and "ft_ppn t \<notin> pt_owned pt"
proof -
  have fa: "fa_invar base (falloc km)" and tree: "tree_invar (phys km) (root_ppn pt) (pt_owned pt)"
    and own: "pt_owned pt \<subseteq> fa_live base (falloc km)" using inv by (auto simp: pt_invar_def)
  note spec = frame_alloc_unwrap_spec [OF fa alloc]
  show g: "ft_ppn t \<notin> pt_owned pt" using spec(3) own by blast
  show "pt_view (phys km') (root_ppn pt) v = pt_view (phys km) (root_ppn pt) v"
    unfolding spec(5) by (rule pt_view_other_frame(1) [OF tree g])
  have "tree_invar (phys km') (root_ppn pt) (pt_owned pt)"
    unfolding spec(5) by (rule pt_view_other_frame(2) [OF tree g])
  then show "pt_invar base km' pt" using inv spec(1,4) by (auto simp: pt_invar_def)
qed

section \<open>Changing flags\<close>

lemma pte_of_view:
  assumes "pt_view m root v = Some (ppn, fl)" and "node m root (vpn_path v) = Some f"
  shows "pte_ppn (get_pte m f (index_at v 2)) = ppn" "pte_flags (get_pte m f (index_at v 2)) = fl"
    "pte_is_valid (get_pte m f (index_at v 2))"
  using assms by (auto simp: pt_view_def Let_def split: if_splits)

lemma set_pte_flags_spec:
  assumes inv: "pt_invar base km pt" and view: "pt_view (phys km) (root_ppn pt) v = Some (ppn, fl)"
  shows "\<exists>km'. set_pte_flags v flags pt km = (True, km') \<and> pt_invar base km' pt
    \<and> falloc km' = falloc km
    \<and> (\<forall>w. pt_view (phys km') (root_ppn pt) w =
        (if same_entry w v then Some (ppn, flags OR PTE_U OR PTE_V) else pt_view (phys km) (root_ppn pt) w))"
proof -
  obtain f where f: "node (phys km) (root_ppn pt) (vpn_path v) = Some f"
    using view by (rule pt_view_SomeE)
  note pte = pte_of_view [OF view f]
  let ?e = "PTE_new ppn (flags OR PTE_U OR PTE_V)"
  have "unat (ppn0 ppn) < 2 ^ 44" using pte(1) pte_ppn_lt by metis
  moreover have "set_pte_flags v flags pt km = (True, set_pte f (index_at v 2) ?e km)"
    using pte by (simp add: set_pte_flags_def find_pte_eq f PTE_new_def Let_def)
  moreover have "pte_is_valid ?e" using pte_valid_new_V(2) [of ppn "flags OR PTE_U"] by (simp only: or.assoc)
  ultimately show ?thesis
    using pt_invar_set_leaf [OF inv f, of ?e] by (simp add: pte_ppn_new del: set_pte_simps(1))
qed

lemma set_pte_flags_unmapped:
  assumes "pt_view (phys km) (root_ppn pt) v = None"
  shows "set_pte_flags v flags pt km = (False, km)"
  using assms by (auto simp: set_pte_flags_def find_pte_eq pt_view_def Let_def split: option.splits if_splits)

lemma delete_bits_ppn: "pte_ppn (PageTableEntry (b AND NOT (ucast (fl :: u8)))) = pte_ppn (PageTableEntry b)"
  unfolding pte_ppn_eq PageTableEntry.sel
  by (rule arg_cong [where f = PhysPageNum], rule bit_word_eqI)
    (auto simp: bit_simps dest: bit_imp_le_length)

lemma delete_bits_flags:
  "pte_flags (PageTableEntry (b AND NOT (ucast (fl :: u8)))) = pte_flags (PageTableEntry b) AND NOT fl"
  unfolding pte_flags_def PageTableEntry.sel by (rule bit_word_eqI) (auto simp: bit_simps)

lemma delete_pte_flags_spec:
  assumes inv: "pt_invar base km pt" and view: "pt_view (phys km) (root_ppn pt) v = Some (ppn, fl)"
    and V: "flags AND PTE_V = 0"
  shows "\<exists>km'. delete_pte_flags v flags pt km = (True, km') \<and> pt_invar base km' pt
    \<and> (\<forall>w. pt_view (phys km') (root_ppn pt) w =
        (if same_entry w v then Some (ppn, fl AND NOT flags) else pt_view (phys km) (root_ppn pt) w))"
proof -
  obtain f where f: "node (phys km) (root_ppn pt) (vpn_path v) = Some f"
    using view by (rule pt_view_SomeE)
  note pte = pte_of_view [OF view f]
  let ?b = "phys km f (index_at v 2)"
  let ?e = "PageTableEntry (?b AND NOT (ucast flags))"
  have "delete_pte_flags v flags pt km = (True, set_pte f (index_at v 2) ?e km)"
    using pte by (simp add: delete_pte_flags_def find_pte_eq f Let_def get_pte_def)
  moreover have e: "pte_ppn ?e = ppn" "pte_flags ?e = fl AND NOT flags"
    using pte by (simp_all only: delete_bits_ppn delete_bits_flags get_pte_def)
  moreover have "\<not> bit flags 0" using V by (auto simp: PTE_V_def and_one_eq bit_0 odd_iff_mod_2_eq_one)
  then have "pte_is_valid ?e"
    using pte(2,3) unfolding pte_is_valid_iff e(2) by (auto simp: bit_simps)
  ultimately show ?thesis
    using pt_invar_set_leaf [OF inv f, of ?e] by (simp del: set_pte_simps(1))
qed

section \<open>Translation of addresses\<close>

lemma unat_pa_from_ppn_offset:
  assumes "unat (ppn0 ppn) < 2 ^ 44"
  shows "unat (pa0 (pa_from (pa0 (pa_from_ppn ppn) + va_page_offset va))) =
    unat (ppn0 ppn) * 4096 + unat (va0 va) mod 4096"
proof -
  have p: "unat (push_bit 12 (ppn0 ppn)) = unat (ppn0 ppn) * 4096"
    using assms unat_push_bit_small [of "ppn0 ppn" 12] by simp
  have lt: "unat (ppn0 ppn) * 4096 + unat (va0 va) mod 4096 < 2 ^ 56"
    using assms mod_less_divisor [of 4096 "unat (va0 va)"] by simp
  have "unat (push_bit 12 (ppn0 ppn) + va_page_offset va) =
      (unat (ppn0 ppn) * 4096 + unat (va0 va) mod 4096) mod 2 ^ 64"
    unfolding unat_word_ariths(1) p unat_va_page_offset by simp
  also have "\<dots> = unat (ppn0 ppn) * 4096 + unat (va0 va) mod 4096" using lt by simp
  finally show ?thesis using lt by (simp add: pa_from_eq pa_from_ppn_eq unat_take_bit)
qed

lemma translate_va_view:
  assumes "pt_view m (root_ppn pt) (va_floor va) = Some (ppn, fl)"
  shows "\<exists>pa. translate_va va pt m = Some pa \<and> unat (pa0 pa) = unat (ppn0 ppn) * 4096 + unat (va0 va) mod 4096"
proof -
  obtain f where f: "node m (root_ppn pt) (vpn_path (va_floor va)) = Some f"
    using assms by (rule pt_view_SomeE)
  have ppn: "pte_ppn (get_pte m f (index_at (va_floor va) 2)) = ppn"
    using pte_of_view [OF assms f] by simp
  then have "translate_va va pt m = Some (pa_from (pa0 (pa_from_ppn ppn) + va_page_offset va))"
    by (simp add: translate_va_def find_pte_eq f Let_def)
  moreover have "unat (ppn0 ppn) < 2 ^ 44" using ppn pte_ppn_lt by metis
  ultimately show ?thesis using unat_pa_from_ppn_offset by blast
qed

lemma PageTable_new_spec:
  assumes "fa_invar base (falloc km)" and "PageTable_new km = Some (pt, km')"
  shows "pt_invar base km' pt \<and> (\<forall>v. pt_view (phys km') (root_ppn pt) v = None)"
proof -
  obtain t where alloc: "frame_alloc_unwrap km = Some (t, km')"
    and pt: "pt = \<lparr>root_ppn = ft_ppn t, pt_frames = [t]\<rparr>"
    using assms(2) by (auto simp: PageTable_new_def elim!: bind_eq_SomeE)
  note spec = frame_alloc_unwrap_spec [OF assms(1) alloc]
  have node: "node (phys km') (ft_ppn t) p = (if p = [] then Some (ft_ppn t) else None)" for p
    by (cases p) (simp_all add: spec(5) get_pte_def)
  then have "tree_invar (phys km') (ft_ppn t) {ft_ppn t}"
    by (auto simp: tree_invar_def split: if_splits)
  moreover have "pt_view (phys km') (ft_ppn t) v = None" for v
    using node [of "vpn_path v"] by (simp add: pt_view_def vpn_path_def)
  ultimately show ?thesis using spec(1,2,4) by (simp add: pt_invar_def pt)
qed

lemma from_token_root:
  assumes "unat (ppn0 (root_ppn pt)) < 2 ^ 44"
  shows "root_ppn (from_token (pt_token pt)) = root_ppn pt"
proof -
  have "take_bit 44 (push_bit 60 8 OR ppn0 (root_ppn pt)) = take_bit 44 (ppn0 (root_ppn pt))"
    by (rule bit_word_eqI) (auto simp: bit_simps)
  also have "\<dots> = ppn0 (root_ppn pt)" using assms by (rule take_bit_word_id)
  finally have "take_bit 44 (pt_token pt) = ppn0 (root_ppn pt)" unfolding pt_token_def .
  moreover have "from_token satp = \<lparr>root_ppn = PhysPageNum (take_bit 44 satp), pt_frames = []\<rparr>" for satp
    by (simp only: from_token_def mask_take_bit ppn_from_eq take_bit_take_bit min.idem)
  ultimately show ?thesis by simp
qed

lemma pt_root_lt:
  assumes "pt_invar base km pt"
  shows "unat (ppn0 (root_ppn pt)) < 2 ^ 44"
proof -
  have "root_ppn pt \<in> pt_owned pt"
    using assms tree_invarD(1) [of "phys km" "root_ppn pt" "pt_owned pt" "[]"] by (simp add: pt_invar_def)
  then show ?thesis using assms fa_live_range(3) by (auto simp: pt_invar_def)
qed

section \<open>The interface the memory sets use\<close>

text \<open>Mapping and unmapping of single pages and allocation of frames, as the code that
  builds whole areas relies on them.  \<open>free\<close> counts free frames: mapping one page may
  take up to two of them for tables.\<close>

type_synonym 's page_mapper = "VirtPageNum \<Rightarrow> PhysPageNum \<Rightarrow> PTEFlags \<Rightarrow> 's \<Rightarrow> 's run"

fun map_framed :: "'s page_mapper \<Rightarrow> ('s \<Rightarrow> (PhysPageNum \<times> 's) run) \<Rightarrow> VirtPageNum list \<Rightarrow> PTEFlags \<Rightarrow>
    's \<Rightarrow> ((VirtPageNum \<times> PhysPageNum) list \<times> 's) run" where
  "map_framed pmap palloc [] fl s = ret ([], s)"
| "map_framed pmap palloc (v # vs) fl s = do {
     (ppn, s1) \<leftarrow> palloc s;
     s2 \<leftarrow> pmap v ppn fl s1;
     (rest, s3) \<leftarrow> map_framed pmap palloc vs fl s2;
     ret ((v, ppn) # rest, s3) }"

fun unmap_all :: "(VirtPageNum \<Rightarrow> 's \<Rightarrow> 's run) \<Rightarrow> VirtPageNum list \<Rightarrow> 's \<Rightarrow> 's run" where
  "unmap_all punmap [] s = ret s"
| "unmap_all punmap (v # vs) s = do { s1 \<leftarrow> punmap v s; unmap_all punmap vs s1 }"

definition separate :: "VirtPageNum list \<Rightarrow> bool" where
  "separate vs \<longleftrightarrow> distinct (map indexes vs)"

lemma separate_Cons:
  "separate (v # vs) \<longleftrightarrow> (\<forall>w \<in> set vs. \<not> same_entry w v \<and> \<not> same_entry v w) \<and> separate vs"
  unfolding separate_def same_entry_def by (auto simp: image_iff)

locale paging =
  fixes pmap :: "'s page_mapper"
    and punmap :: "VirtPageNum \<Rightarrow> 's \<Rightarrow> 's run"
    and palloc :: "'s \<Rightarrow> (PhysPageNum \<times> 's) run"
    and view :: "'s \<Rightarrow> VirtPageNum \<Rightarrow> (PhysPageNum \<times> PTEFlags) option"
    and invar :: "'s \<Rightarrow> bool"
    and free :: "'s \<Rightarrow> nat"
  assumes view_cong: "same_entry w v \<Longrightarrow> view s w = view s v"
    and pmap_ok: "invar s \<Longrightarrow> view s v = None \<Longrightarrow> 2 \<le> free s \<Longrightarrow> unat (ppn0 ppn) < 2 ^ 44 \<Longrightarrow>
      \<exists>s'. pmap v ppn fl s = Some s' \<and> invar s' \<and> free s \<le> free s' + 2 \<and>
        (\<forall>w. view s' w = (if same_entry w v then Some (ppn, fl OR PTE_V) else view s w))"
    and pmap_mapped: "invar s \<Longrightarrow> view s v \<noteq> None \<Longrightarrow> unat (ppn0 ppn) < 2 ^ 44 \<Longrightarrow> pmap v ppn fl s = None"
    and punmap_ok: "invar s \<Longrightarrow> view s v \<noteq> None \<Longrightarrow>
      \<exists>s'. punmap v s = Some s' \<and> invar s' \<and> free s' = free s \<and>
        (\<forall>w. view s' w = (if same_entry w v then None else view s w))"
    and palloc_ok: "invar s \<Longrightarrow> 0 < free s \<Longrightarrow>
      \<exists>ppn s'. palloc s = Some (ppn, s') \<and> invar s' \<and> free s' = free s - 1 \<and>
        view s' = view s \<and> unat (ppn0 ppn) < 2 ^ 44"
begin

lemma map_framed_ok:
  assumes "invar s" and "3 * length vs \<le> free s" and "separate vs" and "\<forall>v \<in> set vs. view s v = None"
  shows "\<exists>ps s'. map_framed pmap palloc vs fl s = Some (ps, s') \<and> invar s' \<and> map fst ps = vs
    \<and> free s \<le> free s' + 3 * length vs
    \<and> (\<forall>(v, ppn) \<in> set ps. view s' v = Some (ppn, fl OR PTE_V))
    \<and> (\<forall>w. (\<forall>v \<in> set vs. \<not> same_entry w v) \<longrightarrow> view s' w = view s w)"
  using assms
proof (induction vs arbitrary: s)
  case (Cons v vs)
  obtain ppn s1 where a: "palloc s = Some (ppn, s1)" "invar s1" "free s1 = free s - 1" "view s1 = view s"
    "unat (ppn0 ppn) < 2 ^ 44" using palloc_ok [of s] Cons.prems by auto
  have "view s1 v = None" "2 \<le> free s1" using a Cons.prems by auto
  from pmap_ok [OF a(2) this a(5), of fl] obtain s2 where
    m: "pmap v ppn fl s1 = Some s2" "invar s2" "free s1 \<le> free s2 + 2"
    "\<And>w. view s2 w = (if same_entry w v then Some (ppn, fl OR PTE_V) else view s1 w)" by blast
  have sep: "separate vs" "\<forall>w \<in> set vs. \<not> same_entry w v" "\<forall>w \<in> set vs. \<not> same_entry v w"
    using Cons.prems(3) by (auto simp: separate_Cons)
  have "3 * length vs \<le> free s2" "\<forall>w \<in> set vs. view s2 w = None"
    using a(3,4) m(3,4) sep Cons.prems by auto
  from Cons.IH [OF m(2) this(1) sep(1) this(2)] obtain ps s3 where
    r: "map_framed pmap palloc vs fl s2 = Some (ps, s3)" "invar s3" "map fst ps = vs"
    "free s2 \<le> free s3 + 3 * length vs"
    "\<forall>(v, ppn) \<in> set ps. view s3 v = Some (ppn, fl OR PTE_V)"
    "\<forall>w. (\<forall>v \<in> set vs. \<not> same_entry w v) \<longrightarrow> view s3 w = view s2 w" by blast
  have "view s3 v = Some (ppn, fl OR PTE_V)" using r(6) sep(3) m(4) by simp
  then show ?case using a m r Cons.prems(2) by auto
qed simp

lemma unmap_all_ok:
  assumes "invar s" and "separate vs" and "\<forall>v \<in> set vs. view s v \<noteq> None"
  shows "\<exists>s'. unmap_all punmap vs s = Some s' \<and> invar s' \<and> free s' = free s
    \<and> (\<forall>w. view s' w = (if \<exists>v \<in> set vs. same_entry w v then None else view s w))"
  using assms
proof (induction vs arbitrary: s)
  case (Cons v vs)
  have "view s v \<noteq> None" using Cons.prems(3) by simp
  from punmap_ok [OF Cons.prems(1) this] obtain s1 where
    u: "punmap v s = Some s1" "invar s1" "free s1 = free s"
    "\<And>w. view s1 w = (if same_entry w v then None else view s w)" by blast
  have sep: "separate vs" "\<forall>w \<in> set vs. \<not> same_entry w v"
    using Cons.prems(2) by (auto simp: separate_Cons)
  have "\<forall>w \<in> set vs. view s1 w \<noteq> None" using u(4) sep(2) Cons.prems(3) by auto
  from Cons.IH [OF u(2) sep(1) this] obtain s2 where
    r: "unmap_all punmap vs s1 = Some s2" "invar s2" "free s2 = free s1"
    "\<forall>w. view s2 w = (if \<exists>v \<in> set vs. same_entry w v then None else view s1 w)" by blast
  then show ?case using u by auto
qed simp

text \<open>Mapping an area and unmapping it again restores every translation.\<close>

lemma map_unmap_restores:
  assumes "invar s" and "3 * length vs \<le> free s" and "separate vs" and "\<forall>v \<in> set vs. view s v = None"
  shows "\<exists>ps s' s''. map_framed pmap palloc vs fl s = Some (ps, s') \<and> unmap_all punmap vs s' = Some s'' \<and> view s'' = view s"
proof -
  obtain ps s' where m: "map_framed pmap palloc vs fl s = Some (ps, s')" "invar s'" "map fst ps = vs"
    "\<forall>(v, ppn) \<in> set ps. view s' v = Some (ppn, fl OR PTE_V)"
    "\<forall>w. (\<forall>v \<in> set vs. \<not> same_entry w v) \<longrightarrow> view s' w = view s w"
    using map_framed_ok [OF assms] by blast
  have mapped: "\<forall>v \<in> set vs. view s' v \<noteq> None" using m(3,4) by fastforce
  obtain s'' where u: "unmap_all punmap vs s' = Some s''"
    "\<forall>w. view s'' w = (if \<exists>v \<in> set vs. same_entry w v then None else view s' w)"
    using unmap_all_ok [OF m(2) assms(3) mapped] by blast
  have "view s'' w = view s w" for w
  proof (cases "\<exists>v \<in> set vs. same_entry w v")
    case True
    then obtain v where "v \<in> set vs" "same_entry w v" by blast
    then show ?thesis using u(2) assms(4) view_cong [of w v s] by auto
  next
    case False
    then show ?thesis using u(2) m(5) by simp
  qed
  then have "view s'' = view s" by (rule ext)
  then show ?thesis using m(1) u(1) by blast
qed

end

text \<open>The page table provides this interface.\<close>

type_synonym pt_state = "kmem \<times> PageTable"

definition pt_pmap :: "pt_state page_mapper" where
  "pt_pmap v ppn fl = (\<lambda>(km, pt). map_option (\<lambda>(pt', km'). (km', pt')) (pt_map v ppn fl pt km))"

definition pt_punmap :: "VirtPageNum \<Rightarrow> pt_state \<Rightarrow> pt_state run" where
  "pt_punmap v = (\<lambda>(km, pt). map_option (\<lambda>km'. (km', pt)) (pt_unmap v pt km))"

definition pt_palloc :: "pt_state \<Rightarrow> (PhysPageNum \<times> pt_state) run" where
  "pt_palloc = (\<lambda>(km, pt). map_option (\<lambda>(t, km'). (ft_ppn t, km', pt)) (frame_alloc_unwrap km))"

definition ps_view :: "pt_state \<Rightarrow> VirtPageNum \<Rightarrow> (PhysPageNum \<times> PTEFlags) option" where
  "ps_view = (\<lambda>(km, pt). pt_view (phys km) (root_ppn pt))"

definition ps_invar :: "usize \<Rightarrow> pt_state \<Rightarrow> bool" where
  "ps_invar base = (\<lambda>(km, pt). pt_invar base km pt)"

definition ps_free :: "pt_state \<Rightarrow> nat" where
  "ps_free = (\<lambda>(km, pt). free_frames km)"

lemmas ps_defs = pt_pmap_def pt_punmap_def pt_palloc_def ps_view_def ps_invar_def ps_free_def

lemma pt_view_same_entry: "same_entry w v \<Longrightarrow> pt_view m root w = pt_view m root v"
  unfolding same_entry_iff pt_view_def by (elim conjE) (simp only:)

lemma sv39_pmap_ok:
  assumes "ps_invar base s" "ps_view s v = None" "2 \<le> ps_free s" "unat (ppn0 ppn) < 2 ^ 44"
  shows "\<exists>s'. pt_pmap v ppn fl s = Some s' \<and> ps_invar base s' \<and> ps_free s \<le> ps_free s' + 2 \<and>
        (\<forall>w. ps_view s' w = (if same_entry w v then Some (ppn, fl OR PTE_V) else ps_view s w))"
proof -
  obtain km pt where s: "s = (km, pt)" by (cases s)
  have inv: "pt_invar base km pt" using assms(1) by (simp add: s ps_defs)
  obtain pt' km' where run: "pt_map v ppn fl pt km = Some (pt', km')" "free_frames km \<le> free_frames km' + 2"
    using pt_map_ok [OF inv, of v ppn fl] assms(2,3) by (auto simp: s ps_defs)
  show ?thesis using pt_map_spec [OF inv run(1) assms(4)] run by (simp add: s ps_defs)
qed

lemma sv39_pmap_mapped:
  assumes "ps_invar base s" "ps_view s v \<noteq> None" "unat (ppn0 ppn) < 2 ^ 44"
  shows "pt_pmap v ppn fl s = None"
proof -
  obtain km pt where s: "s = (km, pt)" by (cases s)
  have inv: "pt_invar base km pt" using assms(1) by (simp add: s ps_defs)
  have "pt_map v ppn fl pt km = None"
  proof (rule ccontr)
    assume "pt_map v ppn fl pt km \<noteq> None"
    then obtain r where "pt_map v ppn fl pt km = Some r" by blast
    then show False using pt_map_spec [OF inv _ assms(3), of v fl "fst r" "snd r"] assms(2)
      by (simp add: s ps_defs)
  qed
  then show ?thesis by (simp add: s ps_defs)
qed

lemma sv39_punmap_ok:
  assumes "ps_invar base s" "ps_view s v \<noteq> None"
  shows "\<exists>s'. pt_punmap v s = Some s' \<and> ps_invar base s' \<and> ps_free s' = ps_free s \<and>
        (\<forall>w. ps_view s' w = (if same_entry w v then None else ps_view s w))"
proof -
  obtain km pt where s: "s = (km, pt)" by (cases s)
  have inv: "pt_invar base km pt" using assms(1) by (simp add: s ps_defs)
  obtain x where x: "pt_view (phys km) (root_ppn pt) v = Some x" using assms(2) by (auto simp: s ps_defs)
  obtain km' where "pt_unmap v pt km = Some km'" "pt_invar base km' pt" "free_frames km' = free_frames km"
    "\<forall>w. pt_view (phys km') (root_ppn pt) w =
      (if same_entry w v then None else pt_view (phys km) (root_ppn pt) w)"
    using pt_unmap_spec(2) [OF inv x] by blast
  then show ?thesis by (simp add: s ps_defs)
qed

lemma sv39_palloc_ok:
  assumes "ps_invar base s" and "0 < ps_free s"
  shows "\<exists>ppn s'. pt_palloc s = Some (ppn, s') \<and> ps_invar base s' \<and> ps_free s' = ps_free s - 1
        \<and> ps_view s' = ps_view s \<and> unat (ppn0 ppn) < 2 ^ 44"
proof -
  obtain km pt where s: "s = (km, pt)" by (cases s)
  have inv: "pt_invar base km pt" using assms(1) by (simp add: s ps_defs)
  then have fa: "fa_invar base (falloc km)" by (simp add: pt_invar_def)
  obtain t km' where alloc: "frame_alloc_unwrap km = Some (t, km')" "free_frames km' = free_frames km - 1"
    using frame_alloc_unwrap_ok [OF fa] assms(2) by (auto simp: s ps_defs)
  have "pt_view (phys km') (root_ppn pt) = pt_view (phys km) (root_ppn pt)"
    using frame_alloc_unwrap_pt(2) [OF inv alloc(1)] by (rule ext)
  then show ?thesis
    using frame_alloc_unwrap_pt(1) [OF inv alloc(1)] frame_alloc_unwrap_spec(6) [OF fa alloc(1)] alloc
    by (simp add: s ps_defs)
qed

interpretation sv39: paging pt_pmap pt_punmap pt_palloc ps_view "ps_invar base" ps_free for base
proof
  fix s :: pt_state and w v assume "same_entry w v"
  then show "ps_view s w = ps_view s v" by (cases s) (simp add: ps_view_def pt_view_same_entry)
qed (rule sv39_pmap_ok sv39_pmap_mapped sv39_punmap_ok sv39_palloc_ok; assumption)+

section \<open>Properties\<close>

text \<open>A machine with frames 5 to 99 free, its first page table, and a page mapped in it.\<close>

definition boot_km :: kmem where
  "boot_km = \<lparr>phys = (\<lambda>_ _. 0), falloc = \<lparr>fa_current = 5, fa_end = 100, fa_recycled = []\<rparr>\<rparr>"

definition boot_pt :: PageTable where
  "boot_pt = \<lparr>root_ppn = PhysPageNum 5, pt_frames = [\<lparr>ft_ppn = PhysPageNum 5, ft_hold = True\<rparr>]\<rparr>"

definition boot_km1 :: kmem where
  "boot_km1 = \<lparr>phys = (\<lambda>_ _. 0), falloc = \<lparr>fa_current = 6, fa_end = 100, fa_recycled = []\<rparr>\<rparr>"

lemma boot_new: "PageTable_new boot_km = Some (boot_pt, boot_km1)"
proof -
  have "ppn_from 5 = PhysPageNum 5" by (rule ppn_from_id) simp
  moreover have "(\<lambda>_ _. 0 :: usize)(PhysPageNum 5 := \<lambda>_. 0) = (\<lambda>_ _. 0)" by (rule ext) simp
  ultimately show ?thesis
    by (simp add: PageTable_new_def boot_km_def boot_pt_def boot_km1_def frame_alloc_unwrap_def
        frame_alloc_def fa_alloc_def FrameTracker_new_def)
qed

lemma boot_invar: "pt_invar 5 boot_km1 boot_pt" "pt_view (phys boot_km1) (root_ppn boot_pt) v = None"
proof -
  have "fa_invar 5 (falloc boot_km)" by (simp add: boot_km_def fa_invar_def)
  from PageTable_new_spec [OF this boot_new]
  show "pt_invar 5 boot_km1 boot_pt" "pt_view (phys boot_km1) (root_ppn boot_pt) v = None" by auto
qed

lemma boot_free: "free_frames boot_km1 = 94"
  by (simp add: free_frames_def unallocated_frames_def boot_km1_def)

text \<open>C1: mapping a page that is not mapped succeeds when two frames are free, keeps the
  page table well formed, makes exactly this page translate to the given frame with the
  given flags and the valid bit, and changes the translation of no other page.\<close>

theorem page_table_map_correct:
  assumes "pt_invar base km pt" and "2 \<le> free_frames km" and "unat (ppn0 ppn) < 2 ^ 44"
    and "unat (vpn0 v) < 2 ^ 27" and "pt_view (phys km) (root_ppn pt) v = None"
  shows "\<exists>pt' km'. pt_map v ppn flags pt km = Some (pt', km') \<and> pt_invar base km' pt'
    \<and> (\<forall>w. unat (vpn0 w) < 2 ^ 27 \<longrightarrow> pt_view (phys km') (root_ppn pt') w =
        (if w = v then Some (ppn, flags OR PTE_V) else pt_view (phys km) (root_ppn pt) w))"
proof -
  obtain pt' km' where run: "pt_map v ppn flags pt km = Some (pt', km')"
    using pt_map_ok [OF assms(1,2,5)] by blast
  show ?thesis using pt_map_spec [OF assms(1) run assms(3)] run same_entry_eq [OF _ assms(4)] by auto
qed

theorem page_table_map_correct_witness:
  "\<exists>pt' km'. pt_map (VirtPageNum 0x10000) (PhysPageNum 77) (PTE_R OR PTE_U) boot_pt boot_km1 = Some (pt', km')
    \<and> pt_invar 5 km' pt'
    \<and> (\<forall>w. unat (vpn0 w) < 2 ^ 27 \<longrightarrow> pt_view (phys km') (root_ppn pt') w =
        (if w = VirtPageNum 0x10000 then Some (PhysPageNum 77, (PTE_R OR PTE_U) OR PTE_V)
         else pt_view (phys boot_km1) (root_ppn boot_pt) w))"
  by (rule page_table_map_correct [OF boot_invar(1)]) (simp_all add: boot_free boot_invar(2))

text \<open>C11: mapping over an existing mapping and unmapping a page that is not mapped always
  panic; unmapping a mapped page succeeds, removes this page's translation and no other,
  and frees no frame.\<close>

theorem page_table_unmap_correct:
  assumes "pt_invar base km pt" and "unat (vpn0 v) < 2 ^ 27"
  shows "case pt_view (phys km) (root_ppn pt) v of
      None \<Rightarrow> pt_unmap v pt km = None
    | Some x \<Rightarrow> (\<forall>ppn flags. unat (ppn0 ppn) < 2 ^ 44 \<longrightarrow> pt_map v ppn flags pt km = None)
        \<and> (\<exists>km'. pt_unmap v pt km = Some km' \<and> pt_invar base km' pt \<and> falloc km' = falloc km
          \<and> (\<forall>w. unat (vpn0 w) < 2 ^ 27 \<longrightarrow> pt_view (phys km') (root_ppn pt) w =
              (if w = v then None else pt_view (phys km) (root_ppn pt) w)))"
proof (cases "pt_view (phys km) (root_ppn pt) v")
  case None
  then show ?thesis using pt_unmap_spec(1) [OF assms(1)] by simp
next
  case (Some x)
  have "pt_map v ppn flags pt km = None" if "unat (ppn0 ppn) < 2 ^ 44" for ppn flags
    using sv39_pmap_mapped [of base "(km, pt)" v ppn flags] assms(1) Some that by (simp add: ps_defs)
  moreover obtain km' where "pt_unmap v pt km = Some km'" "pt_invar base km' pt" "falloc km' = falloc km"
    "\<forall>w. pt_view (phys km') (root_ppn pt) w =
      (if same_entry w v then None else pt_view (phys km) (root_ppn pt) w)"
    using pt_unmap_spec(2) [OF assms(1) Some] by blast
  ultimately show ?thesis using Some same_entry_eq [OF _ assms(2)] by auto
qed

theorem page_table_unmap_correct_witness:
  "pt_unmap (VirtPageNum 3) boot_pt boot_km1 = None"
  using page_table_unmap_correct [OF boot_invar(1), of "VirtPageNum 3"] boot_invar(2) by simp



end
