(* ===== verification/User_Memory.thy ===== *)
theory User_Memory
  imports Page_Table
begin

unbundle bit_operations_syntax

text \<open>
  Byte access to frames and the functions of \<^verbatim>\<open>kernel/src/mm/page_table.rs\<close> through which
  the kernel reads and writes user memory: \<^verbatim>\<open>translated_byte_buffer\<close>,
  \<^verbatim>\<open>translated_str\<close>, \<^verbatim>\<open>translated_ref\<close> and the scattered \<^verbatim>\<open>UserBuffer\<close>.
\<close>

section \<open>Bytes of a frame\<close>

definition get_byte :: "phys_mem \<Rightarrow> PhysPageNum \<Rightarrow> nat \<Rightarrow> u8" where
  "get_byte m ppn off = ucast (drop_bit (8 * (off mod 8)) (m ppn (off div 8)))"

definition set_byte :: "PhysPageNum \<Rightarrow> nat \<Rightarrow> u8 \<Rightarrow> phys_mem \<Rightarrow> phys_mem" where
  "set_byte ppn off b m =
    m(ppn := (m ppn)(off div 8 :=
      (m ppn (off div 8) AND NOT (push_bit (8 * (off mod 8)) 255)) OR push_bit (8 * (off mod 8)) (ucast b)))"

fun set_bytes :: "PhysPageNum \<Rightarrow> nat \<Rightarrow> u8 list \<Rightarrow> phys_mem \<Rightarrow> phys_mem" where
  "set_bytes ppn off [] m = m"
| "set_bytes ppn off (b # bs) m = set_bytes ppn (Suc off) bs (set_byte ppn off b m)"

section \<open>Translated buffers\<close>

text \<open>A slice \<^verbatim>\<open>&mut ppn.get_bytes_array()[lo..hi]\<close>.\<close>

record slice =
  sl_ppn :: PhysPageNum
  sl_lo :: nat
  sl_hi :: nat

text \<open>The loop \<^verbatim>\<open>while start < end\<close>.  The outer option is the fuel: \<^verbatim>\<open>None\<close> means that the
  loop has not ended within the given number of rounds.\<close>

fun translated_byte_buffer_loop ::
  "nat \<Rightarrow> PageTable \<Rightarrow> phys_mem \<Rightarrow> usize \<Rightarrow> usize \<Rightarrow> slice list \<Rightarrow> slice list run option" where
  "translated_byte_buffer_loop fuel pt m start end v =
    (if \<not> start < end then Some (ret v)
     else case fuel of
       0 \<Rightarrow> None
     | Suc fuel' \<Rightarrow>
         let start_va = va_from start;
             vpn = va_floor start_va
         in case pt_translate vpn pt m of
              None \<Rightarrow> Some panic
            | Some pte \<Rightarrow>
                let ppn = pte_ppn pte;
                    end_va = min (va_from_vpn (vpn_step vpn)) (va_from end);
                    lo = unat (va_page_offset start_va);
                    hi = (if va_page_offset end_va = 0 then 4096 else unat (va_page_offset end_va))
                in if hi < lo then Some panic
                   else translated_byte_buffer_loop fuel' pt m (usize_from_va end_va) end
                          (vec_push v \<lparr>sl_ppn = ppn, sl_lo = lo, sl_hi = hi\<rparr>))"

definition translated_byte_buffer :: "nat \<Rightarrow> usize \<Rightarrow> usize \<Rightarrow> usize \<Rightarrow> phys_mem \<Rightarrow> slice list run option" where
  "translated_byte_buffer fuel token ptr len m =
    translated_byte_buffer_loop fuel (from_token token) m ptr (ptr + len) []"

definition slice_cells :: "slice \<Rightarrow> (PhysPageNum \<times> nat) list" where
  "slice_cells s = map (Pair (sl_ppn s)) [sl_lo s..<sl_hi s]"

text \<open>\<^verbatim>\<open>translated_str\<close> reads bytes until a zero byte, with the same treatment of fuel.\<close>

definition phys_byte :: "phys_mem \<Rightarrow> PhysAddr \<Rightarrow> u8" where
  "phys_byte m pa = get_byte m (pa_floor pa) (unat (pa_page_offset pa))"

fun translated_str_loop :: "nat \<Rightarrow> PageTable \<Rightarrow> phys_mem \<Rightarrow> usize \<Rightarrow> u8 list \<Rightarrow> u8 list run option" where
  "translated_str_loop 0 pt m va string = None"
| "translated_str_loop (Suc fuel) pt m va string =
    (case translate_va (va_from va) pt m of
       None \<Rightarrow> Some panic
     | Some pa \<Rightarrow> let ch = phys_byte m pa in
         if ch = 0 then Some (ret string)
         else translated_str_loop fuel pt m (va + 1) (vec_push string ch))"

definition translated_str :: "nat \<Rightarrow> usize \<Rightarrow> usize \<Rightarrow> phys_mem \<Rightarrow> u8 list run option" where
  "translated_str fuel token ptr m = translated_str_loop fuel (from_token token) m ptr []"

text \<open>\<^verbatim>\<open>translated_ref\<close> and \<^verbatim>\<open>translated_refmut\<close> give the physical address of the object.\<close>

definition translated_ref :: "usize \<Rightarrow> usize \<Rightarrow> phys_mem \<Rightarrow> PhysAddr run" where
  "translated_ref token ptr m = translate_va (va_from ptr) (from_token token) m"

section \<open>User buffers\<close>

text \<open>A \<^verbatim>\<open>UserBuffer\<close> is a list of mutable slices; the model keeps their contents.\<close>

record UserBuffer =
  buffers :: "u8 list list"

definition ub_len :: "UserBuffer \<Rightarrow> nat" where
  "ub_len ub = foldl (\<lambda>total b. total + length b) 0 (buffers ub)"

definition ub_clear :: "UserBuffer \<Rightarrow> UserBuffer" where
  "ub_clear ub = ub\<lparr>buffers := map (\<lambda>b. replicate (length b) 0) (buffers ub)\<rparr>"

definition slice_of :: "'a list \<Rightarrow> nat \<Rightarrow> nat \<Rightarrow> 'a list" where
  "slice_of xs lo hi = take (hi - lo) (drop lo xs)"

fun ub_write_loop :: "u8 list \<Rightarrow> nat \<Rightarrow> nat \<Rightarrow> u8 list list \<Rightarrow> u8 list list" where
  "ub_write_loop buf len write_len [] = []"
| "ub_write_loop buf len write_len (buffer # rest) =
    (let write_end = min len (write_len + length buffer);
         buffer' = slice_of buf write_len write_end @ drop (write_end - write_len) buffer
     in if write_end = len then buffer' # rest
        else buffer' # ub_write_loop buf len (write_len + length buffer) rest)"

definition ub_write :: "u8 list \<Rightarrow> UserBuffer \<Rightarrow> (nat \<times> UserBuffer) run" where
  "ub_write buf ub = do {
     rust_assert (buffers ub \<noteq> []);
     let len = min (ub_len ub) (length buf);
     ret (len, ub\<lparr>buffers := ub_write_loop buf len 0 (buffers ub)\<rparr>) }"

text \<open>The inner \<^verbatim>\<open>for index\<close> loops of \<^verbatim>\<open>write_at\<close>: they store bytes of \<open>buf\<close> from \<open>ob\<close> on and
  leave the function when \<open>len\<close> bytes are stored.  \<open>buf[offset_buf]\<close> out of range panics.\<close>

fun ub_write_bytes :: "nat \<Rightarrow> u8 list \<Rightarrow> nat \<Rightarrow> nat \<Rightarrow> nat \<Rightarrow> u8 list \<Rightarrow> (bool \<times> nat \<times> u8 list) run" where
  "ub_write_bytes 0 buf len ob index sub = ret (False, ob, sub)"
| "ub_write_bytes (Suc n) buf len ob index sub =
    (if ob < length buf then
       let sub' = sub[index := buf ! ob]; ob' = ob + 1
       in if ob' = len then ret (True, ob', sub') else ub_write_bytes n buf len ob' (index + 1) sub'
     else panic)"

fun ub_write_at_loop :: "nat \<Rightarrow> u8 list \<Rightarrow> nat \<Rightarrow> nat \<Rightarrow> nat \<Rightarrow> u8 list list \<Rightarrow> (int \<times> u8 list list) run" where
  "ub_write_at_loop offset buf len oub ob [] = ret (EPERM, [])"
| "ub_write_at_loop offset buf len oub ob (sub # rest) =
    (if oub + length sub < offset then do {
       (r, rest') \<leftarrow> ub_write_at_loop offset buf len oub ob rest;
       ret (r, sub # rest') }
     else do {
       let first = (if oub < offset then offset - oub else 0);
       (done, ob', sub') \<leftarrow> ub_write_bytes (length sub - first) buf len ob first sub;
       if done then ret (int len, sub' # rest)
       else do {
         (r, rest') \<leftarrow> ub_write_at_loop offset buf len (oub + length sub) ob' rest;
         ret (r, sub' # rest') } })"

definition ub_write_at :: "nat \<Rightarrow> u8 list \<Rightarrow> UserBuffer \<Rightarrow> (int \<times> UserBuffer) run" where
  "ub_write_at offset buf ub = do {
     rust_assert (buffers ub \<noteq> []);
     rust_assert (\<not> ub_len ub < offset + length buf);
     let len = min (ub_len ub - offset) (length buf);
     (r, bs) \<leftarrow> ub_write_at_loop offset buf len 0 0 (buffers ub);
     ret (r, ub\<lparr>buffers := bs\<rparr>) }"

record UserBufferIterator =
  ubi_buffers :: "u8 list list"
  current_buffer :: nat
  current_idx :: nat

definition ub_into_iter :: "UserBuffer \<Rightarrow> UserBufferIterator" where
  "ub_into_iter ub = \<lparr>ubi_buffers = buffers ub, current_buffer = 0, current_idx = 0\<rparr>"

text \<open>\<^verbatim>\<open>next\<close> yields the position (buffer, index) of the byte the raw pointer points to.\<close>

definition ubi_next :: "UserBufferIterator \<Rightarrow> ((nat \<times> nat) option \<times> UserBufferIterator) run" where
  "ubi_next it =
    (if length (ubi_buffers it) \<le> current_buffer it then ret (None, it)
     else let b = ubi_buffers it ! current_buffer it in
       if length b \<le> current_idx it then panic
       else ret (Some (current_buffer it, current_idx it),
         if current_idx it + 1 = length b
         then it\<lparr>current_idx := 0, current_buffer := current_buffer it + 1\<rparr>
         else it\<lparr>current_idx := current_idx it + 1\<rparr>))"

declare translated_byte_buffer_loop.simps [simp del]

section \<open>Bytes: read over write\<close>

lemma bit_255: "bit (255 :: nat) n \<longleftrightarrow> n < 8" "bit (255 :: int) n \<longleftrightarrow> n < 8" "bit (255 :: usize) n \<longleftrightarrow> n < 8"
proof -
  have "(255 :: nat) = mask 8" "(255 :: int) = mask 8" "(255 :: usize) = mask 8"
    by (simp_all add: mask_eq_exp_minus_1)
  then show "bit (255 :: nat) n \<longleftrightarrow> n < 8" "bit (255 :: int) n \<longleftrightarrow> n < 8" "bit (255 :: usize) n \<longleftrightarrow> n < 8"
    by (simp_all only: bit_mask_iff) (auto simp: exp_eq_zero_iff)
qed

lemma byte_of_merge:
  assumes "r < 8" and "r' < 8"
  shows "ucast (drop_bit (8 * r') ((c AND NOT (push_bit (8 * r) 255)) OR push_bit (8 * r) (ucast b))) =
    (if r' = r then (b :: u8) else ucast (drop_bit (8 * r') (c :: usize)))"
proof (rule bit_word_eqI)
  fix n assume "n < LENGTH(8)"
  then have n: "n < 8" by simp
  then have range: "8 * r' + n < 64" using assms by simp
  have "8 * r \<le> 8 * r' + n \<and> 8 * r' + n - 8 * r < 8 \<longleftrightarrow> r' = r" using n by auto
  then show "bit (ucast (drop_bit (8 * r') ((c AND NOT (push_bit (8 * r) 255)) OR push_bit (8 * r) (ucast b))) :: u8) n
    = bit (if r' = r then b else ucast (drop_bit (8 * r') c)) n"
    using n range by (auto simp: bit_simps bit_255 not_le not_less dest: bit_imp_le_length)
qed

lemma get_set_byte:
  "get_byte (set_byte ppn off b m) ppn' off' = (if ppn' = ppn \<and> off' = off then b else get_byte m ppn' off')"
proof (cases "ppn' = ppn \<and> off' div 8 = off div 8")
  case True
  moreover have "off' = off \<longleftrightarrow> off' mod 8 = off mod 8"
    using True by (metis div_mult_mod_eq)
  ultimately show ?thesis
    using byte_of_merge [of "off mod 8" "off' mod 8" "m ppn (off div 8)" b]
    by (auto simp: get_byte_def set_byte_def)
next
  case False
  then show ?thesis by (auto simp: get_byte_def set_byte_def)
qed

lemma get_set_bytes:
  "get_byte (set_bytes ppn off bs m) ppn' off' =
    (if ppn' = ppn \<and> off \<le> off' \<and> off' < off + length bs then bs ! (off' - off) else get_byte m ppn' off')"
proof (induction bs arbitrary: off m)
  case (Cons b bs)
  show ?case
    unfolding set_bytes.simps Cons.IH get_set_byte by (auto simp: nth_Cons' Suc_le_eq)
qed auto

lemma set_byte_other_frame: "g \<noteq> ppn \<Longrightarrow> set_byte ppn off b m g = m g"
  by (simp add: set_byte_def)

lemma set_bytes_frame: "\<exists>c. set_bytes ppn off bs m = m(ppn := c)"
proof (induction bs arbitrary: off m)
  case Nil
  show ?case by (rule exI [of _ "m ppn"]) simp
next
  case (Cons b bs)
  obtain c where "set_bytes ppn (Suc off) bs (set_byte ppn off b m) = (set_byte ppn off b m)(ppn := c)"
    using Cons.IH by blast
  then show ?case by (intro exI [of _ c]) (simp add: set_byte_def)
qed

section \<open>Translated buffers cover exactly the user range\<close>

text \<open>The frame and offset of the user byte at address \<open>a\<close>.\<close>

definition user_cell :: "PageTable \<Rightarrow> phys_mem \<Rightarrow> nat \<Rightarrow> PhysPageNum \<times> nat" where
  "user_cell pt m a =
    (pte_ppn (the (pt_translate (VirtPageNum (of_nat (a div 4096))) pt m)), a mod 4096)"

definition user_mapped :: "PageTable \<Rightarrow> phys_mem \<Rightarrow> nat \<Rightarrow> bool" where
  "user_mapped pt m a \<longleftrightarrow> pt_translate (VirtPageNum (of_nat (a div 4096))) pt m \<noteq> None"

text \<open>One round of the loop, in natural numbers.\<close>

lemma va_from_low: "unat x < 2 ^ 38 \<Longrightarrow> va_from x = VirtAddr x"
  unfolding va_from_eq by (rule arg_cong [where f = VirtAddr], rule take_bit_word_id) simp

lemma va_floor_low: "va_floor (VirtAddr x) = VirtPageNum (of_nat (unat x div 4096))"
proof -
  have "unat x div 4096 < 2 ^ 64" using unat_lt_size64 [of x] by linarith
  then have "unat (drop_bit 12 x) = unat (of_nat (unat x div 4096) :: usize)"
    by (simp add: unat_drop_bit unat_of_nat64 del: unat_of_nat)
  then show ?thesis unfolding va_floor_eq VirtAddr.sel by (rule arg_cong [OF unat_eqD])
qed

lemma unat_next_page:
  assumes "unat x < 2 ^ 38"
  shows "unat (va0 (va_from_vpn (vpn_step (va_floor (VirtAddr x))))) = (unat x div 4096 + 1) * 4096"
proof -
  have f: "unat (vpn0 (va_floor (VirtAddr x))) = unat x div 4096" by (simp add: unat_va_floor)
  have lt: "unat x div 4096 + 1 \<le> 2 ^ 26" using assms by simp
  have s: "unat (vpn0 (va_floor (VirtAddr x)) + 1) = unat x div 4096 + 1"
    using lt unat_word_ariths(1) [of "vpn0 (va_floor (VirtAddr x))" 1] unfolding f by simp
  show ?thesis using lt s unat_push_bit_small [of "vpn0 (va_floor (VirtAddr x)) + 1" 12]
    by (simp add: va_from_vpn_eq vpn_step_def)
qed

lemma unat_va0_min: "unat (va0 (min a b)) = min (unat (va0 a)) (unat (va0 b))"
  by (simp add: min_def less_eq_VirtAddr_def word_le_nat_alt)

lemma page_step_arith:
  fixes n e :: nat
  assumes "n < e"
  defines "n' \<equiv> min ((n div 4096 + 1) * 4096) e"
  defines "hi \<equiv> (if n' mod 4096 = 0 then 4096 else n' mod 4096)"
  shows "n < n'" and "n' \<le> e" and "n mod 4096 \<le> hi"
    and "map (\<lambda>a. (p, a mod 4096)) [n..<n'] = map (Pair p) [n mod 4096..<hi]"
    and "a \<in> {n..<n'} \<Longrightarrow> a div 4096 = n div 4096"
proof -
  define q r where "q = n div 4096" and "r = n mod 4096"
  have n: "n = q * 4096 + r" "r < 4096" by (simp_all add: q_def r_def)
  obtain d where d: "n' = q * 4096 + d" "r < d" "d \<le> 4096"
  proof (cases "(q + 1) * 4096 \<le> e")
    case True
    then show ?thesis using that [of 4096] n by (simp add: n'_def q_def [symmetric])
  next
    case False
    then have "n' = e" "e = q * 4096 + (e - q * 4096)" "e - q * 4096 \<le> 4096" "r < e - q * 4096"
      using assms(1) n by (auto simp: n'_def q_def [symmetric])
    then show ?thesis using that [of "e - q * 4096"] by simp
  qed
  have hi: "hi = d" using d by (cases "d = 4096") (auto simp: hi_def)
  show "n < n'" "n' \<le> e" using n d by (simp_all add: n'_def)
  show "n mod 4096 \<le> hi" using d(2) hi by (simp add: r_def)
  have range: "[n..<n'] = map (\<lambda>i. q * 4096 + i) [r..<d]"
    unfolding n(1) d(1) by (rule nth_equalityI) simp_all
  show "map (\<lambda>a. (p, a mod 4096)) [n..<n'] = map (Pair p) [n mod 4096..<hi]"
    unfolding range hi r_def [symmetric] using d(3) by auto
  show "a div 4096 = n div 4096" if "a \<in> {n..<n'}"
  proof -
    have "q * 4096 \<le> a" "a < q * 4096 + 4096" using that n d by simp_all
    then have "a div 4096 = q" by (intro div_nat_eqI) simp_all
    then show ?thesis by (simp only: q_def)
  qed
qed

lemma translated_byte_buffer_step:
  assumes lt: "start < end" and e: "unat end < 2 ^ 38" and mapped: "user_mapped pt m (unat start)"
  obtains start' sl where
    "\<And>fuel v. translated_byte_buffer_loop (Suc fuel) pt m start end v =
        translated_byte_buffer_loop fuel pt m start' end (v @ [sl])"
    "unat start < unat start'" "unat start' \<le> unat end"
    "slice_cells sl = map (user_cell pt m) [unat start..<unat start']"
proof -
  have lt': "unat start < unat end" using lt by (simp add: word_less_nat_alt)
  define n' where "n' = min ((unat start div 4096 + 1) * 4096) (unat end)"
  define hi where "hi = (if n' mod 4096 = 0 then 4096 else n' mod 4096)"
  note step = page_step_arith [OF lt', folded n'_def, folded hi_def]
  have low: "unat start < 2 ^ 38" using lt' e by simp
  have sv: "va_from start = VirtAddr start" "va_from end = VirtAddr end"
    using low e by (simp_all add: va_from_low)
  define ev where "ev = min (va_from_vpn (vpn_step (va_floor (VirtAddr start)))) (va_from end)"
  have ev: "unat (va0 ev) = n'"
    unfolding ev_def unat_va0_min sv(2) unat_next_page [OF low] by (simp add: n'_def)
  have off: "unat (va_page_offset ev) = n' mod 4096" using ev by (simp only: unat_va_page_offset)
  have zero: "va_page_offset ev = 0 \<longleftrightarrow> n' mod 4096 = 0" unfolding off [symmetric] by (rule unat_eq_0 [symmetric])
  have hi: "(if va_page_offset ev = 0 then 4096 else unat (va_page_offset ev)) = hi"
    unfolding zero off hi_def ..
  have lo: "unat (va_page_offset (VirtAddr start)) = unat start mod 4096"
    by (simp only: unat_va_page_offset VirtAddr.sel)
  have next': "usize_from_va ev = va0 ev" using ev step(2) e by (intro usize_from_va_low) simp
  obtain pte where pte: "pt_translate (va_floor (VirtAddr start)) pt m = Some pte"
    using mapped by (auto simp: user_mapped_def va_floor_low)
  define sl where "sl = \<lparr>sl_ppn = pte_ppn pte, sl_lo = unat start mod 4096, sl_hi = hi\<rparr>"
  have not: "\<not> hi < unat start mod 4096" using step(3) by (simp only: not_less)
  have "translated_byte_buffer_loop (Suc fuel) pt m start end v =
        translated_byte_buffer_loop fuel pt m (va0 ev) end (v @ [sl])" for fuel v
    by (subst translated_byte_buffer_loop.simps)
      (simp only: lt pte sv(1) ev_def [symmetric] hi lo next' not sl_def vec_push_def Let_def
        nat.case option.case not_True_eq_False if_False)
  moreover have "user_cell pt m a = (pte_ppn pte, a mod 4096)" if "a \<in> set [unat start..<n']" for a
    using step(5) [of a] that pte by (simp add: user_cell_def va_floor_low)
  then have "map (user_cell pt m) [unat start..<n'] = map (\<lambda>a. (pte_ppn pte, a mod 4096)) [unat start..<n']"
    by (rule map_cong [OF refl])
  then have "slice_cells sl = map (user_cell pt m) [unat start..<n']"
    by (simp only: step(4)) (simp add: slice_cells_def sl_def)
  ultimately show ?thesis using that [of "va0 ev" sl] step(1,2) by (simp only: ev)
qed

lemma translated_byte_buffer_loop_ok:
  assumes "unat end < 2 ^ 38" and "\<And>a. unat start \<le> a \<Longrightarrow> a < unat end \<Longrightarrow> user_mapped pt m a"
    and "unat end - unat start \<le> fuel"
  shows "\<exists>sl. translated_byte_buffer_loop fuel pt m start end v = Some (Some (v @ sl))
    \<and> concat (map slice_cells sl) = map (user_cell pt m) [unat start..<unat end]"
  using assms
proof (induction fuel arbitrary: start v)
  case 0
  then have "\<not> start < end" by (simp add: word_less_nat_alt)
  then show ?case using 0 by (simp add: translated_byte_buffer_loop.simps)
next
  case (Suc fuel)
  show ?case
  proof (cases "start < end")
    case False
    then show ?thesis by (simp add: translated_byte_buffer_loop.simps word_less_nat_alt)
  next
    case True
    then have "user_mapped pt m (unat start)" using Suc.prems(2) by (simp add: word_less_nat_alt)
    with True Suc.prems(1) obtain start' sl where
      run: "\<And>fuel v. translated_byte_buffer_loop (Suc fuel) pt m start end v =
        translated_byte_buffer_loop fuel pt m start' end (v @ [sl])"
      and range: "unat start < unat start'" "unat start' \<le> unat end"
      and cells: "slice_cells sl = map (user_cell pt m) [unat start..<unat start']"
      using translated_byte_buffer_step [of start "end" pt m] by blast
    have "unat end - unat start' \<le> fuel" using Suc.prems(3) range by simp
    moreover have "user_mapped pt m a" if "unat start' \<le> a" "a < unat end" for a
      using Suc.prems(2) that range by simp
    ultimately obtain rest where
      "translated_byte_buffer_loop fuel pt m start' end (v @ [sl]) = Some (Some ((v @ [sl]) @ rest))"
      "concat (map slice_cells rest) = map (user_cell pt m) [unat start'..<unat end]"
      using Suc.IH [OF Suc.prems(1), of start' "v @ [sl]"] by blast
    moreover have "[unat start..<unat end] = [unat start..<unat start'] @ [unat start'..<unat end]"
      using range upt_add_eq_append [of "unat start" "unat start'" "unat end - unat start'"] by simp
    ultimately show ?thesis using run cells by (intro exI [of _ "sl # rest"]) simp
  qed
qed

section \<open>User buffers as byte strings\<close>

lemma ub_len_concat: "ub_len ub = length (concat (buffers ub))"
proof -
  have "foldl (\<lambda>total b. total + length b) n bs = n + length (concat bs)" for n and bs :: "u8 list list"
    by (induction bs arbitrary: n) simp_all
  then show ?thesis by (simp add: ub_len_def)
qed

lemma slice_of_append:
  assumes "lo \<le> mid" and "mid \<le> hi"
  shows "slice_of xs lo mid @ slice_of xs mid hi = slice_of xs lo hi"
proof -
  obtain a b where "mid = lo + a" "hi = lo + a + b" using assms le_Suc_ex by blast
  then show ?thesis by (simp add: slice_of_def take_add add.commute)
qed

lemma length_slice_of [simp]: "length (slice_of xs lo hi) = min (hi - lo) (length xs - lo)"
  by (simp add: slice_of_def)

lemma ub_write_loop_spec:
  assumes "wl \<le> len" and "len \<le> length buf" and "len - wl \<le> length (concat bs)"
  shows "concat (ub_write_loop buf len wl bs) = slice_of buf wl len @ drop (len - wl) (concat bs)
    \<and> map length (ub_write_loop buf len wl bs) = map length bs"
  using assms
proof (induction bs arbitrary: wl)
  case Nil
  then show ?case by (simp add: slice_of_def)
next
  case (Cons b bs)
  show ?case
  proof (cases "len \<le> wl + length b")
    case True
    then have "min len (wl + length b) = len" by simp
    then show ?thesis using True Cons.prems diff_le_mono [OF Cons.prems(2), of wl]
      by (simp add: Let_def min_def)
  next
    case False
    then have we: "min len (wl + length b) = wl + length b" "wl + length b \<noteq> len" by simp_all
    have IH: "concat (ub_write_loop buf len (wl + length b) bs) =
        slice_of buf (wl + length b) len @ drop (len - (wl + length b)) (concat bs)
      \<and> map length (ub_write_loop buf len (wl + length b) bs) = map length bs"
      using False Cons.prems by (intro Cons.IH) simp_all
    have "slice_of buf wl (wl + length b) @ slice_of buf (wl + length b) len = slice_of buf wl len"
      using False by (intro slice_of_append) simp_all
    moreover have "length b \<le> length buf - wl" using False Cons.prems(2) by simp
    ultimately show ?thesis using IH we False Cons.prems by (simp add: Let_def min_def)
  qed
qed

lemma ub_write_bytes_spec:
  assumes "ob < len" and "len \<le> length buf" and "index + n = length sub"
  shows "ub_write_bytes n buf len ob index sub =
    Some (len - ob \<le> n, ob + min n (len - ob),
      take index sub @ slice_of buf ob (ob + min n (len - ob)) @ drop (index + min n (len - ob)) sub)"
  using assms
proof (induction n arbitrary: ob index sub)
  case 0
  then show ?case by (simp add: slice_of_def)
next
  case (Suc n)
  let ?sub = "sub[index := buf ! ob]"
  have upd: "take (Suc index) ?sub = take index sub @ [buf ! ob]" "drop (Suc index) ?sub = drop (Suc index) sub"
    using Suc.prems by (simp_all add: take_Suc_conv_app_nth)
  have one: "slice_of buf ob (Suc ob) = [buf ! ob]"
    using Suc.prems by (simp add: slice_of_def take_Suc_conv_app_nth Cons_nth_drop_Suc [symmetric])
  show ?case
  proof (cases "Suc ob = len")
    case True
    have "?sub = take index sub @ [buf ! ob] @ drop (Suc index) sub"
      using Suc.prems(3) by (simp add: upd_conv_take_nth_drop)
    then show ?thesis using True Suc.prems one by (simp add: Let_def) auto
  next
    case False
    then have lt: "Suc ob < len" using Suc.prems by simp
    have IH: "ub_write_bytes n buf len (Suc ob) (Suc index) ?sub =
      Some (len - Suc ob \<le> n, Suc ob + min n (len - Suc ob),
        take (Suc index) ?sub @ slice_of buf (Suc ob) (Suc ob + min n (len - Suc ob))
          @ drop (Suc index + min n (len - Suc ob)) ?sub)"
      using Suc.prems lt by (intro Suc.IH) simp_all
    let ?k = "min n (len - Suc ob)"
    have k: "min (Suc n) (len - ob) = Suc ?k" using lt by simp
    have "slice_of buf ob (Suc ob) @ slice_of buf (Suc ob) (Suc ob + ?k) = slice_of buf ob (Suc ob + ?k)"
      by (rule slice_of_append) simp_all
    moreover have "drop (Suc index + ?k) ?sub = drop (Suc index + ?k) sub" by simp
    moreover have "len - Suc ob \<le> n \<longleftrightarrow> len - ob \<le> Suc n" using lt by auto
    ultimately show ?thesis using IH Suc.prems False one k by (simp add: Let_def upd(1))
  qed
qed

lemma ub_write_at_loop_later:
  assumes "offset \<le> oub" and "ob < len" and "len \<le> length buf" and "len - ob \<le> length (concat bs)"
  shows "\<exists>bs'. ub_write_at_loop offset buf len oub ob bs = Some (int len, bs')
    \<and> concat bs' = slice_of buf ob len @ drop (len - ob) (concat bs)"
  using assms
proof (induction bs arbitrary: oub ob)
  case (Cons b bs)
  have bytes: "ub_write_bytes (length b) buf len ob 0 b =
      Some (len - ob \<le> length b, ob + min (length b) (len - ob),
        slice_of buf ob (ob + min (length b) (len - ob)) @ drop (min (length b) (len - ob)) b)"
    using ub_write_bytes_spec [OF Cons.prems(2,3), of 0 "length b" b] by simp
  show ?case
  proof (cases "len - ob \<le> length b")
    case True
    then show ?thesis using Cons.prems bytes by (simp add: min_def)
  next
    case False
    have "\<exists>bs'. ub_write_at_loop offset buf len (oub + length b) (ob + length b) bs = Some (int len, bs')
      \<and> concat bs' = slice_of buf (ob + length b) len @ drop (len - (ob + length b)) (concat bs)"
      using Cons.prems False by (intro Cons.IH) simp_all
    moreover have "slice_of buf ob (ob + length b) @ slice_of buf (ob + length b) len = slice_of buf ob len"
      using False by (intro slice_of_append) simp_all
    ultimately show ?thesis using Cons.prems False bytes by (auto simp: min_def)
  qed
qed simp

lemma slice_of_all [simp]: "slice_of xs 0 (length xs) = xs"
  by (simp add: slice_of_def)

lemma slice_of_rest: "slice_of xs lo (length xs) = drop lo xs"
  by (simp add: slice_of_def)

lemma ub_write_at_loop_first:
  assumes "offset \<le> length b"
  shows "ub_write_at_loop offset buf len 0 0 (b # bs) = do {
     (done, ob', sub') \<leftarrow> ub_write_bytes (length b - offset) buf len 0 offset b;
     if done then ret (int len, sub' # bs)
     else do {
       (r, rest') \<leftarrow> ub_write_at_loop offset buf len (length b) ob' bs;
       ret (r, sub' # rest') } }"
  using assms by (cases "offset = 0") (simp_all cong: if_cong)

lemma ub_write_at_first:
  assumes ub: "buffers ub = b # bs" and off: "offset \<le> length b" and ne: "buf \<noteq> []"
    and fits: "offset + length buf \<le> ub_len ub"
  shows "\<exists>bs'. ub_write_at offset buf ub = Some (int (length buf), ub\<lparr>buffers := bs'\<rparr>)
    \<and> concat bs' = take offset (concat (b # bs)) @ buf @ drop (offset + length buf) (concat (b # bs))"
proof -
  let ?n = "length b - offset" and ?len = "length buf"
  have len: "min (ub_len ub - offset) ?len = ?len" using fits by simp
  have bytes: "ub_write_bytes ?n buf ?len 0 offset b =
      Some (?len \<le> ?n, min ?n ?len, take offset b @ slice_of buf 0 (min ?n ?len) @ drop (offset + min ?n ?len) b)"
    using ub_write_bytes_spec [of 0 ?len buf offset ?n b] ne off by simp
  have "\<exists>bs'. ub_write_at_loop offset buf ?len 0 0 (b # bs) = Some (int ?len, bs')
    \<and> concat bs' = take offset (concat (b # bs)) @ buf @ drop (offset + ?len) (concat (b # bs))"
  proof (cases "?len \<le> ?n")
    case True
    then have "min ?n ?len = ?len" by simp
    then show ?thesis using True bytes off unfolding ub_write_at_loop_first [OF off] by simp
  next
    case False
    have fit: "?len - ?n \<le> length (concat bs)" using fits off by (simp add: ub_len_concat ub)
    obtain bs' where rest: "ub_write_at_loop offset buf ?len (length b) ?n bs = Some (int ?len, bs')"
      "concat bs' = slice_of buf ?n ?len @ drop (?len - ?n) (concat bs)"
      using ub_write_at_loop_later [OF off, of ?n ?len buf bs] False fit by auto
    have "slice_of buf 0 ?n @ drop ?n buf = buf" using False by (simp add: slice_of_def)
    moreover have "drop (offset + ?len) (b @ concat bs) = drop (?len - ?n) (concat bs)"
      using False off by (simp add: add.commute)
    moreover have "min ?n ?len = ?n" using False by simp
    ultimately show ?thesis using off bytes rest False unfolding ub_write_at_loop_first [OF off]
      by (simp add: slice_of_rest)
  qed
  then show ?thesis using ub fits len
    by (auto simp: ub_write_at_def Let_def simp del: ub_write_at_loop.simps)
qed

section \<open>Properties\<close>

text \<open>C17: for a user range below \<open>2 ^ 38\<close> whose pages are all in the page table,
  \<^verbatim>\<open>translated_byte_buffer\<close> ends after at most \<open>len\<close> rounds without panic, and the
  slices it returns name, in order, exactly the frame bytes behind the user addresses
  \<open>ptr\<close>, \<open>ptr + 1\<close>, up to \<open>ptr + len\<close>.\<close>

theorem translated_byte_buffer_exact:
  assumes "unat ptr + unat len < 2 ^ 38" and "unat len \<le> fuel"
    and "\<forall>a. unat ptr \<le> a \<and> a < unat ptr + unat len \<longrightarrow> user_mapped (from_token token) m a"
  shows "\<exists>sl. translated_byte_buffer fuel token ptr len m = Some (Some sl)
    \<and> concat (map slice_cells sl) = map (user_cell (from_token token) m) [unat ptr..<unat ptr + unat len]"
proof -
  have e: "unat (ptr + len) = unat ptr + unat len"
    using assms(1) by (simp add: unat_word_ariths(1))
  show ?thesis
    using translated_byte_buffer_loop_ok [of "ptr + len" ptr "from_token token" m fuel "[]"] assms
    unfolding e translated_byte_buffer_def by auto
qed

text \<open>A memory whose frame 1 is a page table leading, for virtual page 16, to frame 9.\<close>

definition tbb_mem :: phys_mem where
  "tbb_mem ppn i =
    (if ppn = PhysPageNum 1 \<and> i = 0 then bits (PTE_new (PhysPageNum 2) PTE_V)
     else if ppn = PhysPageNum 2 \<and> i = 0 then bits (PTE_new (PhysPageNum 3) PTE_V)
     else if ppn = PhysPageNum 3 \<and> i = 16 then bits (PTE_new (PhysPageNum 9) (PTE_V OR PTE_U))
     else 0)"

lemma tbb_mapped:
  assumes "a div 4096 = 16"
  shows "user_mapped (from_token 1) tbb_mem a"
proof -
  have root: "root_ppn (from_token 1) = PhysPageNum 1"
    by (simp add: from_token_def ppn_from_def config_defs)
  have idx: "index_at (VirtPageNum 16) 0 = 0" "index_at (VirtPageNum 16) (Suc 0) = 0" "index_at (VirtPageNum 16) 2 = 16"
    by (simp_all add: index_at_simps)
  have "node tbb_mem (PhysPageNum 1) (vpn_path (VirtPageNum 16)) = Some (PhysPageNum 3)"
    by (simp add: vpn_path_def idx tbb_mem_def get_pte_def pte_ppn_new)
  then show ?thesis
    by (simp add: user_mapped_def pt_translate_def find_pte_eq root assms)
qed

theorem translated_byte_buffer_exact_witness:
  "\<exists>sl. translated_byte_buffer 8 1 0x10010 8 tbb_mem = Some (Some sl)
    \<and> concat (map slice_cells sl) = map (user_cell (from_token 1) tbb_mem) [0x10010..<0x10018]"
proof -
  have "\<forall>a. 65552 \<le> a \<and> a < 65560 \<longrightarrow> user_mapped (from_token 1) tbb_mem a"
    using tbb_mapped div_nat_eqI [of 4096 16] by simp
  then show ?thesis using translated_byte_buffer_exact [of "0x10010" 8 8 1 tbb_mem] by simp
qed

text \<open>\<^verbatim>\<open>UserBuffer::write\<close> panics exactly on an empty list of buffers; otherwise it copies
  the longest prefix of \<open>buf\<close> that fits to the front of the scattered buffer, returns its
  length, and leaves the rest of the buffer and all slice lengths alone.\<close>

theorem user_buffer_write_correct:
  "if buffers ub = [] then ub_write buf ub = None
   else \<exists>bs'. ub_write buf ub = Some (min (ub_len ub) (length buf), \<lparr>buffers = bs'\<rparr>)
     \<and> concat bs' = take (ub_len ub) buf @ drop (length buf) (concat (buffers ub))
     \<and> map length bs' = map length (buffers ub)"
proof -
  let ?len = "min (ub_len ub) (length buf)"
  let ?bs = "ub_write_loop buf ?len 0 (buffers ub)"
  have spec: "concat ?bs = slice_of buf 0 ?len @ drop (?len - 0) (concat (buffers ub))
      \<and> map length ?bs = map length (buffers ub)"
    by (rule ub_write_loop_spec) (simp_all add: ub_len_concat)
  have "slice_of buf 0 ?len = take (ub_len ub) buf" by (simp add: slice_of_def min_def)
  moreover have "drop ?len (concat (buffers ub)) = drop (length buf) (concat (buffers ub))"
    by (simp add: ub_len_concat min_def)
  moreover have "buffers ub \<noteq> [] \<Longrightarrow> ub_write buf ub = Some (?len, \<lparr>buffers = ?bs\<rparr>)"
    by (simp add: ub_write_def Let_def)
  moreover have "buffers ub = [] \<Longrightarrow> ub_write buf ub = None" by (simp add: ub_write_def)
  ultimately show ?thesis using spec by auto
qed

text \<open>\<^verbatim>\<open>UserBuffer::write_at\<close> is right as long as the offset lies within the first slice:
  it overwrites exactly the bytes \<open>[offset, offset + len)\<close> and returns the length.\<close>

theorem user_buffer_write_at_first_slice:
  assumes "buffers ub = b # bs" and "offset \<le> length b" and "buf \<noteq> []"
    and "offset + length buf \<le> ub_len ub"
  shows "\<exists>bs'. ub_write_at offset buf ub = Some (int (length buf), ub\<lparr>buffers := bs'\<rparr>)
    \<and> concat bs' = take offset (concat (buffers ub)) @ buf @ drop (offset + length buf) (concat (buffers ub))"
  using ub_write_at_first [OF assms] unfolding assms(1) .

theorem user_buffer_write_at_first_slice_witness:
  "\<exists>bs'. ub_write_at 1 [7, 8] \<lparr>buffers = [[0, 0], [0, 0]]\<rparr> = Some (2, \<lparr>buffers = bs'\<rparr>)
    \<and> concat bs' = [0, 7, 8, 0]"
  using user_buffer_write_at_first_slice [of "\<lparr>buffers = [[0, 0], [0, 0]]\<rparr>" "[0, 0]" "[[0, 0]]" 1 "[7, 8]"]
  by (simp add: ub_len_def)


end
