(* ===== verification/Page_Install.thy ===== *)
theory Page_Install
  imports User_Memory
begin

unbundle bit_operations_syntax

text \<open>
  How mapping pages changes memory beyond translations: which frames a page table
  takes, which frames keep their contents, and the combination the address-space code
  uses everywhere, allocating a fresh frame and mapping a page to it.
\<close>

section \<open>Growth of a page table\<close>

text \<open>From one state to the next the page table may only take frames that were not in
  use, and only frames of the table change their contents.\<close>

definition pt_grow :: "usize \<Rightarrow> kmem \<Rightarrow> PageTable \<Rightarrow> kmem \<Rightarrow> PageTable \<Rightarrow> bool" where
  "pt_grow base km pt km' pt' \<longleftrightarrow>
    root_ppn pt' = root_ppn pt \<and> pt_owned pt \<subseteq> pt_owned pt'
    \<and> fa_live base (falloc km') = fa_live base (falloc km) \<union> pt_owned pt'
    \<and> (pt_owned pt' - pt_owned pt) \<inter> fa_live base (falloc km) = {}
    \<and> (\<forall>f. f \<notin> pt_owned pt' \<longrightarrow> phys km' f = phys km f)"

lemma pt_grow_refl: "pt_invar base km pt \<Longrightarrow> pt_grow base km pt km pt"
  by (auto simp: pt_grow_def pt_invar_def)

lemma pt_grow_trans:
  assumes "pt_grow base km pt km1 pt1" and "pt_grow base km1 pt1 km2 pt2"
  shows "pt_grow base km pt km2 pt2"
proof -
  let ?L = "\<lambda>km. fa_live base (falloc km)"
  have 1: "root_ppn pt1 = root_ppn pt" "pt_owned pt \<subseteq> pt_owned pt1" "?L km1 = ?L km \<union> pt_owned pt1"
    "(pt_owned pt1 - pt_owned pt) \<inter> ?L km = {}" "\<And>f. f \<notin> pt_owned pt1 \<Longrightarrow> phys km1 f = phys km f"
    using assms(1) by (simp_all add: pt_grow_def)
  have 2: "root_ppn pt2 = root_ppn pt1" "pt_owned pt1 \<subseteq> pt_owned pt2" "?L km2 = ?L km1 \<union> pt_owned pt2"
    "(pt_owned pt2 - pt_owned pt1) \<inter> ?L km1 = {}" "\<And>f. f \<notin> pt_owned pt2 \<Longrightarrow> phys km2 f = phys km1 f"
    using assms(2) by (simp_all add: pt_grow_def)
  have "phys km2 f = phys km f" if "f \<notin> pt_owned pt2" for f
    using 2(5) [OF that] 1(5) [of f] subsetD [OF 2(2), of f] that by auto
  moreover have "(pt_owned pt2 - pt_owned pt) \<inter> ?L km = {}" using 1(3,4) 2(4) by blast
  moreover have "?L km2 = ?L km \<union> pt_owned pt2" using 1(3) 2(2,3) by blast
  moreover have "pt_owned pt \<subseteq> pt_owned pt2" using 1(2) 2(2) by (rule subset_trans)
  ultimately show ?thesis unfolding pt_grow_def using 1(1) 2(1) by simp
qed

lemma pt_grow_set_pte:
  assumes "pt_invar base km pt" and "q \<in> pt_owned pt"
  shows "pt_grow base km pt (set_pte q i e km) pt"
  using assms by (auto simp: pt_grow_def pt_invar_def)

lemma ensure_table_grow:
  assumes inv: "pt_invar base km pt" and q: "q \<in> pt_owned pt"
    and run: "ensure_table q i (pt_frames pt) km = Some (frames', km')"
  shows "pt_grow base km pt km' (pt\<lparr>pt_frames := frames'\<rparr>)"
proof (cases "pte_is_valid (get_pte (phys km) q i)")
  case True
  then have "frames' = pt_frames pt" "km' = km" using run by (simp_all add: ensure_table_def)
  then show ?thesis using pt_grow_refl [OF inv] by simp
next
  case False
  then obtain t km1 where alloc: "frame_alloc_unwrap km = Some (t, km1)"
    and frames': "frames' = vec_push (pt_frames pt) t"
    and km': "km' = set_pte q i (PTE_new (ft_ppn t) PTE_V) km1"
    using run by (auto simp: ensure_table_def elim!: bind_eq_SomeE)
  have fa: "fa_invar base (falloc km)" using inv by (simp add: pt_invar_def)
  note spec = frame_alloc_unwrap_spec [OF fa alloc]
  show ?thesis using inv q spec by (auto simp: pt_grow_def frames' km' pt_invar_def)
qed

lemma node_in_owned:
  assumes "pt_invar base km pt" and "table_path p" and "node (phys km) (root_ppn pt) p = Some f"
  shows "f \<in> pt_owned pt"
  using assms tree_invarD(1) by (auto simp: pt_invar_def)

lemma find_pte_create_grow:
  assumes inv: "pt_invar base km pt" and run: "find_pte_create v pt km = Some (r, pt', km')"
  shows "pt_grow base km pt km' pt'"
proof -
  let ?i = "index_at v 0" and ?j = "index_at v 1"
  obtain fr1 km1 fr2 where e1: "ensure_table (root_ppn pt) ?i (pt_frames pt) km = Some (fr1, km1)"
    and e2: "ensure_table (pte_ppn (get_pte (phys km1) (root_ppn pt) ?i)) ?j fr1 km1 = Some (fr2, km')"
    and pt': "pt' = pt\<lparr>pt_frames := fr2\<rparr>"
    using run unfolding find_pte_create_eq by (auto simp: Let_def elim!: bind_eq_SomeE)
  let ?pt1 = "pt\<lparr>pt_frames := fr1\<rparr>" and ?q = "pte_ppn (get_pte (phys km1) (root_ppn pt) ?i)"
  have root: "root_ppn pt \<in> pt_owned pt" using node_in_owned [OF inv, of "[]"] by simp
  have s1: "pt_invar base km1 ?pt1" "node (phys km1) (root_ppn ?pt1) [?i] = Some ?q"
    using ensure_table_spec [OF inv, of "[]" ?i] e1 index_at_lt [of 0 v] by simp_all
  have "?q \<in> pt_owned ?pt1" using s1 index_at_lt [of 0 v] by (intro node_in_owned [OF s1(1) _ s1(2)]) simp
  then have "pt_grow base km1 ?pt1 km' (?pt1\<lparr>pt_frames := fr2\<rparr>)"
    using e2 by (intro ensure_table_grow [OF s1(1)]) simp_all
  moreover have "pt_grow base km pt km1 ?pt1" using inv root e1 by (rule ensure_table_grow)
  ultimately show ?thesis using pt_grow_trans by (simp add: pt')
qed

lemma pt_map_grow:
  assumes inv: "pt_invar base km pt" and run: "pt_map v ppn flags pt km = Some (pt', km')"
  shows "pt_grow base km pt km' pt'"
proof -
  obtain q idx km1 where create: "find_pte_create v pt km = Some (Some (q, idx), pt', km1)"
    and km': "km' = set_pte q idx (PTE_new ppn (flags OR PTE_V)) km1"
    using run by (auto simp: pt_map_def elim!: bind_eq_SomeE split: option.splits)
  note spec = find_pte_create_spec [OF inv create]
  have "q \<in> pt_owned pt'" using spec node_in_owned [of base km1 pt' "vpn_path v" q] by auto
  then have "pt_grow base km1 pt' km' pt'" unfolding km' using spec by (intro pt_grow_set_pte) auto
  with find_pte_create_grow [OF inv create] show ?thesis by (rule pt_grow_trans)
qed

lemma pt_grow_data_frame:
  assumes "pt_grow base km pt km' pt'" and "f \<in> fa_live base (falloc km)" and "f \<notin> pt_owned pt"
  shows "phys km' f = phys km f" and "f \<notin> pt_owned pt'" and "f \<in> fa_live base (falloc km')"
proof -
  show *: "f \<notin> pt_owned pt'" using assms unfolding pt_grow_def by blast
  show "phys km' f = phys km f" "f \<in> fa_live base (falloc km')"
    using assms * unfolding pt_grow_def by blast+
qed

section \<open>Installing a fresh frame\<close>

definition install :: "VirtPageNum \<Rightarrow> PTEFlags \<Rightarrow> PageTable \<Rightarrow> kmem \<Rightarrow> (FrameTracker \<times> PageTable \<times> kmem) run" where
  "install vpn flags pt km = do {
     (frame, km1) \<leftarrow> frame_alloc_unwrap km;
     (pt', km2) \<leftarrow> pt_map vpn (ft_ppn frame) flags pt km1;
     ret (frame, pt', km2) }"

lemma install_ok:
  assumes inv: "pt_invar base km pt" and free: "3 \<le> free_frames km"
    and unmapped: "pt_view (phys km) (root_ppn pt) v = None"
  shows "\<exists>t pt' km'. install v flags pt km = Some (t, pt', km') \<and> free_frames km \<le> free_frames km' + 3"
proof -
  have fa: "fa_invar base (falloc km)" using inv by (simp add: pt_invar_def)
  obtain t km1 where alloc: "frame_alloc_unwrap km = Some (t, km1)" "free_frames km1 = free_frames km - 1"
    using frame_alloc_unwrap_ok [OF fa] free by auto
  note pt1 = frame_alloc_unwrap_pt [OF inv alloc(1)]
  have "2 \<le> free_frames km1" "pt_view (phys km1) (root_ppn pt) v = None"
    using alloc(2) free unmapped pt1(2) by simp_all
  then obtain pt' km' where "pt_map v (ft_ppn t) flags pt km1 = Some (pt', km')" "free_frames km1 \<le> free_frames km' + 2"
    using pt_map_ok [OF pt1(1)] by blast
  then show ?thesis using alloc by (simp add: install_def)
qed

text \<open>What a successful installation gives: the page, and only it, translates to a frame
  that was free before; the frame is zeroed; no other data frame changes.\<close>

definition installed :: "usize \<Rightarrow> VirtPageNum \<Rightarrow> PTEFlags \<Rightarrow> kmem \<Rightarrow> PageTable \<Rightarrow> FrameTracker \<Rightarrow> kmem \<Rightarrow> PageTable \<Rightarrow> bool" where
  "installed base v flags km pt t km' pt' \<longleftrightarrow>
    pt_invar base km' pt' \<and> root_ppn pt' = root_ppn pt
    \<and> pt_view (phys km) (root_ppn pt) v = None
    \<and> (\<forall>w. pt_view (phys km') (root_ppn pt') w =
        (if same_entry w v then Some (ft_ppn t, flags OR PTE_V) else pt_view (phys km) (root_ppn pt) w))
    \<and> ft_hold t \<and> ft_ppn t \<notin> fa_live base (falloc km) \<and> ft_ppn t \<notin> pt_owned pt'
    \<and> fa_live base (falloc km') = insert (ft_ppn t) (fa_live base (falloc km) \<union> pt_owned pt')
    \<and> pt_owned pt \<subseteq> pt_owned pt' \<and> (pt_owned pt' - pt_owned pt) \<inter> fa_live base (falloc km) = {}
    \<and> (\<forall>f. f \<in> fa_live base (falloc km) - pt_owned pt \<longrightarrow> phys km' f = phys km f)
    \<and> phys km' (ft_ppn t) = (\<lambda>_. 0)"

lemma install_spec:
  assumes inv: "pt_invar base km pt" and run: "install v flags pt km = Some (t, pt', km')"
  shows "installed base v flags km pt t km' pt'"
proof -
  obtain km1 where alloc: "frame_alloc_unwrap km = Some (t, km1)"
    and map: "pt_map v (ft_ppn t) flags pt km1 = Some (pt', km')"
    using run by (auto simp: install_def elim!: bind_eq_SomeE)
  have fa: "fa_invar base (falloc km)" using inv by (simp add: pt_invar_def)
  note a = frame_alloc_unwrap_spec [OF fa alloc] and pt1 = frame_alloc_unwrap_pt [OF inv alloc]
  note m = pt_map_spec [OF pt1(1) map a(6)] and g = pt_map_grow [OF pt1(1) map]
  have live: "ft_ppn t \<in> fa_live base (falloc km1)" using a(4) by simp
  note t = pt_grow_data_frame [OF g live pt1(3)]
  have "phys km' f = phys km f" if "f \<in> fa_live base (falloc km) - pt_owned pt" for f
  proof -
    have "f \<in> fa_live base (falloc km1)" "f \<notin> pt_owned pt" "f \<noteq> ft_ppn t" using that a(3,4) by auto
    then show ?thesis using pt_grow_data_frame(1) [OF g, of f] a(5) by simp
  qed
  moreover have "phys km' (ft_ppn t) = (\<lambda>_. 0)" using t(1) a(5) by simp
  moreover have grow: "fa_live base (falloc km') = fa_live base (falloc km1) \<union> pt_owned pt'"
    "(pt_owned pt' - pt_owned pt) \<inter> fa_live base (falloc km1) = {}" "pt_owned pt \<subseteq> pt_owned pt'"
    using g by (simp_all add: pt_grow_def)
  then have "fa_live base (falloc km') = insert (ft_ppn t) (fa_live base (falloc km) \<union> pt_owned pt')"
    "(pt_owned pt' - pt_owned pt) \<inter> fa_live base (falloc km) = {}"
    unfolding a(4) by blast+
  ultimately show ?thesis unfolding installed_def using m a(2,3) pt1(2) t(2) grow(3) by simp
qed

section \<open>Building many pages\<close>

text \<open>\<open>evolves base P km pt km' pt'\<close>: the page table stays well formed, no live frame is
  freed, and the protected frames \<open>P\<close> that are not tables keep their contents and are not
  taken as tables.\<close>

definition evolves :: "usize \<Rightarrow> PhysPageNum set \<Rightarrow> kmem \<Rightarrow> PageTable \<Rightarrow> kmem \<Rightarrow> PageTable \<Rightarrow> bool" where
  "evolves base P km pt km' pt' \<longleftrightarrow> pt_invar base km' pt' \<and> root_ppn pt' = root_ppn pt
    \<and> fa_live base (falloc km) \<subseteq> fa_live base (falloc km')
    \<and> (pt_owned pt' - pt_owned pt) \<inter> P = {}
    \<and> (\<forall>f \<in> P - pt_owned pt. phys km' f = phys km f)"

lemma evolves_refl: "pt_invar base km pt \<Longrightarrow> evolves base P km pt km pt"
  by (auto simp: evolves_def)

lemma evolves_trans:
  assumes "evolves base P km pt km1 pt1" and "evolves base P' km1 pt1 km2 pt2" and P: "P \<subseteq> P'"
  shows "evolves base P km pt km2 pt2"
proof -
  have 1: "root_ppn pt1 = root_ppn pt" "fa_live base (falloc km) \<subseteq> fa_live base (falloc km1)"
    "(pt_owned pt1 - pt_owned pt) \<inter> P = {}" "\<forall>f \<in> P - pt_owned pt. phys km1 f = phys km f"
    using assms(1) by (simp_all add: evolves_def)
  have 2: "pt_invar base km2 pt2" "root_ppn pt2 = root_ppn pt1"
    "fa_live base (falloc km1) \<subseteq> fa_live base (falloc km2)"
    "(pt_owned pt2 - pt_owned pt1) \<inter> P' = {}" "\<forall>f \<in> P' - pt_owned pt1. phys km2 f = phys km1 f"
    using assms(2) by (simp_all add: evolves_def)
  have "\<forall>f \<in> P - pt_owned pt. phys km2 f = phys km f"
  proof
    fix f assume f: "f \<in> P - pt_owned pt"
    then have "f \<in> P' - pt_owned pt1" using 1(3) P by blast
    then show "phys km2 f = phys km f" using 1(4) 2(5) f by simp
  qed
  moreover have "(pt_owned pt2 - pt_owned pt) \<inter> P = {}" using 1(3) 2(4) P by blast
  moreover have "fa_live base (falloc km) \<subseteq> fa_live base (falloc km2)" using 1(2) 2(3) by (rule subset_trans)
  ultimately show ?thesis unfolding evolves_def using 1(1) 2(1,2) by (intro conjI) simp_all
qed

lemma installedD:
  assumes "installed base v fl km pt t km' pt'"
  shows "pt_invar base km' pt'" and "root_ppn pt' = root_ppn pt"
    and "pt_view (phys km') (root_ppn pt) w =
      (if same_entry w v then Some (ft_ppn t, fl OR PTE_V) else pt_view (phys km) (root_ppn pt) w)"
    and "ft_hold t" and "ft_ppn t \<notin> fa_live base (falloc km)" and "ft_ppn t \<notin> pt_owned pt'"
    and "ft_ppn t \<in> fa_live base (falloc km')" and "fa_live base (falloc km) \<subseteq> fa_live base (falloc km')"
    and "pt_owned pt \<subseteq> pt_owned pt'"
    and "f \<in> fa_live base (falloc km) \<Longrightarrow> f \<notin> pt_owned pt \<Longrightarrow> phys km' f = phys km f"
    and "f \<in> fa_live base (falloc km) \<Longrightarrow> f \<notin> pt_owned pt \<Longrightarrow> f \<notin> pt_owned pt'"
proof -
  note d = assms [unfolded installed_def]
  show root: "root_ppn pt' = root_ppn pt" using d by (elim conjE)
  show "pt_view (phys km') (root_ppn pt) w =
      (if same_entry w v then Some (ft_ppn t, fl OR PTE_V) else pt_view (phys km) (root_ppn pt) w)"
    using d unfolding root by (elim conjE) (erule spec)
  show "pt_invar base km' pt'" "ft_hold t" "ft_ppn t \<notin> fa_live base (falloc km)" "ft_ppn t \<notin> pt_owned pt'"
    "pt_owned pt \<subseteq> pt_owned pt'" using d by blast+
  have live: "fa_live base (falloc km') = insert (ft_ppn t) (fa_live base (falloc km) \<union> pt_owned pt')"
    using d by (elim conjE)
  then show "ft_ppn t \<in> fa_live base (falloc km')" "fa_live base (falloc km) \<subseteq> fa_live base (falloc km')"
    by blast+
  show "f \<in> fa_live base (falloc km) \<Longrightarrow> f \<notin> pt_owned pt \<Longrightarrow> phys km' f = phys km f"
    "f \<in> fa_live base (falloc km) \<Longrightarrow> f \<notin> pt_owned pt \<Longrightarrow> f \<notin> pt_owned pt'" using d by blast+
qed

lemma installed_evolves:
  assumes "installed base v fl km pt t km' pt'" and "P \<subseteq> fa_live base (falloc km)"
  shows "evolves base P km pt km' pt'" and "ft_ppn t \<notin> P"
proof -
  note D = installedD [OF assms(1)]
  show "ft_ppn t \<notin> P" using D(5) assms(2) by blast
  have "(pt_owned pt' - pt_owned pt) \<inter> P = {}" using D(11) assms(2) by blast
  moreover have "\<forall>f \<in> P - pt_owned pt. phys km' f = phys km f" using D(10) assms(2) by blast
  ultimately show "evolves base P km pt km' pt'" unfolding evolves_def using D(1,2,8) by blast
qed

definition copy_frame :: "PhysPageNum \<Rightarrow> PhysPageNum \<Rightarrow> kmem \<Rightarrow> kmem" where
  "copy_frame src dst km = km\<lparr>phys := (phys km)(dst := phys km src)\<rparr>"

lemma copy_frame_simps [simp]:
  "phys (copy_frame src dst km) = (phys km)(dst := phys km src)"
  "falloc (copy_frame src dst km) = falloc km"
  "free_frames (copy_frame src dst km) = free_frames km"
  by (simp_all add: copy_frame_def free_frames_def)

lemma copy_frame_pt:
  assumes "pt_invar base km pt" and "dst \<notin> pt_owned pt"
  shows "pt_invar base (copy_frame src dst km) pt"
    and "pt_view (phys (copy_frame src dst km)) (root_ppn pt) v = pt_view (phys km) (root_ppn pt) v"
proof -
  have tree: "tree_invar (phys km) (root_ppn pt) (pt_owned pt)" using assms(1) by (simp add: pt_invar_def)
  show "pt_invar base (copy_frame src dst km) pt"
    using assms(1) pt_view_other_frame(2) [OF tree assms(2)] by (simp add: pt_invar_def)
  show "pt_view (phys (copy_frame src dst km)) (root_ppn pt) v = pt_view (phys km) (root_ppn pt) v"
    by (simp add: pt_view_other_frame(1) [OF tree assms(2)])
qed

text \<open>Duplicating pages: every entry gets a fresh frame with the contents of its source.\<close>

fun fork_pages :: "PTEFlags \<Rightarrow> (VirtPageNum \<times> FrameTracker) list \<Rightarrow> PageTable \<Rightarrow> kmem \<Rightarrow>
    ((VirtPageNum \<times> FrameTracker) list \<times> PageTable \<times> kmem) run" where
  "fork_pages fl [] pt km = ret ([], pt, km)"
| "fork_pages fl ((v, t) # es) pt km = do {
     (d, pt1, km1) \<leftarrow> install v fl pt km;
     (ds, pt2, km2) \<leftarrow> fork_pages fl es pt1 (copy_frame (ft_ppn t) (ft_ppn d) km1);
     ret ((v, d) # ds, pt2, km2) }"

definition forked :: "PTEFlags \<Rightarrow> kmem \<Rightarrow> kmem \<Rightarrow> PageTable \<Rightarrow> PhysPageNum set \<Rightarrow>
    VirtPageNum \<times> FrameTracker \<Rightarrow> VirtPageNum \<times> FrameTracker \<Rightarrow> bool" where
  "forked fl km km' pt' P = (\<lambda>(v, t) (v', d). v' = v \<and> ft_hold d \<and> ft_ppn d \<notin> P
     \<and> pt_view (phys km') (root_ppn pt') v = Some (ft_ppn d, fl OR PTE_V)
     \<and> phys km' (ft_ppn d) = phys km (ft_ppn t))"

lemma fork_step:
  assumes inv: "pt_invar base km pt" and P: "P \<subseteq> fa_live base (falloc km)" and free: "3 \<le> free_frames km"
    and unmapped: "pt_view (phys km) (root_ppn pt) v = None" and src: "ft_ppn t \<in> P - pt_owned pt"
  obtains d pt1 km1 where "install v fl pt km = Some (d, pt1, km1)"
    and "evolves base P km pt (copy_frame (ft_ppn t) (ft_ppn d) km1) pt1" and "pt_owned pt \<subseteq> pt_owned pt1"
    and "free_frames km \<le> free_frames (copy_frame (ft_ppn t) (ft_ppn d) km1) + 3"
    and "ft_hold d" and "ft_ppn d \<notin> P" and "ft_ppn d \<notin> pt_owned pt1" and "ft_ppn d \<in> fa_live base (falloc km1)"
    and "\<And>w. pt_view (phys (copy_frame (ft_ppn t) (ft_ppn d) km1)) (root_ppn pt) w =
      (if same_entry w v then Some (ft_ppn d, fl OR PTE_V) else pt_view (phys km) (root_ppn pt) w)"
    and "phys (copy_frame (ft_ppn t) (ft_ppn d) km1) (ft_ppn d) = phys km (ft_ppn t)"
proof -
  obtain d pt1 km1 where run: "install v fl pt km = Some (d, pt1, km1)"
    and free1: "free_frames km \<le> free_frames km1 + 3"
    using install_ok [OF inv free unmapped] by blast
  note inst = install_spec [OF inv run]
  note D = installedD [OF inst] and ev = installed_evolves [OF inst P]
  let ?km = "copy_frame (ft_ppn t) (ft_ppn d) km1"
  note C = copy_frame_pt [OF D(1,6), of "ft_ppn t"]
  have keep: "\<forall>f \<in> P - pt_owned pt. phys ?km f = phys km f" using ev by (auto simp: evolves_def)
  have "evolves base P km pt ?km pt1"
    using ev(1) C(1) keep by (simp add: evolves_def)
  moreover have "phys ?km (ft_ppn d) = phys km (ft_ppn t)" using ev(1) src by (simp add: evolves_def)
  ultimately show ?thesis
    using that [OF run] D(3,4,6,7,9) ev(2) free1 C(2) unfolding D(2) by simp
qed

lemma forked_later:
  assumes "forked fl km km' pt' P (v, t) (v, d)" and "phys km (ft_ppn t) = c" and "phys km0 (ft_ppn t) = c"
    and "P0 \<subseteq> P"
  shows "forked fl km0 km' pt' P0 (v, t) (v, d)"
  using assms by (auto simp: forked_def)

lemma fork_pages_ok:
  assumes "pt_invar base km pt" and "P \<subseteq> fa_live base (falloc km)" and "3 * length es \<le> free_frames km"
    and "separate (map fst es)" and "\<forall>v \<in> fst ` set es. pt_view (phys km) (root_ppn pt) v = None"
    and "\<forall>t \<in> snd ` set es. ft_ppn t \<in> P - pt_owned pt"
  shows "\<exists>ds pt' km'. fork_pages fl es pt km = Some (ds, pt', km') \<and> evolves base P km pt km' pt'
    \<and> pt_owned pt \<subseteq> pt_owned pt' \<and> free_frames km \<le> free_frames km' + 3 * length es
    \<and> list_all2 (forked fl km km' pt' P) es ds
    \<and> (\<forall>w. (\<forall>v \<in> fst ` set es. \<not> same_entry w v) \<longrightarrow>
        pt_view (phys km') (root_ppn pt') w = pt_view (phys km) (root_ppn pt) w)"
  using assms
proof (induction es arbitrary: km pt P)
  case Nil
  then show ?case by (simp add: evolves_refl)
next
  case (Cons e es)
  obtain v t where e: "e = (v, t)" by (cases e)
  have sep: "\<forall>w \<in> fst ` set es. \<not> same_entry w v" "\<forall>w \<in> fst ` set es. \<not> same_entry v w" "separate (map fst es)"
    using Cons.prems(4) by (auto simp: e separate_Cons)
  have pre: "3 \<le> free_frames km" "pt_view (phys km) (root_ppn pt) v = None" "ft_ppn t \<in> P - pt_owned pt"
    using Cons.prems(3,5,6) by (simp_all add: e)
  obtain d pt1 km1 where run: "install v fl pt km = Some (d, pt1, km1)"
    and ev: "evolves base P km pt (copy_frame (ft_ppn t) (ft_ppn d) km1) pt1"
    and own: "pt_owned pt \<subseteq> pt_owned pt1"
    and free1: "free_frames km \<le> free_frames (copy_frame (ft_ppn t) (ft_ppn d) km1) + 3"
    and d: "ft_hold d" "ft_ppn d \<notin> P" "ft_ppn d \<notin> pt_owned pt1" "ft_ppn d \<in> fa_live base (falloc km1)"
    and view1: "\<And>w. pt_view (phys (copy_frame (ft_ppn t) (ft_ppn d) km1)) (root_ppn pt) w =
      (if same_entry w v then Some (ft_ppn d, fl OR PTE_V) else pt_view (phys km) (root_ppn pt) w)"
    and data: "phys (copy_frame (ft_ppn t) (ft_ppn d) km1) (ft_ppn d) = phys km (ft_ppn t)"
    using fork_step [OF Cons.prems(1,2) pre, of fl] by blast
  define km2 where "km2 = copy_frame (ft_ppn t) (ft_ppn d) km1"
  note F = ev [folded km2_def] free1 [folded km2_def] view1 [folded km2_def] data [folded km2_def]
  have root: "root_ppn pt1 = root_ppn pt" and inv1: "pt_invar base km2 pt1" using F(1) by (simp_all add: evolves_def)
  let ?P = "insert (ft_ppn d) P"
  note E = F(1) [unfolded evolves_def]
  have "fa_live base (falloc km) \<subseteq> fa_live base (falloc km2)" using E by blast
  then have ihp1: "?P \<subseteq> fa_live base (falloc km2)" using Cons.prems(2) d(4) by (auto simp: km2_def)
  have ihp2: "3 * length es \<le> free_frames km2" using Cons.prems(3) F(2) by simp
  have ihp3: "\<forall>v \<in> fst ` set es. pt_view (phys km2) (root_ppn pt1) v = None"
    using Cons.prems(5) F(3) sep(1) unfolding root by auto
  have src: "\<forall>t \<in> snd ` set es. ft_ppn t \<in> P - pt_owned pt" using Cons.prems(6) by simp
  have ihp4: "\<forall>t \<in> snd ` set es. ft_ppn t \<in> ?P - pt_owned pt1" using src E by blast
  obtain ds pt' km' where IH: "fork_pages fl es pt1 km2 = Some (ds, pt', km')"
    "evolves base ?P km2 pt1 km' pt'" "pt_owned pt1 \<subseteq> pt_owned pt'"
    "free_frames km2 \<le> free_frames km' + 3 * length es" "list_all2 (forked fl km2 km' pt' ?P) es ds"
    "\<And>w. (\<forall>v \<in> fst ` set es. \<not> same_entry w v) \<Longrightarrow>
        pt_view (phys km') (root_ppn pt') w = pt_view (phys km2) (root_ppn pt1) w"
    using Cons.IH [OF inv1 ihp1 ihp2 sep(3) ihp3 ihp4] by blast
  have "forked fl km km' pt' P (v, t) (v, d)"
  proof -
    have "phys km' (ft_ppn d) = phys km2 (ft_ppn d)" using IH(2) d(3) by (simp add: evolves_def)
    then show ?thesis using d(1,2) IH(6) [OF sep(2)] F(3) [of v] F(4) unfolding root by (simp add: forked_def)
  qed
  moreover have "list_all2 (forked fl km km' pt' P) es ds"
  proof (rule list.rel_mono_strong [OF IH(5)])
    fix x y assume "x \<in> set es" and x: "forked fl km2 km' pt' ?P x y"
    then have "phys km2 (ft_ppn (snd x)) = phys km (ft_ppn (snd x))" using src E by blast
    then show "forked fl km km' pt' P x y" using x by (auto simp: forked_def)
  qed
  moreover have "evolves base P km pt km' pt'" using F(1) IH(2) by (rule evolves_trans [OF _ _ subset_insertI])
  moreover have "pt_owned pt \<subseteq> pt_owned pt'" using own IH(3) by (rule subset_trans)
  moreover have "free_frames km \<le> free_frames km' + 3 * length (e # es)" using F(2) IH(4) by simp
  moreover have "pt_view (phys km') (root_ppn pt') w = pt_view (phys km) (root_ppn pt) w"
    if "\<forall>v \<in> fst ` set (e # es). \<not> same_entry w v" for w
    using IH(6) [of w] F(3) [of w] that unfolding root by (simp add: e)
  moreover have "fork_pages fl (e # es) pt km = Some ((v, d) # ds, pt', km')"
    using run IH(1) by (simp add: e km2_def)
  ultimately show ?case by (intro exI [of _ "(v, d) # ds"] exI [of _ pt'] exI [of _ km']) (simp add: e)
qed

end
