(* ===== verification/Recycle_Id.thy ===== *)
theory Recycle_Id
  imports Allocator Address
begin

text \<open>
  \<^verbatim>\<open>kernel/src/task/id.rs\<close>: the recycling allocator of process, thread and kernel-stack
  numbers, and the virtual addresses that are computed from these numbers: kernel
  stacks, trap-context pages and user stacks.  The counters are natural numbers; the
  address arithmetic is done on 64-bit words.
\<close>

section \<open>The allocator\<close>

record RecycleAllocator =
  ra_current :: nat
  ra_recycled :: "nat list"

definition ra_new :: RecycleAllocator where
  "ra_new = \<lparr>ra_current = 0, ra_recycled = []\<rparr>"

definition ra_alloc :: "RecycleAllocator \<Rightarrow> nat \<times> RecycleAllocator" where
  "ra_alloc s =
    (case vec_pop (ra_recycled s) of
       Some (i, rest) \<Rightarrow> (i, s\<lparr>ra_recycled := rest\<rparr>)
     | None \<Rightarrow> let s' = s\<lparr>ra_current := ra_current s + 1\<rparr> in (ra_current s' - 1, s'))"

definition ra_dealloc :: "RecycleAllocator \<Rightarrow> nat \<Rightarrow> RecycleAllocator run" where
  "ra_dealloc s i = do {
     rust_assert (i < ra_current s);
     rust_assert (i \<notin> set (ra_recycled s));
     ret (s\<lparr>ra_recycled := vec_push (ra_recycled s) i\<rparr>) }"

section \<open>Addresses derived from numbers\<close>

definition kernel_stack_position :: "nat \<Rightarrow> usize \<times> usize" where
  "kernel_stack_position kstack_id =
    (let top = TRAMPOLINE - of_nat kstack_id * (KERNEL_STACK_SIZE + PAGE_SIZE);
         bottom = top - KERNEL_STACK_SIZE
     in (bottom, top))"

definition trap_cx_bottom_from_tid :: "nat \<Rightarrow> usize" where
  "trap_cx_bottom_from_tid tid = TRAP_CONTEXT_BASE - of_nat tid * PAGE_SIZE"

definition ustack_bottom_from_tid :: "usize \<Rightarrow> nat \<Rightarrow> usize" where
  "ustack_bottom_from_tid ustack_base tid = ustack_base + of_nat tid * (PAGE_SIZE + USER_STACK_SIZE)"

definition ustack_top_from_id :: "usize \<Rightarrow> nat \<Rightarrow> usize" where
  "ustack_top_from_id ustack_top i = ustack_top - of_nat i * (PAGE_SIZE + USER_STACK_SIZE)"

section \<open>Contract\<close>

definition ra_invar :: "RecycleAllocator \<Rightarrow> bool" where
  "ra_invar s \<longleftrightarrow> distinct (ra_recycled s) \<and> (\<forall>i \<in> set (ra_recycled s). i < ra_current s)"

definition ra_live :: "RecycleAllocator \<Rightarrow> nat set" where
  "ra_live s = {..<ra_current s} - set (ra_recycled s)"

abbreviation ra_alloc_opt :: "RecycleAllocator \<Rightarrow> nat option \<times> RecycleAllocator" where
  "ra_alloc_opt s \<equiv> map_prod Some id (ra_alloc s)"

lemma ra_alloc_spec:
  assumes "ra_invar s" and "ra_alloc s = (i, s')"
  shows "ra_invar s' \<and> i \<notin> ra_live s \<and> ra_live s' = insert i (ra_live s)"
proof (cases "ra_recycled s" rule: rev_cases)
  case Nil
  then show ?thesis using assms by (auto simp: ra_alloc_def ra_invar_def ra_live_def)
next
  case (snoc rest j)
  then show ?thesis using assms by (auto simp: ra_alloc_def ra_invar_def ra_live_def)
qed

lemma ra_dealloc_spec:
  assumes "ra_invar s" and "i \<in> ra_live s"
  shows "\<exists>s'. ra_dealloc s i = Some s' \<and> ra_invar s' \<and> ra_live s' = ra_live s - {i}"
  using assms by (auto simp: ra_dealloc_def ra_invar_def ra_live_def)

interpretation ids: id_allocator ra_alloc_opt ra_dealloc ra_live ra_invar
proof unfold_locales
  fix s i s' assume "ra_invar s" "ra_alloc_opt s = (Some i, s')"
  then show "ra_invar s' \<and> i \<notin> ra_live s \<and> ra_live s' = insert i (ra_live s)"
    using ra_alloc_spec [of s i s'] by (cases "ra_alloc s") auto
qed (use ra_dealloc_spec in \<open>auto simp: map_prod_def split: prod.splits\<close>)

text \<open>The allocator reuses numbers before it takes new ones, so the largest number ever
  handed out is bounded by the largest number of owners that existed at once.\<close>

lemma ra_alloc_bound:
  assumes "ra_alloc s = (i, s')"
  shows "ra_current s' \<le> max (ra_current s) (Suc (card (ra_live s)))"
  using assms by (cases "ra_recycled s" rule: rev_cases) (auto simp: ra_alloc_def ra_live_def)

section \<open>Kernel stacks do not overlap\<close>

lemma unat_kernel_stack_top:
  assumes "i < 2 ^ 32"
  shows "unat (snd (kernel_stack_position i)) = (2 ^ 64 - 4096) - i * 12288"
proof -
  have "snd (kernel_stack_position i) = (0xFFFFFFFFFFFFF000 :: usize) - of_nat (i * 12288)"
    by (simp add: kernel_stack_position_def config_defs Let_def)
  moreover have "unat (of_nat (i * 12288) :: usize) = i * 12288"
    using assms by (intro unat_of_nat64) simp
  moreover have "unat (0xFFFFFFFFFFFFF000 :: usize) = 2 ^ 64 - 4096" by simp
  ultimately show ?thesis
    using assms unat_sub [of "of_nat (i * 12288)" "0xFFFFFFFFFFFFF000 :: usize"]
    by (simp only: word_le_nat_alt) simp
qed

lemma high_mod_va_width:
  assumes "k + 4096 \<le> (2 :: nat) ^ 39"
  shows "(2 ^ 64 - 4096 - k) mod 2 ^ 39 = 2 ^ 39 - 4096 - k"
proof -
  have "(2 :: nat) ^ 64 - 4096 - k = (2 ^ 39 - 4096 - k) + 2 ^ 39 * (2 ^ 25 - 1)"
    using assms by simp
  also have "\<dots> mod 2 ^ 39 = (2 ^ 39 - 4096 - k) mod 2 ^ 39" by (rule mod_mult_self2)
  also have "\<dots> = 2 ^ 39 - 4096 - k" by (rule mod_less) simp
  finally show ?thesis .
qed

lemma va_kernel_stack_top:
  assumes "i < 2 ^ 25"
  shows "unat (va0 (va_from (snd (kernel_stack_position i)))) = 2 ^ 39 - 4096 - i * 12288"
proof -
  have "unat (snd (kernel_stack_position i)) = 2 ^ 64 - 4096 - i * 12288"
    using assms by (intro unat_kernel_stack_top) simp
  moreover have "i * 12288 + 4096 \<le> 2 ^ 39" using assms by simp
  ultimately show ?thesis by (simp only: unat_va_from high_mod_va_width)
qed

lemma va_kernel_stack_bottom:
  assumes "i < 2 ^ 25"
  shows "unat (va0 (va_from (fst (kernel_stack_position i)))) = 2 ^ 39 - 12288 - i * 12288"
proof -
  have top: "unat (snd (kernel_stack_position i)) = 2 ^ 64 - 4096 - i * 12288"
    using assms by (intro unat_kernel_stack_top) simp
  have "fst (kernel_stack_position i) = snd (kernel_stack_position i) - 8192"
    by (simp add: kernel_stack_position_def config_defs Let_def)
  moreover have "(8192 :: usize) \<le> snd (kernel_stack_position i)"
    using assms by (simp add: word_le_nat_alt top)
  ultimately have "unat (fst (kernel_stack_position i)) = 2 ^ 64 - 4096 - (i * 12288 + 8192)"
    using unat_sub [of "8192 :: usize" "snd (kernel_stack_position i)"] by (simp add: top)
  moreover have "(i * 12288 + 8192) + 4096 \<le> 2 ^ 39" using assms by simp
  ultimately have "unat (va0 (va_from (fst (kernel_stack_position i)))) = 2 ^ 39 - 4096 - (i * 12288 + 8192)"
    by (simp only: unat_va_from high_mod_va_width)
  then show ?thesis by simp
qed

lemma unat_trap_cx_bottom:
  assumes "tid < 2 ^ 25"
  shows "unat (va0 (va_from (trap_cx_bottom_from_tid tid))) = 2 ^ 39 - 12288 - tid * 4096"
proof -
  have "trap_cx_bottom_from_tid tid = (0xFFFFFFFFFFFFD000 :: usize) - of_nat (tid * 4096)"
    by (simp add: trap_cx_bottom_from_tid_def config_defs)
  moreover have "unat (of_nat (tid * 4096) :: usize) = tid * 4096"
    using assms by (intro unat_of_nat64) simp
  moreover have "unat (0xFFFFFFFFFFFFD000 :: usize) = 2 ^ 64 - 12288" by simp
  ultimately have "unat (trap_cx_bottom_from_tid tid) = 2 ^ 64 - 12288 - tid * 4096"
    using assms unat_sub [of "of_nat (tid * 4096)" "0xFFFFFFFFFFFFD000 :: usize"]
    by (simp only: word_le_nat_alt) simp
  then have "unat (trap_cx_bottom_from_tid tid) = 2 ^ 64 - 4096 - (tid * 4096 + 8192)"
    by simp
  moreover have "(tid * 4096 + 8192) + 4096 \<le> 2 ^ 39" using assms by simp
  ultimately have "unat (va0 (va_from (trap_cx_bottom_from_tid tid))) = 2 ^ 39 - 4096 - (tid * 4096 + 8192)"
    by (simp only: unat_va_from high_mod_va_width)
  then show ?thesis by simp
qed

section \<open>Properties\<close>

text \<open>C13: the identifier allocator (process, thread and kernel-stack numbers) never
  panics and never gives one number to two owners, for every sequence of allocations
  and drops by owners that drop only what they hold; and the numbers in use together
  with the recycled ones are exactly the numbers below \<^verbatim>\<open>current\<close>.\<close>

theorem recycle_allocator_unique_ids:
  "\<exists>s held. run_ops ra_alloc_opt ra_dealloc ops ra_new [] = Some (s, held)
    \<and> distinct held \<and> length held + length (ra_recycled s) = ra_current s
    \<and> set held \<union> set (ra_recycled s) = {..<ra_current s}"
proof -
  have "ra_invar ra_new" "set [] = ra_live ra_new"
    by (simp_all add: ra_invar_def ra_live_def ra_new_def)
  then obtain s held where run: "run_ops ra_alloc_opt ra_dealloc ops ra_new [] = Some (s, held)"
    and inv: "ra_invar s" "distinct held" "set held = ra_live s"
    using ids.run_ops_safe [of ra_new "[]" ops] by auto
  have un: "set held \<union> set (ra_recycled s) = {..<ra_current s}"
    using inv by (auto simp: ra_live_def ra_invar_def)
  have "card (set held \<union> set (ra_recycled s)) = card (set held) + card (set (ra_recycled s))"
    using inv(3) by (intro card_Un_disjoint) (auto simp: ra_live_def)
  then have "length held + length (ra_recycled s) = ra_current s"
    using inv(1,2) un by (simp add: ra_invar_def distinct_card)
  then show ?thesis using run inv(2) un by blast
qed

text \<open>C16: kernel stacks of different tasks never overlap, and between two of them lies at
  least one unmapped guard page.  This holds of the 39-bit virtual addresses that the
  stack bounds are truncated to when they are mapped.\<close>

theorem kernel_stacks_disjoint:
  assumes "i < j" and "j < 2 ^ 25"
  shows "unat (va0 (va_from (snd (kernel_stack_position j)))) + 4096
      \<le> unat (va0 (va_from (fst (kernel_stack_position i))))"
  using assms by (simp only: va_kernel_stack_top va_kernel_stack_bottom less_trans [OF assms]) simp

theorem kernel_stacks_disjoint_witness:
  "unat (va0 (va_from (snd (kernel_stack_position 3)))) + 4096
      \<le> unat (va0 (va_from (fst (kernel_stack_position 2))))"
  by (rule kernel_stacks_disjoint) simp_all

end
