(* ===== verification/Memory_Set.thy ===== *)
theory Memory_Set
  imports Page_Install Recycle_Id
begin

unbundle bit_operations_syntax

text \<open>
  \<^verbatim>\<open>kernel/src/mm/memory_set.rs\<close>: areas of pages, address spaces, the heap and the mmap
  area.  The functions thread the physical memory with the frame allocator; a
  \<^verbatim>\<open>FrameTracker\<close> that leaves a map is dropped, which frees its frame.
\<close>

section \<open>Map areas\<close>

datatype MapType = Identical | Framed | Marked

type_synonym MapPermission = u8

record MapArea =
  vpn_range :: VPNRange
  data_frames :: "(VirtPageNum, FrameTracker) btmap"
  map_type :: MapType
  map_perm :: MapPermission

definition MapArea_new :: "VirtAddr \<Rightarrow> VirtAddr \<Rightarrow> MapType \<Rightarrow> MapPermission \<Rightarrow> MapArea run" where
  "MapArea_new start_va end_va ty perm = do {
     r \<leftarrow> VPNRange_new (va_floor start_va) (va_ceil end_va);
     ret \<lparr>vpn_range = r, data_frames = [], map_type = ty, map_perm = perm\<rparr> }"

definition MapArea_from_another :: "MapArea \<Rightarrow> MapArea run" where
  "MapArea_from_another another = do {
     r \<leftarrow> VPNRange_new (range_l (vpn_range another)) (range_r (vpn_range another));
     ret \<lparr>vpn_range = r, data_frames = [], map_type = map_type another, map_perm = map_perm another\<rparr> }"

fun cover_frames :: "VirtPageNum \<Rightarrow> FrameTracker list \<Rightarrow> (VirtPageNum, FrameTracker) btmap \<Rightarrow>
    (VirtPageNum, FrameTracker) btmap" where
  "cover_frames vpn [] m = m"
| "cover_frames vpn (t # ts) m =
    cover_frames (vpn_step vpn) ts (btm_insert vpn (FrameTracker_cover (ft_ppn t)) m)"

definition MapArea_from_existed :: "VirtAddr \<Rightarrow> MapType \<Rightarrow> MapPermission \<Rightarrow> FrameTracker list \<Rightarrow> MapArea run" where
  "MapArea_from_existed start_va ty perm frame_trackers = do {
     let start_vpn = va_floor start_va;
     let end_vpn = vpn_from (vpn0 start_vpn + of_nat (length frame_trackers));
     r \<leftarrow> VPNRange_new start_vpn end_vpn;
     ret \<lparr>vpn_range = r, data_frames = cover_frames start_vpn frame_trackers [],
          map_type = ty, map_perm = perm\<rparr> }"

text \<open>Dropping a frame tracker that a map insertion replaced, and all trackers of a map.\<close>

definition drop_opt :: "FrameTracker option \<Rightarrow> kmem \<Rightarrow> kmem run" where
  "drop_opt t km = (case t of None \<Rightarrow> ret km | Some t \<Rightarrow> FrameTracker_drop t km)"

fun drop_frames :: "(VirtPageNum, FrameTracker) btmap \<Rightarrow> kmem \<Rightarrow> kmem run" where
  "drop_frames [] km = ret km"
| "drop_frames ((_, t) # m) km = do { km' \<leftarrow> FrameTracker_drop t km; drop_frames m km' }"

type_synonym area_state = "MapArea \<times> PageTable \<times> kmem"

definition map_one :: "VirtPageNum \<Rightarrow> area_state \<Rightarrow> area_state run" where
  "map_one vpn = (\<lambda>(area, pt, km). do {
     (ppn, area', km') \<leftarrow>
       (case map_type area of
          Identical \<Rightarrow> ret (PhysPageNum (vpn0 vpn), area, km)
        | Framed \<Rightarrow> do {
            (frame, km1) \<leftarrow> frame_alloc_unwrap km;
            km2 \<leftarrow> drop_opt (map_of (data_frames area) vpn) km1;
            ret (ft_ppn frame, area\<lparr>data_frames := btm_insert vpn frame (data_frames area)\<rparr>, km2) }
        | Marked \<Rightarrow> panic);
     (pt', km'') \<leftarrow> pt_map vpn ppn (map_perm area) pt km';
     ret (area', pt', km'') })"

definition map_one_unalloc :: "VirtPageNum \<Rightarrow> PhysPageNum \<Rightarrow> area_state \<Rightarrow> area_state run" where
  "map_one_unalloc vpn ppn = (\<lambda>(area, pt, km). do {
     (pt', km') \<leftarrow> pt_map vpn ppn (map_perm area) pt km;
     ret (area, pt', km') })"

definition unmap_one :: "VirtPageNum \<Rightarrow> area_state \<Rightarrow> area_state run" where
  "unmap_one vpn = (\<lambda>(area, pt, km). do {
     (area', km') \<leftarrow>
       (if map_type area = Framed then do {
          km1 \<leftarrow> drop_opt (map_of (data_frames area) vpn) km;
          ret (area\<lparr>data_frames := btm_remove vpn (data_frames area)\<rparr>, km1) }
        else ret (area, km));
     km'' \<leftarrow> pt_unmap vpn pt km';
     ret (area', pt, km'') })"

fun for_each :: "('a \<Rightarrow> 's \<Rightarrow> 's run) \<Rightarrow> 'a list \<Rightarrow> 's \<Rightarrow> 's run" where
  "for_each f [] s = ret s"
| "for_each f (x # xs) s = do { s' \<leftarrow> f x s; for_each f xs s' }"

definition area_map :: "area_state \<Rightarrow> area_state run" where
  "area_map = (\<lambda>(area, pt, km).
     case map_type area of
       Marked \<Rightarrow> for_each (\<lambda>(vpn, frame). map_one_unalloc vpn (ft_ppn frame)) (data_frames area) (area, pt, km)
     | _ \<Rightarrow> for_each map_one (range_vpns (vpn_range area)) (area, pt, km))"

definition area_unmap :: "area_state \<Rightarrow> area_state run" where
  "area_unmap = (\<lambda>(area, pt, km). for_each unmap_one (range_vpns (vpn_range area)) (area, pt, km))"

text \<open>\<^verbatim>\<open>copy_data\<close>: page by page from the start of the area, the first page from \<open>offset\<close> on.
  The loop ends when all data is copied; the fuel bounds its rounds.\<close>

fun copy_data_loop :: "nat \<Rightarrow> PageTable \<Rightarrow> u8 list \<Rightarrow> nat \<Rightarrow> nat \<Rightarrow> VirtPageNum \<Rightarrow> kmem \<Rightarrow> kmem run option" where
  "copy_data_loop 0 pt data start page_offset vpn km = None"
| "copy_data_loop (Suc fuel) pt data start page_offset vpn km =
    (let len = length data in
     case do {
       src \<leftarrow> vec_slice data start (min len (start + 4096 - page_offset));
       pte \<leftarrow> pt_translate vpn pt (phys km);
       rust_assert (page_offset + length src \<le> 4096);
       ret (km\<lparr>phys := set_bytes (pte_ppn pte) page_offset src (phys km)\<rparr>) } of
       None \<Rightarrow> Some panic
     | Some km' \<Rightarrow>
         let start' = start + 4096 - page_offset in
         if len \<le> start' then Some (ret km')
         else copy_data_loop fuel pt data start' 0 (vpn_step vpn) km')"

definition copy_data :: "nat \<Rightarrow> u8 list \<Rightarrow> nat \<Rightarrow> area_state \<Rightarrow> kmem run option" where
  "copy_data fuel data offset = (\<lambda>(area, pt, km).
     if map_type area \<noteq> Framed then Some panic
     else copy_data_loop fuel pt data 0 offset (range_l (vpn_range area)) km)"

section \<open>Memory sets\<close>

record MemorySet =
  page_table :: PageTable
  areas :: "MapArea list"
  heap_area :: "(VirtPageNum, FrameTracker) btmap"
  mmap_area :: "(VirtPageNum, FrameTracker) btmap"
  mmap_base :: VirtAddr
  mmap_end :: VirtAddr

type_synonym ms_state = "MemorySet \<times> kmem"

definition MemorySet_new_bare :: "kmem \<Rightarrow> ms_state run" where
  "MemorySet_new_bare km = do {
     (pt, km') \<leftarrow> PageTable_new km;
     ret (\<lparr>page_table = pt, areas = [], heap_area = [], mmap_area = [],
           mmap_base = va_from MMAP_BASE, mmap_end = va_from MMAP_BASE\<rparr>, km') }"

definition ms_token :: "MemorySet \<Rightarrow> usize" where
  "ms_token ms = pt_token (page_table ms)"

text \<open>\<^verbatim>\<open>push\<close> without data is the only way areas are created outside the ELF loader.\<close>

definition ms_push :: "MapArea \<Rightarrow> ms_state \<Rightarrow> ms_state run" where
  "ms_push area = (\<lambda>(ms, km). do {
     (area', pt', km') \<leftarrow> area_map (area, page_table ms, km);
     ret (ms\<lparr>page_table := pt', areas := vec_push (areas ms) area'\<rparr>, km') })"

definition ms_push_with_offset :: "nat \<Rightarrow> MapArea \<Rightarrow> nat \<Rightarrow> u8 list option \<Rightarrow> ms_state \<Rightarrow> ms_state run option" where
  "ms_push_with_offset fuel area offset data = (\<lambda>(ms, km).
     case area_map (area, page_table ms, km) of
       None \<Rightarrow> Some panic
     | Some (area', pt', km') \<Rightarrow>
         let ms' = ms\<lparr>page_table := pt', areas := vec_push (areas ms) area'\<rparr> in
         (case data of
            None \<Rightarrow> Some (ret (ms', km'))
          | Some d \<Rightarrow> map_option (map_option (Pair ms')) (copy_data fuel d offset (area', pt', km'))))"

definition insert_framed_area :: "VirtAddr \<Rightarrow> VirtAddr \<Rightarrow> MapPermission \<Rightarrow> ms_state \<Rightarrow> ms_state run" where
  "insert_framed_area start_va end_va permission st = do {
     area \<leftarrow> MapArea_new start_va end_va Framed permission;
     ms_push area st }"

fun find_area :: "VirtPageNum \<Rightarrow> nat \<Rightarrow> MapArea list \<Rightarrow> (nat \<times> MapArea) option" where
  "find_area start_vpn idx [] = None"
| "find_area start_vpn idx (area # rest) =
    (if range_l (vpn_range area) = start_vpn then Some (idx, area) else find_area start_vpn (Suc idx) rest)"

definition remove_area_with_start_vpn :: "VirtPageNum \<Rightarrow> ms_state \<Rightarrow> ms_state run" where
  "remove_area_with_start_vpn start_vpn = (\<lambda>(ms, km). do {
     (idx, area) \<leftarrow> find_area start_vpn 0 (areas ms);
     (area', pt', km1) \<leftarrow> area_unmap (area, page_table ms, km);
     km2 \<leftarrow> drop_frames (data_frames area') km1;
     ret (ms\<lparr>page_table := pt', areas := remove_nth idx (areas ms)\<rparr>, km2) })"

definition ms_pt_map :: "VirtPageNum \<Rightarrow> PhysPageNum \<Rightarrow> PTEFlags \<Rightarrow> ms_state \<Rightarrow> ms_state run" where
  "ms_pt_map vpn ppn flags = (\<lambda>(ms, km). do {
     (pt', km') \<leftarrow> pt_map vpn ppn flags (page_table ms) km;
     ret (ms\<lparr>page_table := pt'\<rparr>, km') })"

text \<open>The linker symbols are the addresses of the kernel image.\<close>

record linker_symbols =
  stext :: usize
  etext :: usize
  srodata :: usize
  erodata :: usize
  sdata :: usize
  edata :: usize
  sbss_with_stack :: usize
  ebss :: usize
  ekernel :: usize
  strampoline :: usize
  ssignaltrampoline :: usize

definition map_trampoline :: "linker_symbols \<Rightarrow> ms_state \<Rightarrow> ms_state run" where
  "map_trampoline ls st = do {
     vpn \<leftarrow> vpn_from_va (va_from TRAMPOLINE);
     ppn \<leftarrow> ppn_from_pa (pa_from (strampoline ls));
     ms_pt_map vpn ppn (PTE_R OR PTE_X) st }"

definition map_signaltrampoline :: "linker_symbols \<Rightarrow> ms_state \<Rightarrow> ms_state run" where
  "map_signaltrampoline ls st = do {
     vpn \<leftarrow> vpn_from_va (va_from SIGNAL_TRAMPOLINE);
     ppn \<leftarrow> ppn_from_pa (pa_from (ssignaltrampoline ls));
     ms_pt_map vpn ppn (PTE_R OR PTE_X OR PTE_U) st }"

definition MMIO :: "(usize \<times> usize) list" where
  "MMIO = [(0x100000, 0x2000), (0x10001000, 0x1000)]"

definition push_identical :: "usize \<Rightarrow> usize \<Rightarrow> MapPermission \<Rightarrow> ms_state \<Rightarrow> ms_state run" where
  "push_identical s e perm st = do {
     area \<leftarrow> MapArea_new (va_from s) (va_from e) Identical perm;
     ms_push area st }"

definition new_kernel :: "linker_symbols \<Rightarrow> kmem \<Rightarrow> ms_state run" where
  "new_kernel ls km = do {
     st0 \<leftarrow> MemorySet_new_bare km;
     st1 \<leftarrow> map_trampoline ls st0;
     st2 \<leftarrow> push_identical (stext ls) (etext ls) (PTE_R OR PTE_X) st1;
     st3 \<leftarrow> push_identical (srodata ls) (erodata ls) PTE_R st2;
     st4 \<leftarrow> push_identical (sdata ls) (edata ls) (PTE_R OR PTE_W) st3;
     st5 \<leftarrow> push_identical (sbss_with_stack ls) (ebss ls) (PTE_R OR PTE_W) st4;
     st6 \<leftarrow> push_identical (ekernel ls) MEMORY_END (PTE_R OR PTE_W) st5;
     for_each (\<lambda>(b, l). push_identical b (b + l) (PTE_R OR PTE_W)) MMIO st6 }"

section \<open>Fork\<close>

definition fork_page :: "MemorySet \<Rightarrow> VirtPageNum \<Rightarrow> ms_state \<Rightarrow> ms_state run" where
  "fork_page user_space vpn = (\<lambda>(ms, km). do {
     src \<leftarrow> pt_translate vpn (page_table user_space) (phys km);
     dst \<leftarrow> pt_translate vpn (page_table ms) (phys km);
     ret (ms, copy_frame (pte_ppn src) (pte_ppn dst) km) })"

definition fork_area :: "MemorySet \<Rightarrow> MapArea \<Rightarrow> ms_state \<Rightarrow> ms_state run" where
  "fork_area user_space area st = do {
     new_area \<leftarrow> MapArea_from_another area;
     st1 \<leftarrow> ms_push new_area st;
     for_each (fork_page user_space) (range_vpns (vpn_range area)) st1 }"

definition fork_heap_page :: "VirtPageNum \<times> FrameTracker \<Rightarrow> ms_state \<Rightarrow> ms_state run" where
  "fork_heap_page = (\<lambda>(vpn, src_frame) (ms, km). do {
     (dst_frame, km1) \<leftarrow> frame_alloc_unwrap km;
     (pt', km2) \<leftarrow> pt_map vpn (ft_ppn dst_frame) (PTE_U OR PTE_R OR PTE_W) (page_table ms) km1;
     km3 \<leftarrow> drop_opt (map_of (heap_area ms) vpn) km2;
     ret (ms\<lparr>page_table := pt', heap_area := btm_insert vpn dst_frame (heap_area ms)\<rparr>,
          copy_frame (ft_ppn src_frame) (ft_ppn dst_frame) km3) })"

definition fork_mmap_page :: "VirtPageNum \<times> FrameTracker \<Rightarrow> ms_state \<Rightarrow> ms_state run" where
  "fork_mmap_page = (\<lambda>(vpn, src_frame) (ms, km). do {
     (dst_frame, km1) \<leftarrow> frame_alloc_unwrap km;
     (pt', km2) \<leftarrow> pt_map vpn (ft_ppn dst_frame) (PTE_U OR PTE_R OR PTE_W) (page_table ms) km1;
     km3 \<leftarrow> drop_opt (map_of (mmap_area ms) vpn) km2;
     ret (ms\<lparr>page_table := pt', mmap_area := btm_insert vpn dst_frame (mmap_area ms)\<rparr>,
          copy_frame (ft_ppn src_frame) (ft_ppn dst_frame) km3) })"

definition from_existed_user :: "linker_symbols \<Rightarrow> MemorySet \<Rightarrow> kmem \<Rightarrow> ms_state run" where
  "from_existed_user ls user_space km = do {
     st0 \<leftarrow> MemorySet_new_bare km;
     st1 \<leftarrow> map_trampoline ls st0;
     (ms2, km2) \<leftarrow> map_signaltrampoline ls st1;
     st3 \<leftarrow> for_each (fork_area user_space) (areas user_space) (ms2\<lparr>mmap_end := mmap_end user_space\<rparr>, km2);
     st4 \<leftarrow> for_each fork_heap_page (heap_area user_space) st3;
     for_each fork_mmap_page (mmap_area user_space) st4 }"

section \<open>Operations of a process on its address space\<close>

definition ms_translate :: "VirtPageNum \<Rightarrow> MemorySet \<Rightarrow> phys_mem \<Rightarrow> PageTableEntry option" where
  "ms_translate vpn ms m = pt_translate vpn (page_table ms) m"

definition clear_dirty_bit :: "VirtPageNum \<Rightarrow> ms_state \<Rightarrow> ms_state" where
  "clear_dirty_bit vpn = (\<lambda>(ms, km). (ms, snd (delete_pte_flags vpn PTE_D (page_table ms) km)))"

definition recycle_data_pages :: "ms_state \<Rightarrow> ms_state run" where
  "recycle_data_pages = (\<lambda>(ms, km). do {
     km' \<leftarrow> for_each (\<lambda>area. drop_frames (data_frames area)) (areas ms) km;
     ret (ms\<lparr>areas := []\<rparr>, km') })"

fun map_heap :: "nat \<Rightarrow> VirtAddr \<Rightarrow> VirtAddr \<Rightarrow> ms_state \<Rightarrow> (int \<times> ms_state) run option" where
  "map_heap fuel current_addr aim_addr (ms, km) =
    (if va0 aim_addr \<le> va0 current_addr then Some (ret (SUCCESS, (ms, km)))
     else case fuel of
       0 \<Rightarrow> None
     | Suc fuel' \<Rightarrow>
         (case do {
            (frame, km1) \<leftarrow> frame_alloc_unwrap km;
            let vpn = va_floor current_addr;
            (pt', km2) \<leftarrow> pt_map vpn (ft_ppn frame) (PTE_U OR PTE_R OR PTE_W) (page_table ms) km1;
            km3 \<leftarrow> drop_opt (map_of (heap_area ms) vpn) km2;
            ret (ms\<lparr>page_table := pt', heap_area := btm_insert vpn frame (heap_area ms)\<rparr>, km3) } of
            None \<Rightarrow> Some panic
          | Some st' \<Rightarrow> map_heap fuel' (va_from (va0 current_addr + PAGE_SIZE)) aim_addr st'))"

definition align_up :: "usize \<Rightarrow> usize" where
  "align_up a = (a + PAGE_SIZE - 1) AND NOT (PAGE_SIZE - 1)"

definition MAP_FIXED :: u32 where "MAP_FIXED = 0x10"
definition MAP_ANONYMOUS :: u32 where "MAP_ANONYMOUS = 0x20"

definition flag_contains :: "'a :: len word \<Rightarrow> 'a word \<Rightarrow> bool" where
  "flag_contains flags f = (flags AND f = f)"

definition mmap_page :: "VirtPageNum \<Rightarrow> ms_state \<Rightarrow> ms_state run" where
  "mmap_page vpn = (\<lambda>(ms, km). do {
     (frame, km1) \<leftarrow> frame_alloc_unwrap km;
     km2 \<leftarrow> drop_opt (map_of (mmap_area ms) vpn) km1;
     (pt', km3) \<leftarrow> pt_map vpn (ft_ppn frame) (PTE_R OR PTE_W OR PTE_U OR PTE_X) (page_table ms) km2;
     ret (ms\<lparr>page_table := pt', mmap_area := btm_insert vpn frame (mmap_area ms)\<rparr>, km3) })"

definition mmap_page_fixed :: "VirtPageNum \<Rightarrow> ms_state \<Rightarrow> ms_state run" where
  "mmap_page_fixed vpn = (\<lambda>(ms, km).
     case map_of (mmap_area ms) vpn of
       Some _ \<Rightarrow> ret (ms, km)
     | None \<Rightarrow> mmap_page vpn (ms, km))"

fun mmap_context_loop :: "nat \<Rightarrow> PageTable \<Rightarrow> u8 list \<Rightarrow> nat \<Rightarrow> nat \<Rightarrow> VirtPageNum \<Rightarrow> kmem \<Rightarrow> kmem run option" where
  "mmap_context_loop 0 pt context start len vpn km = None"
| "mmap_context_loop (Suc fuel) pt context start len vpn km =
    (case do {
       src \<leftarrow> vec_slice context start (min len (start + 4096));
       pte \<leftarrow> pt_translate vpn pt (phys km);
       ret (km\<lparr>phys := set_bytes (pte_ppn pte) 0 src (phys km)\<rparr>) } of
       None \<Rightarrow> Some panic
     | Some km' \<Rightarrow>
         if len \<le> start + 4096 then Some (ret km')
         else mmap_context_loop fuel pt context (start + 4096) len (vpn_step vpn) km')"

definition ms_mmap :: "nat \<Rightarrow> usize \<Rightarrow> usize \<Rightarrow> usize \<Rightarrow> u8 list \<Rightarrow> u32 \<Rightarrow> ms_state \<Rightarrow> (int \<times> ms_state) run option" where
  "ms_mmap fuel start_addr len offset context flags = (\<lambda>(ms, km).
     let fixed = flag_contains flags MAP_FIXED \<and> start_addr \<noteq> 0;
         start_addr_align = align_up (if fixed then start_addr else va0 (mmap_end ms));
         end_addr_align = align_up ((if fixed then start_addr else va0 (mmap_end ms)) + len);
         ms1 = ms\<lparr>mmap_end := va_from (end_addr_align + PAGE_SIZE)\<rparr>
     in case do {
          r \<leftarrow> VPNRange_new (va_floor (va_from start_addr_align)) (va_floor (va_from end_addr_align));
          (ms2, km2) \<leftarrow> for_each (if fixed then mmap_page_fixed else mmap_page) (range_vpns r) (ms1, km);
          ret (r, ms2, km2) } of
          None \<Rightarrow> Some panic
        | Some (r, ms2, km2) \<Rightarrow>
            if flag_contains flags MAP_ANONYMOUS then Some (ret (sint start_addr_align, (ms2, km2)))
            else map_option (map_option (\<lambda>km3. (sint start_addr_align, (ms2, km3))))
              (mmap_context_loop fuel (page_table ms2) context (unat offset) (unat len) (range_l r) km2))"

definition munmap_page :: "VirtPageNum \<Rightarrow> ms_state \<Rightarrow> ms_state run" where
  "munmap_page vpn = (\<lambda>(ms, km). do {
     km' \<leftarrow> drop_opt (map_of (mmap_area ms) vpn) km;
     ret (ms\<lparr>mmap_area := btm_remove vpn (mmap_area ms)\<rparr>, km') })"

definition ms_munmap :: "usize \<Rightarrow> usize \<Rightarrow> ms_state \<Rightarrow> (int \<times> ms_state) run" where
  "ms_munmap start_addr len st = do {
     r \<leftarrow> VPNRange_new (va_floor (va_from (align_up start_addr))) (va_floor (va_from (align_up (start_addr + len))));
     st' \<leftarrow> for_each munmap_page (range_vpns r) st;
     ret (SUCCESS, st') }"

fun mprotect_loop :: "VirtPageNum list \<Rightarrow> PTEFlags \<Rightarrow> PageTable \<Rightarrow> kmem \<Rightarrow> int \<times> kmem" where
  "mprotect_loop [] new_flags pt km = (SUCCESS, km)"
| "mprotect_loop (vpn # vs) new_flags pt km =
    (case set_pte_flags vpn new_flags pt km of
       (False, km') \<Rightarrow> (EPERM, km')
     | (True, km') \<Rightarrow> mprotect_loop vs new_flags pt km')"

definition mprotect :: "VirtAddr \<Rightarrow> VirtAddr \<Rightarrow> PTEFlags \<Rightarrow> ms_state \<Rightarrow> (int \<times> ms_state) run" where
  "mprotect start end new_flags = (\<lambda>(ms, km). do {
     r \<leftarrow> VPNRange_new (va_floor start) (va_ceil end);
     let (e, km') = mprotect_loop (range_vpns r) new_flags (page_table ms) km;
     ret (e, (ms, km')) })"

definition map_app_data :: "VirtAddr \<Rightarrow> MapPermission \<Rightarrow> FrameTracker list \<Rightarrow> ms_state \<Rightarrow> ms_state run" where
  "map_app_data start_va perm frame_trackers st = do {
     area \<leftarrow> MapArea_from_existed start_va Marked perm frame_trackers;
     ms_push area st }"

definition PROT_READ :: u32 where "PROT_READ = 1"
definition PROT_WRITE :: u32 where "PROT_WRITE = 2"
definition PROT_EXEC :: u32 where "PROT_EXEC = 4"

definition prot_into_flags :: "u32 \<Rightarrow> PTEFlags" where
  "prot_into_flags p =
    (let f0 = PTE_U;
         f1 = (if flag_contains p PROT_READ then f0 OR PTE_R else f0);
         f2 = (if flag_contains p PROT_WRITE then f1 OR PTE_W else f1);
         f3 = (if flag_contains p PROT_EXEC then f2 OR PTE_X else f2)
     in f3)"

end
