(* ===== verification/Process_Control.thy ===== *)
theory Process_Control
  imports Sync Memory_Set Fd_Table
begin

text \<open>
  The state of the kernel that processes share and the bookkeeping of processes and threads:
  the process control block (\<^verbatim>\<open>kernel/src/task/process.rs\<close>), signal actions
  (\<^verbatim>\<open>task/action.rs\<close>), kernel stacks and user resources of threads (\<^verbatim>\<open>task/id.rs\<close>) and the
  map from identifiers to processes (\<^verbatim>\<open>task/manager.rs\<close>).

  A process is named by its identifier, which it keeps until its control block is dropped; a
  weak reference that can no longer be upgraded is a missing entry of \<^verbatim>\<open>procs\<close>.  The kernel
  state extends the scheduler state of \<^verbatim>\<open>Task\<close>; physical memory and the frame
  allocator are those of \<^verbatim>\<open>Frame_Allocator\<close>, address spaces those of \<^verbatim>\<open>Memory_Set\<close>.
  The lists of mutexes, semaphores and condition variables of a process, which nothing uses, are left out.
\<close>

unbundle bit_operations_syntax

section \<open>Signal actions and resource usage\<close>

type_synonym SignalFlags = usize

record SignalAction =
  sa_handler :: usize
  sa_flags :: u32
  sa_restorer :: usize
  sa_mask :: SignalFlags

definition MAX_SIG :: nat where "MAX_SIG = 63"
definition SIG_DFL :: usize where "SIG_DFL = 0"
definition SA_RESTORER :: u32 where "SA_RESTORER = 0x04000000"

definition SignalAction_default :: SignalAction where
  "SignalAction_default = \<lparr>sa_handler = SIG_DFL, sa_flags = 0, sa_restorer = 0, sa_mask = 40\<rparr>"

definition SignalActions_default :: "SignalAction list" where
  "SignalActions_default = replicate (MAX_SIG + 1) SignalAction_default"

text \<open>The counters of \<^verbatim>\<open>Rusage\<close> after the two times are always zero.\<close>

record Rusage =
  ru_utime :: TimeVal
  ru_stime :: TimeVal

definition Rusage_new :: Rusage where
  "Rusage_new = \<lparr>ru_utime = TimeVal_new, ru_stime = TimeVal_new\<rparr>"

section \<open>Processes and the kernel\<close>

record 'f ProcessControlBlock =
  is_zombie :: bool
  memory_set :: MemorySet
  parent :: "nat option"
  children :: "nat list"
  exit_code :: int
  fd_table :: "'f FileDescriptor FdTable"
  working_inode :: "'f FileDescriptor"
  signals_pending :: SignalFlags
  signal_mask :: SignalFlags
  tasks :: "nat option list"
  task_res_allocator :: RecycleAllocator
  heap_base :: VirtAddr
  heap_end :: VirtAddr
  signal_actions :: "SignalAction list"
  tms :: Times
  exit_signal :: SignalFlags
  futex :: Futex
  self_exe :: string
  rusage :: Rusage

record 'f kernel = sched +
  km :: kmem
  kernel_space :: MemorySet
  pid_allocator :: RecycleAllocator
  kstack_allocator :: RecycleAllocator
  next_task :: nat
  procs :: "nat \<Rightarrow> 'f ProcessControlBlock option"
  pid2pcb :: "nat list"

definition IDLE_PID :: nat where "IDLE_PID = 0"

definition upd_proc :: "nat \<Rightarrow> ('f ProcessControlBlock \<Rightarrow> 'f ProcessControlBlock) \<Rightarrow> 'f kernel \<Rightarrow> 'f kernel" where
  "upd_proc pid f k = k\<lparr>procs := (procs k)(pid := map_option f (procs k pid))\<rparr>"

definition upd_task :: "nat \<Rightarrow> (TaskControlBlock \<Rightarrow> TaskControlBlock) \<Rightarrow> 'f kernel \<Rightarrow> 'f kernel" where
  "upd_task t f k = k\<lparr>tcb := (tcb k)(t := f (tcb k t))\<rparr>"

text \<open>\<^verbatim>\<open>current_process\<close>: the running task must exist, and its process must not be dropped.\<close>

definition current_process :: "'f kernel \<Rightarrow> (nat \<times> 'f ProcessControlBlock) run" where
  "current_process k = do {
     t \<leftarrow> current k;
     p \<leftarrow> procs k (task_process (tcb k t));
     ret (task_process (tcb k t), p) }"

definition pid2process :: "nat \<Rightarrow> 'f kernel \<Rightarrow> nat option" where
  "pid2process pid k = (if pid \<in> set (pid2pcb k) then Some pid else None)"

definition insert_into_pid2process :: "nat \<Rightarrow> 'f kernel \<Rightarrow> 'f kernel" where
  "insert_into_pid2process pid k = k\<lparr>pid2pcb := List.insert pid (pid2pcb k)\<rparr>"

definition remove_from_pid2process :: "nat \<Rightarrow> 'f kernel \<Rightarrow> 'f kernel run" where
  "remove_from_pid2process pid k = do {
     rust_assert (pid \<in> set (pid2pcb k));
     ret (k\<lparr>pid2pcb := removeAll pid (pid2pcb k)\<rparr>) }"

definition get_task :: "nat \<Rightarrow> 'f ProcessControlBlock \<Rightarrow> nat run" where
  "get_task tid p = do { t \<leftarrow> vec_get (tasks p) tid; t }"

definition thread_count :: "'f ProcessControlBlock \<Rightarrow> nat" where
  "thread_count p = length (tasks p)"

text \<open>An operation on the address space of a process.\<close>

definition with_memory :: "nat \<Rightarrow> (ms_state \<Rightarrow> ms_state run) \<Rightarrow> 'f kernel \<Rightarrow> 'f kernel run" where
  "with_memory pid f k = do {
     p \<leftarrow> procs k pid;
     (ms, m) \<leftarrow> f (memory_set p, km k);
     ret (k\<lparr>km := m, procs := (procs k)(pid \<mapsto> p\<lparr>memory_set := ms\<rparr>)\<rparr>) }"

section \<open>Kernel stacks\<close>

definition kstack_top :: "nat \<Rightarrow> usize" where
  "kstack_top kstack = snd (kernel_stack_position kstack)"

definition kstack_alloc :: "'f kernel \<Rightarrow> (nat \<times> 'f kernel) run" where
  "kstack_alloc k = do {
     let (kstack_id, a) = ra_alloc (kstack_allocator k);
     let (bottom, top) = kernel_stack_position kstack_id;
     (ms, m) \<leftarrow> insert_framed_area (va_from bottom) (va_from top) (PTE_R OR PTE_W) (kernel_space k, km k);
     ret (kstack_id, k\<lparr>kstack_allocator := a, kernel_space := ms, km := m\<rparr>) }"

definition kstack_drop :: "nat \<Rightarrow> 'f kernel \<Rightarrow> 'f kernel run" where
  "kstack_drop kstack_id k = do {
     vpn \<leftarrow> vpn_from_va (va_from (fst (kernel_stack_position kstack_id)));
     (ms, m) \<leftarrow> remove_area_with_start_vpn vpn (kernel_space k, km k);
     a \<leftarrow> ra_dealloc (kstack_allocator k) kstack_id;
     ret (k\<lparr>kernel_space := ms, km := m, kstack_allocator := a\<rparr>) }"

section \<open>User resources of threads\<close>

definition alloc_user_res :: "bool \<Rightarrow> TaskUserRes \<Rightarrow> ms_state \<Rightarrow> (TaskUserRes \<times> ms_state) run" where
  "alloc_user_res alloc_user_stack res st = do {
     let top = ustack_top_from_id (res_ustack_top res) (res_tid res);
     st \<leftarrow> (if alloc_user_stack
           then insert_framed_area (va_from (top - USER_STACK_SIZE)) (va_from top) (PTE_R OR PTE_W OR PTE_U) st
           else ret st);
     let bottom = trap_cx_bottom_from_tid (res_tid res);
     st \<leftarrow> insert_framed_area (va_from bottom) (va_from (bottom + PAGE_SIZE)) (PTE_R OR PTE_W) st;
     ret (res\<lparr>self_stack := alloc_user_stack\<rparr>, st) }"

definition dealloc_user_res :: "TaskUserRes \<Rightarrow> ms_state \<Rightarrow> ms_state run" where
  "dealloc_user_res res st = do {
     st \<leftarrow> (if self_stack res then do {
              vpn \<leftarrow> vpn_from_va (va_from (ustack_top_from_id (res_ustack_top res) (res_tid res) - USER_STACK_SIZE));
              remove_area_with_start_vpn vpn st }
           else ret st);
     vpn \<leftarrow> vpn_from_va (va_from (trap_cx_bottom_from_tid (res_tid res)));
     remove_area_with_start_vpn vpn st }"

definition TaskUserRes_new :: "nat \<Rightarrow> usize \<Rightarrow> bool \<Rightarrow> bool \<Rightarrow> 'f kernel \<Rightarrow> (TaskUserRes \<times> 'f kernel) run" where
  "TaskUserRes_new pid ustack_top alloc_res alloc_stack k = do {
     p \<leftarrow> procs k pid;
     let (tid, a) = ra_alloc (task_res_allocator p);
     let res = \<lparr>res_tid = tid, res_ustack_top = ustack_top, self_stack = True\<rparr>;
     (res, ms, m) \<leftarrow> (if alloc_res then alloc_user_res alloc_stack res (memory_set p, km k) else ret (res, memory_set p, km k));
     ret (res, k\<lparr>km := m, procs := (procs k)(pid \<mapsto> p\<lparr>memory_set := ms, task_res_allocator := a\<rparr>)\<rparr>) }"

definition TaskUserRes_drop :: "nat \<Rightarrow> TaskUserRes \<Rightarrow> 'f kernel \<Rightarrow> 'f kernel run" where
  "TaskUserRes_drop pid res k = do {
     p \<leftarrow> procs k pid;
     a \<leftarrow> ra_dealloc (task_res_allocator p) (res_tid res);
     (ms, m) \<leftarrow> dealloc_user_res res (memory_set p, km k);
     ret (k\<lparr>km := m, procs := (procs k)(pid \<mapsto> p\<lparr>memory_set := ms, task_res_allocator := a\<rparr>)\<rparr>) }"

definition trap_cx_ppn_of :: "TaskUserRes \<Rightarrow> nat \<Rightarrow> 'f kernel \<Rightarrow> PhysPageNum run" where
  "trap_cx_ppn_of res pid k = do {
     p \<leftarrow> procs k pid;
     vpn \<leftarrow> vpn_from_va (va_from (trap_cx_bottom_from_tid (res_tid res)));
     pte \<leftarrow> ms_translate vpn (memory_set p) (phys (km k));
     ret (pte_ppn pte) }"

definition TaskControlBlock_new :: "nat \<Rightarrow> usize \<Rightarrow> bool \<Rightarrow> bool \<Rightarrow> 'f kernel \<Rightarrow> (nat \<times> 'f kernel) run" where
  "TaskControlBlock_new pid ustack_top alloc_res alloc_stack k = do {
     (res, k) \<leftarrow> TaskUserRes_new pid ustack_top alloc_res alloc_stack k;
     ppn \<leftarrow> trap_cx_ppn_of res pid k;
     (kstack, k) \<leftarrow> kstack_alloc k;
     let t = next_task k;
     ret (t, k\<lparr>next_task := t + 1, tcb := (tcb k)(t := TaskControlBlock_init pid kstack res ppn)\<rparr>) }"

section \<open>The trap context of a task\<close>

definition get_trap_cx :: "nat \<Rightarrow> 'f kernel \<Rightarrow> TrapContext" where
  "get_trap_cx t k = load_trap_cx (phys (km k)) (trap_cx_ppn (tcb k t))"

definition put_trap_cx :: "nat \<Rightarrow> TrapContext \<Rightarrow> 'f kernel \<Rightarrow> 'f kernel" where
  "put_trap_cx t cx k = k\<lparr>km := (km k)\<lparr>phys := store_trap_cx (trap_cx_ppn (tcb k t)) cx (phys (km k))\<rparr>\<rparr>"

definition set_reg :: "nat \<Rightarrow> usize \<Rightarrow> TrapContext \<Rightarrow> TrapContext" where
  "set_reg i v cx = cx\<lparr>tc_x := (tc_x cx)[i := v]\<rparr>"

lemma get_put_trap_cx [simp]: "length (tc_x cx) = 32 \<Longrightarrow> get_trap_cx t (put_trap_cx t cx k) = cx"
  by (simp add: get_trap_cx_def put_trap_cx_def)

lemma length_get_trap_cx [simp]: "length (tc_x (get_trap_cx t k)) = 32"
  by (simp add: get_trap_cx_def)

lemma put_trap_cx_simps [simp]: "tcb (put_trap_cx t cx k) = tcb k" "procs (put_trap_cx t cx k) = procs k"
  "current (put_trap_cx t cx k) = current k"
  by (simp_all add: put_trap_cx_def)

lemma length_set_reg [simp]: "length (tc_x (set_reg i v cx)) = length (tc_x cx)"
  by (simp add: set_reg_def)

section \<open>Dropping tasks\<close>

text \<open>A control block is dropped with the last reference to it: in the queues of the scheduler,
  the timers, and the threads and futex queues of its process.\<close>

definition task_referenced :: "nat \<Rightarrow> 'f kernel \<Rightarrow> bool" where
  "task_referenced t k \<longleftrightarrow> t \<in> set (ready_queue k) \<or> t \<in> set (block_queue k) \<or> current k = Some t
    \<or> t \<in> timer_task ` set (timers k)
    \<or> (case procs k (task_process (tcb k t)) of
         Some p \<Rightarrow> Some t \<in> set (tasks p) \<or> list_ex (\<lambda>(_, q). t \<in> set q) (futex p)
       | None \<Rightarrow> False)"

definition release_task :: "nat \<Rightarrow> 'f kernel \<Rightarrow> 'f kernel run" where
  "release_task t k =
    (if task_referenced t k then ret k
     else do {
       k \<leftarrow> kstack_drop (task_kstack (tcb k t)) k;
       case task_res (tcb k t) of
         Some res \<Rightarrow> TaskUserRes_drop (task_process (tcb k t)) res k
       | None \<Rightarrow> ret k })"

section \<open>An example state\<close>

text \<open>One process with one thread on the processor and empty address spaces.\<close>

definition ex_space :: MemorySet where
  "ex_space = \<lparr>page_table = \<lparr>root_ppn = ppn_from 0, pt_frames = []\<rparr>, areas = [], heap_area = [], mmap_area = [],
     mmap_base = va_from MMAP_BASE, mmap_end = va_from MMAP_BASE\<rparr>"

definition ex_pcb :: "unit ProcessControlBlock" where
  "ex_pcb = \<lparr>is_zombie = False, memory_set = ex_space, parent = None, children = [], exit_code = 0,
     fd_table = FdTable_new [], working_inode = \<lparr>cloexec = False, nonblock = False, fd_file = ()\<rparr>,
     signals_pending = 0, signal_mask = 0, tasks = [Some 5], task_res_allocator = \<lparr>ra_current = 1, ra_recycled = []\<rparr>,
     heap_base = va_from 0, heap_end = va_from 0, signal_actions = SignalActions_default, tms = Times_new,
     exit_signal = 0, futex = [], self_exe = [], rusage = Rusage_new\<rparr>"

definition ex_kernel :: "unit kernel" where
  "ex_kernel = \<lparr>tcb = (\<lambda>_. idle_task\<lparr>task_process := 3\<rparr>), ready_queue = [], block_queue = [], current = Some 5, timers = [],
     km = \<lparr>phys = (\<lambda>_ _. 7), falloc = fa_new\<rparr>, kernel_space = ex_space, pid_allocator = \<lparr>ra_current = 4, ra_recycled = []\<rparr>,
     kstack_allocator = \<lparr>ra_current = 1, ra_recycled = []\<rparr>, next_task = 6, procs = [3 \<mapsto> ex_pcb], pid2pcb = [3]\<rparr>"

end
