(* ===== verification/Signal.thy ===== *)
theory Signal
  imports Process_Control
begin

text \<open>
  Signals: \<^verbatim>\<open>kernel/src/task/signal.rs\<close>, the delivery of signals in \<^verbatim>\<open>task/mod.rs\<close>, the
  system calls of \<^verbatim>\<open>syscall/signal.rs\<close> and the part of \<^verbatim>\<open>trap/mod.rs\<close> that surrounds a system
  call.  Every bit of a word is a signal, so \<^verbatim>\<open>SignalFlags::from_bits\<close> always succeeds.
\<close>

unbundle bit_operations_syntax

section \<open>Signal sets\<close>

text \<open>\<^verbatim>\<open>1 << n\<close>.\<close>

definition sig_bit :: "nat \<Rightarrow> SignalFlags" where
  "sig_bit n = push_bit n 1"

definition SIGINT :: SignalFlags where "SIGINT = sig_bit 1"
definition SIGILL :: SignalFlags where "SIGILL = sig_bit 3"
definition SIGABRT :: SignalFlags where "SIGABRT = sig_bit 5"
definition SIGFPE :: SignalFlags where "SIGFPE = sig_bit 7"
definition SIGKILL :: SignalFlags where "SIGKILL = sig_bit 8"
definition SIGSEGV :: SignalFlags where "SIGSEGV = sig_bit 10"
definition SIGCHLD :: SignalFlags where "SIGCHLD = sig_bit 16"
definition SIGCONT :: SignalFlags where "SIGCONT = sig_bit 17"
definition SIGSTOP :: SignalFlags where "SIGSTOP = sig_bit 18"
definition SIGCANCEL :: SignalFlags where "SIGCANCEL = sig_bit 32"

definition SIG_BLOCK :: nat where "SIG_BLOCK = 0"
definition SIG_UNBLOCK :: nat where "SIG_UNBLOCK = 1"
definition SIG_SETMASK :: nat where "SIG_SETMASK = 2"

definition sig_contains :: "SignalFlags \<Rightarrow> SignalFlags \<Rightarrow> bool" where
  "sig_contains s f \<longleftrightarrow> s AND f = f"

text \<open>\<^verbatim>\<open>1 << (signum - 1)\<close>: the subtraction wraps and the shift takes its amount modulo 64.\<close>

definition signum_flag :: "usize \<Rightarrow> SignalFlags" where
  "signum_flag signum = sig_bit (unat (signum - 1) mod 64)"

definition check_error :: "SignalFlags \<Rightarrow> (int \<times> string) option" where
  "check_error s =
    (if sig_contains s SIGINT then Some (-2, ''Killed, SIGINT=2'')
     else if sig_contains s SIGILL then Some (-4, ''Illegal Instruction, SIGILL=4'')
     else if sig_contains s SIGABRT then Some (-6, ''Aborted, SIGABRT=6'')
     else if sig_contains s SIGFPE then Some (-8, ''Erroneous Arithmetic Operation, SIGFPE=8'')
     else if sig_contains s SIGKILL then Some (-9, ''Application being killed, SIGSEGV=9'')
     else if sig_contains s SIGSEGV then Some (-11, ''Segmentation Fault, SIGSEGV=11'')
     else None)"

definition check_signals_of_current_process :: "'f kernel \<Rightarrow> (int \<times> string) option run" where
  "check_signals_of_current_process k = do {
     (_, p) \<leftarrow> current_process k;
     ret (check_error (signals_pending p)) }"

definition check_signals_of_current_thread :: "'f kernel \<Rightarrow> (int \<times> string) option run" where
  "check_signals_of_current_thread k = do {
     t \<leftarrow> current k;
     ret (check_error (signal_pending (tcb k t))) }"

definition current_add_signal :: "SignalFlags \<Rightarrow> 'f kernel \<Rightarrow> 'f kernel run" where
  "current_add_signal signal k = do {
     (pid, _) \<leftarrow> current_process k;
     ret (upd_proc pid (\<lambda>p. p\<lparr>signals_pending := signals_pending p OR signal\<rparr>) k) }"

section \<open>Delivery\<close>

definition call_kernel_signal_handler :: "SignalFlags \<Rightarrow> 'f kernel \<Rightarrow> 'f kernel run" where
  "call_kernel_signal_handler signal k = do {
     t \<leftarrow> current k;
     (pid, p) \<leftarrow> current_process k;
     if signal = SIGSTOP then
       ret (upd_proc pid (\<lambda>p. p\<lparr>signals_pending := signals_pending p XOR SIGSTOP\<rparr>) (upd_task t (\<lambda>c. c\<lparr>frozen := True\<rparr>) k))
     else if signal = SIGCONT then
       (if sig_contains (signals_pending p) SIGCONT
        then ret (upd_proc pid (\<lambda>p. p\<lparr>signals_pending := signals_pending p XOR SIGCONT\<rparr>) (upd_task t (\<lambda>c. c\<lparr>frozen := False\<rparr>) k))
        else ret k)
     else ret (upd_task t (\<lambda>c. c\<lparr>killed := True\<rparr>) k) }"

definition call_user_signal_handler :: "nat \<Rightarrow> SignalFlags \<Rightarrow> bool \<Rightarrow> 'f kernel \<Rightarrow> 'f kernel run" where
  "call_user_signal_handler sig signal thread k = do {
     t \<leftarrow> current k;
     (pid, p) \<leftarrow> current_process k;
     action \<leftarrow> vec_get (signal_actions p) sig;
     if sa_handler action \<noteq> 0 then do {
       let k = upd_proc pid (\<lambda>p. p\<lparr>signal_mask := sa_mask action\<rparr>) k;
       let k = upd_task t (\<lambda>c. c\<lparr>handling_sig := int sig\<rparr>) k;
       let k = (if thread then upd_task t (\<lambda>c. c\<lparr>signal_pending := signal_pending c XOR signal\<rparr>) k
                else upd_proc pid (\<lambda>p. p\<lparr>signals_pending := signals_pending p XOR signal\<rparr>) k);
       let trap_ctx = get_trap_cx t k;
       let k = upd_task t (\<lambda>c. c\<lparr>trap_ctx_backup := Some trap_ctx\<rparr>) k;
       let trap_ctx = trap_ctx\<lparr>tc_sepc := sa_handler action\<rparr>;
       let trap_ctx = set_reg 10 (of_nat sig) trap_ctx;
       let trap_ctx = set_reg 1 (if flag_contains (sa_flags action) SA_RESTORER then sa_restorer action else SIGNAL_TRAMPOLINE) trap_ctx;
       ret (put_trap_cx t trap_ctx k) }
     else ret (upd_task t (\<lambda>c. c\<lparr>killed := True\<rparr>) k) }"

text \<open>The signal may be handled now: it is pending and not masked, and when a handler is running
  its mask does not contain the signal.  An index out of the table panics.\<close>

definition may_handle :: "SignalFlags \<Rightarrow> SignalFlags \<Rightarrow> TaskControlBlock \<Rightarrow> 'f ProcessControlBlock \<Rightarrow> bool run" where
  "may_handle pending signal c p =
    (if sig_contains pending signal \<and> \<not> sig_contains (signal_mask p) signal
     then if handling_sig c = -1 then ret True
          else do {
            action \<leftarrow> (if handling_sig c < 0 then panic else vec_get (signal_actions p) (nat (handling_sig c)));
            ret (\<not> sig_contains (sa_mask action) signal) }
     else ret False)"

text \<open>The loop over the signals of the process; a user signal ends it.\<close>

fun check_pending_loop :: "nat list \<Rightarrow> 'f kernel \<Rightarrow> 'f kernel run" where
  "check_pending_loop [] k = ret k"
| "check_pending_loop (sig # sigs) k = do {
     t \<leftarrow> current k;
     (_, p) \<leftarrow> current_process k;
     let signal = sig_bit sig;
     handle \<leftarrow> may_handle (signals_pending p) signal (tcb k t) p;
     if handle then
       (if signal = SIGKILL \<or> signal = SIGSTOP \<or> signal = SIGCONT then do {
          k \<leftarrow> call_kernel_signal_handler signal k;
          check_pending_loop sigs k }
        else call_user_signal_handler sig signal False k)
     else check_pending_loop sigs k }"

definition check_pending_signals :: "'f kernel \<Rightarrow> 'f kernel run" where
  "check_pending_signals k = do {
     t \<leftarrow> current k;
     (_, p) \<leftarrow> current_process k;
     handle \<leftarrow> may_handle (signal_pending (tcb k t)) SIGCANCEL (tcb k t) p;
     k \<leftarrow> (if handle then call_user_signal_handler 33 SIGCANCEL True k else ret k);
     check_pending_loop [0..<MAX_SIG + 1] k }"

text \<open>\<^verbatim>\<open>handle_signals\<close>: a frozen task gives up the processor until it is resumed, when the loop goes
  on with \<^verbatim>\<open>handle_signals_loop\<close>.  The flag tells that the function has returned.\<close>

definition handle_signals_loop :: "'f kernel \<Rightarrow> (bool \<times> 'f kernel) run" where
  "handle_signals_loop k = do {
     t \<leftarrow> current k;
     if \<not> frozen (tcb k t) \<or> killed (tcb k t) then ret (True, k)
     else do {
       k \<leftarrow> check_pending_signals k;
       k \<leftarrow> suspend_current_and_run_next k;
       ret (False, k) } }"

definition handle_signals :: "'f kernel \<Rightarrow> (bool \<times> 'f kernel) run" where
  "handle_signals k = do {
     k \<leftarrow> check_pending_signals k;
     handle_signals_loop k }"

section \<open>System calls\<close>

text \<open>A pointer argument is the value behind it, \<open>None\<close> for a null pointer; what is written through a
  pointer is part of the result.\<close>

definition sys_sigprocmask :: "nat \<Rightarrow> usize option \<Rightarrow> 'f kernel \<Rightarrow> (int \<times> usize \<times> 'f kernel) run" where
  "sys_sigprocmask how uset k = do {
     (pid, p) \<leftarrow> current_process k;
     let mask = signal_mask p;
     case uset of
       None \<Rightarrow> ret (SUCCESS, mask, k)
     | Some set_flags \<Rightarrow>
         (let put = (\<lambda>m. ret (SUCCESS, mask, upd_proc pid (\<lambda>p. p\<lparr>signal_mask := m\<rparr>) k)) in
          if how = SIG_BLOCK then put (mask OR set_flags)
          else if how = SIG_UNBLOCK then put (mask AND NOT set_flags)
          else if how = SIG_SETMASK then put set_flags
          else ret (EPERM, mask, k)) }"

definition sys_sigreturn :: "'f kernel \<Rightarrow> (int \<times> 'f kernel) run" where
  "sys_sigreturn k = do {
     t \<leftarrow> current k;
     let k = upd_task t (\<lambda>c. c\<lparr>handling_sig := -1\<rparr>) k;
     cx \<leftarrow> trap_ctx_backup (tcb k t);
     ret (SUCCESS, put_trap_cx t cx k) }"

definition check_sigaction_error :: "SignalFlags \<Rightarrow> bool" where
  "check_sigaction_error signal \<longleftrightarrow> signal = SIGKILL \<or> signal = SIGSTOP"

text \<open>The old action is written before the signal is checked; writing it again afterwards gives the
  same value, and in the default case only a copy is changed.\<close>

definition sys_sigaction :: "usize \<Rightarrow> SignalAction option \<Rightarrow> bool \<Rightarrow> 'f kernel \<Rightarrow> (int \<times> SignalAction option \<times> 'f kernel) run" where
  "sys_sigaction signum action old_action k = do {
     (pid, p) \<leftarrow> current_process k;
     if of_nat MAX_SIG < signum then ret (EPERM, None, k)
     else do {
       old_kernel_action \<leftarrow> vec_get (signal_actions p) (unat signum);
       let old = (if old_action then Some old_kernel_action else None);
       if check_sigaction_error (signum_flag signum) then ret (EPERM, old, k)
       else case action of
         None \<Rightarrow> ret (SUCCESS, old, k)
       | Some a \<Rightarrow> ret (SUCCESS, old, upd_proc pid (\<lambda>p. p\<lparr>signal_actions := (signal_actions p)[unat signum := a]\<rparr>) k) } }"

definition sys_kill :: "nat \<Rightarrow> usize \<Rightarrow> 'f kernel \<Rightarrow> int \<times> 'f kernel" where
  "sys_kill pid signum k =
    (case pid2process pid k of
       Some q \<Rightarrow> (0, upd_proc q (\<lambda>p. p\<lparr>signals_pending := signals_pending p OR signum_flag signum\<rparr>) k)
     | None \<Rightarrow> (-1, k))"

definition sys_tkill :: "nat \<Rightarrow> usize \<Rightarrow> 'f kernel \<Rightarrow> (int \<times> 'f kernel) run" where
  "sys_tkill tid signum k = do {
     (pid, p) \<leftarrow> current_process k;
     let tid = (if tid = pid then 0 else if tid = 0 then pid else tid);
     t \<leftarrow> get_task tid p;
     ret (SUCCESS, upd_task t (\<lambda>c. c\<lparr>signal_pending := signal_pending c OR signum_flag signum\<rparr>) k) }"

text \<open>One round of the loop of \<^verbatim>\<open>sys_sigtimedwait\<close> at time \<open>now\<close>: the number of the lowest matching
  signal, a timeout, or another round when the task runs again.\<close>

definition SigInfo_new :: "nat \<Rightarrow> u32 \<times> u32 \<times> u32" where
  "SigInfo_new si_signo = (of_nat si_signo, 0, 0)"

definition trailing_zeros :: "usize \<Rightarrow> nat" where
  "trailing_zeros w = length (takeWhile (\<lambda>n. \<not> bit w n) [0..<64])"

definition sigtimedwait_round :: "TimeSpec \<Rightarrow> SignalFlags \<Rightarrow> TimeSpec \<Rightarrow> 'f kernel \<Rightarrow>
    ((int \<times> (u32 \<times> u32 \<times> u32) option) option \<times> 'f kernel) run" where
  "sigtimedwait_round limit_time set_flags now k = do {
     (_, p) \<leftarrow> current_process k;
     let match_signals = set_flags AND signals_pending p;
     if match_signals \<noteq> 0 then ret (Some (SUCCESS, Some (SigInfo_new (trailing_zeros match_signals))), k)
     else if limit_time < now then ret (Some (EAGAIN, None), k)
     else do {
       k \<leftarrow> suspend_current_and_run_next k;
       ret (None, k) } }"

section \<open>Trap handler\<close>

text \<open>A trap for a system call: the next instruction, the call, its result in register 10.\<close>

definition trap_user_env_call :: "('f kernel \<Rightarrow> (int \<times> 'f kernel) run) \<Rightarrow> 'f kernel \<Rightarrow> 'f kernel run" where
  "trap_user_env_call syscall k = do {
     t \<leftarrow> current k;
     let cx = get_trap_cx t k;
     let k = put_trap_cx t (cx\<lparr>tc_sepc := tc_sepc cx + 4\<rparr>) k;
     (result, k) \<leftarrow> syscall k;
     t \<leftarrow> current k;
     ret (put_trap_cx t (set_reg 10 (of_int result) (get_trap_cx t k)) k) }"

section \<open>Which signal is handled\<close>

lemma bit_sig_bit [simp]: "bit (sig_bit m) n \<longleftrightarrow> m = n \<and> n < 64"
  by (auto simp: sig_bit_def bit_push_bit_iff bit_1_iff simp del: push_bit_of_1)

lemma sig_contains_bit: "n < 64 \<Longrightarrow> sig_contains s (sig_bit n) \<longleftrightarrow> bit s n"
  by (auto simp: sig_contains_def bit_and_iff bit_eq_iff [of "s AND sig_bit n" "sig_bit n"])

lemma sig_bit_eq: "m < 64 \<Longrightarrow> n < 64 \<Longrightarrow> sig_bit m = sig_bit n \<longleftrightarrow> m = n"
  by (metis bit_sig_bit)

definition handled_by_kernel :: "nat \<Rightarrow> bool" where
  "handled_by_kernel sig \<longleftrightarrow> sig \<in> {8, 17, 18}"

lemma kernel_signal_iff: "sig < 64 \<Longrightarrow>
    sig_bit sig = SIGKILL \<or> sig_bit sig = SIGSTOP \<or> sig_bit sig = SIGCONT \<longleftrightarrow> handled_by_kernel sig"
  by (auto simp: SIGKILL_def SIGSTOP_def SIGCONT_def handled_by_kernel_def sig_bit_eq)

text \<open>Outside a handler, the signals that can be handled are those pending and not masked.\<close>

lemma may_handle_idle: "n < 64 \<Longrightarrow> handling_sig c = -1 \<Longrightarrow>
    may_handle pending (sig_bit n) c p = Some (bit pending n \<and> \<not> bit (signal_mask p) n)"
  by (simp add: may_handle_def sig_contains_bit)

lemma check_pending_skip:
  assumes "current k = Some t" and "procs k (task_process (tcb k t)) = Some p" and "handling_sig (tcb k t) = -1"
    and "\<forall>i \<in> set sigs. i < 64 \<and> \<not> (bit (signals_pending p) i \<and> \<not> bit (signal_mask p) i)"
  shows "check_pending_loop (sigs @ rest) k = check_pending_loop rest k"
  using assms by (induction sigs) (auto simp: current_process_def may_handle_idle Let_def)

lemma check_pending_first:
  assumes cur: "current k = Some t" "procs k (task_process (tcb k t)) = Some p" "handling_sig (tcb k t) = -1"
    and none: "\<not> bit (signal_pending (tcb k t)) 32" and sig: "sig < 64" "\<not> handled_by_kernel sig"
    and pend: "bit (signals_pending p) sig" "\<not> bit (signal_mask p) sig"
    and least: "\<forall>i < sig. \<not> (bit (signals_pending p) i \<and> \<not> bit (signal_mask p) i)"
  shows "check_pending_signals k = call_user_signal_handler sig (sig_bit sig) False k"
proof -
  have split: "[0..<MAX_SIG + 1] = [0..<sig] @ sig # [Suc sig..<64]"
    using sig(1) upt_add_eq_append [of 0 sig "64 - sig"] by (simp add: MAX_SIG_def upt_conv_Cons)
  have "check_pending_signals k = check_pending_loop ([0..<sig] @ sig # [Suc sig..<64]) k"
    using cur none by (simp add: check_pending_signals_def current_process_def SIGCANCEL_def may_handle_idle split del: if_split flip: split)
  also have "\<dots> = check_pending_loop (sig # [Suc sig..<64]) k"
    using sig(1) least by (intro check_pending_skip [OF cur]) auto
  also have "\<dots> = call_user_signal_handler sig (sig_bit sig) False k"
    using cur pend sig kernel_signal_iff [OF sig(1)] by (simp add: current_process_def may_handle_idle Let_def)
  finally show ?thesis .
qed

lemmas upd_defs = upd_proc_def upd_task_def put_trap_cx_def


definition ex_action :: SignalAction where
  "ex_action = \<lparr>sa_handler = 0x1000, sa_flags = 0, sa_restorer = 0, sa_mask = 0\<rparr>"

lemma ex_kernel_simps [simp]: "current ex_kernel = Some 5" "procs ex_kernel 3 = Some ex_pcb" "tcb ex_kernel 5 = idle_task\<lparr>task_process := 3\<rparr>"
  by (simp_all add: ex_kernel_def)

lemma idle_task_simps [simp]: "handling_sig idle_task = -1" "\<not> frozen idle_task" "\<not> killed idle_task" "signal_pending idle_task = 0"
  by (simp_all add: idle_task_def TaskControlBlock_init_def)


text \<open>C37: returning from a handler through the trap handler does not restore the interrupted task completely: the
  trap handler stores the result of \<^verbatim>\<open>sys_sigreturn\<close> in a0 after the context was brought back, so the interrupted a0
  is lost, and the signal mask stays that of the action.\<close>

theorem sigreturn_loses_a0_and_mask:
  assumes "current k = Some t" and "trap_ctx_backup (tcb k t) = Some cx" and "length (tc_x cx) = 32"
    and "procs k (task_process (tcb k t)) = Some p"
  shows "\<exists>k' p'. trap_user_env_call sys_sigreturn k = Some k' \<and> get_trap_cx t k' = set_reg 10 0 cx
    \<and> procs k' (task_process (tcb k t)) = Some p' \<and> signal_mask p' = signal_mask p"
proof -
  let ?k1 = "put_trap_cx t ((get_trap_cx t k)\<lparr>tc_sepc := tc_sepc (get_trap_cx t k) + 4\<rparr>) k"
  let ?k2 = "put_trap_cx t cx (upd_task t (\<lambda>c. c\<lparr>handling_sig := -1\<rparr>) ?k1)"
  have "sys_sigreturn ?k1 = Some (SUCCESS, ?k2)" using assms(1,2) by (simp add: sys_sigreturn_def Let_def) (simp add: upd_task_def)
  moreover have "get_trap_cx t ?k2 = cx" "current ?k2 = Some t" "procs ?k2 = procs k"
    using assms(1,3) by simp_all (simp_all add: upd_task_def)
  ultimately show ?thesis using assms by (simp add: trap_user_env_call_def Let_def SUCCESS_def)
qed

theorem sigreturn_loses_a0_and_mask_witness:
  "\<exists>k'. trap_user_env_call sys_sigreturn (upd_task 5 (\<lambda>c. c\<lparr>trap_ctx_backup := Some (get_trap_cx 5 ex_kernel)\<rparr>) ex_kernel) = Some k'
     \<and> tc_x (get_trap_cx 5 ex_kernel) ! 10 = 7 \<and> tc_x (get_trap_cx 5 k') ! 10 = 0"
proof -
  let ?k = "upd_task 5 (\<lambda>c. c\<lparr>trap_ctx_backup := Some (get_trap_cx 5 ex_kernel)\<rparr>) ex_kernel"
  have "current ?k = Some 5" "trap_ctx_backup (tcb ?k 5) = Some (get_trap_cx 5 ex_kernel)" "procs ?k (task_process (tcb ?k 5)) = Some ex_pcb"
    by (simp_all add: upd_task_def)
  from sigreturn_loses_a0_and_mask [OF this(1,2) length_get_trap_cx this(3)] show ?thesis
    by (auto simp: set_reg_def get_trap_cx_def [of 5 ex_kernel] load_trap_cx_def) (simp add: ex_kernel_def)
qed

text \<open>C36: the handler that a process installs for a signal is not the one that the signal runs.
  \<^verbatim>\<open>sys_sigaction\<close> stores the action of signal \<open>n\<close> at index \<open>n\<close> of the table, \<^verbatim>\<open>sys_kill\<close> sets bit \<open>n - 1\<close> and the
  delivery looks up the index of the bit: for a process with default actions that installs a handler for \<open>n\<close>
  and is sent \<open>n\<close>, the handler does not run and the task is marked as killed.\<close>

theorem sigaction_handler_not_called:
  assumes "current k = Some t" and "procs k (task_process (tcb k t)) = Some p" and "task_process (tcb k t) \<in> set (pid2pcb k)"
    and "handling_sig (tcb k t) = -1" and "\<not> frozen (tcb k t)" and "signal_pending (tcb k t) = 0"
    and "signal_actions p = SignalActions_default" and "signals_pending p = 0" and "signal_mask p = 0"
    and "0 < unat n" and "unat n < 64" and "\<not> handled_by_kernel (unat n - 1)"
  shows "\<exists>k1 k2 k3. sys_sigaction n (Some act) False k = Some (SUCCESS, None, k1) \<and> sys_kill (task_process (tcb k t)) n k1 = (0, k2)
    \<and> handle_signals k2 = Some (True, k3) \<and> get_trap_cx t k3 = get_trap_cx t k \<and> killed (tcb k3 t)"
proof -
  let ?pid = "task_process (tcb k t)"
  have n1: "unat (n - 1) = unat n - 1" "unat (n - 1) mod 64 = unat n - 1" using assms(10,11) by (simp_all add: unat_minus_one word_neq_0_conv unat_gt_0)
  have fl: "signum_flag n = sig_bit (unat n - 1)" by (simp only: signum_flag_def n1(2))
  have ok: "\<not> check_sigaction_error (signum_flag n)"
    using kernel_signal_iff [of "unat n - 1"] assms(11,12) by (auto simp: fl check_sigaction_error_def)
  have le: "\<not> of_nat MAX_SIG < n" using assms(11) by (simp add: word_less_nat_alt MAX_SIG_def)
  let ?p1 = "p\<lparr>signal_actions := SignalActions_default[unat n := act]\<rparr>" and ?p2 = "p\<lparr>signal_actions := SignalActions_default[unat n := act], signals_pending := sig_bit (unat n - 1)\<rparr>"
  let ?k1 = "k\<lparr>procs := (procs k)(?pid \<mapsto> ?p1)\<rparr>" and ?k2 = "k\<lparr>procs := (procs k)(?pid \<mapsto> ?p2)\<rparr>"
  have "sys_sigaction n (Some act) False k = Some (SUCCESS, None, ?k1)"
    using assms(1,2,7,11) ok le by (simp add: sys_sigaction_def current_process_def vec_get_def SignalActions_default_def MAX_SIG_def upd_proc_def)
  moreover have "sys_kill ?pid n ?k1 = (0, ?k2)"
    using assms(2,3,8) by (simp add: sys_kill_def pid2process_def upd_proc_def fl)
  moreover have "handle_signals ?k2 = Some (True, upd_task t (\<lambda>c. c\<lparr>killed := True\<rparr>) ?k2)"
  proof -
    have "check_pending_signals ?k2 = call_user_signal_handler (unat n - 1) (sig_bit (unat n - 1)) False ?k2"
      by (rule check_pending_first [where t = t and p = ?p2]) (use assms in \<open>auto simp: bit_0\<close>)
    also have "\<dots> = Some (upd_task t (\<lambda>c. c\<lparr>killed := True\<rparr>) ?k2)"
      using assms(1,10,11) by (simp add: call_user_signal_handler_def current_process_def vec_get_def SignalActions_default_def MAX_SIG_def
          SignalAction_default_def SIG_DFL_def)
    finally show ?thesis using assms(1,5) by (simp add: handle_signals_def handle_signals_loop_def) (simp add: upd_task_def)
  qed
  moreover have "get_trap_cx t (upd_task t (\<lambda>c. c\<lparr>killed := True\<rparr>) ?k2) = get_trap_cx t k" by (simp add: get_trap_cx_def upd_task_def)
  ultimately show ?thesis by (auto simp: upd_task_def)
qed

theorem sigaction_handler_not_called_witness:
  "\<exists>k1 k2 k3. sys_sigaction 10 (Some ex_action) False ex_kernel = Some (SUCCESS, None, k1) \<and> sys_kill 3 10 k1 = (0, k2)
    \<and> handle_signals k2 = Some (True, k3) \<and> tc_sepc (get_trap_cx 5 k3) = 7 \<and> killed (tcb k3 5)"
proof -
  have "pid2pcb ex_kernel = [3]" "signal_actions ex_pcb = SignalActions_default" "signals_pending ex_pcb = 0" "signal_mask ex_pcb = 0"
    "tc_sepc (get_trap_cx 5 ex_kernel) = 7"
    by (simp_all add: ex_kernel_def ex_pcb_def get_trap_cx_def load_trap_cx_def)
  then show ?thesis using sigaction_handler_not_called [of ex_kernel 5 ex_pcb 10 ex_action] by (auto simp: handled_by_kernel_def)
qed

end
