(* ===== verification/Process.thy ===== *)
theory Process
  imports Signal
begin

text \<open>
  Life of processes and threads: \<^verbatim>\<open>fork\<close> and \<^verbatim>\<open>clone2\<close> (\<^verbatim>\<open>kernel/src/task/process.rs\<close>),
  \<^verbatim>\<open>exit_current_and_run_next\<close> (\<^verbatim>\<open>task/mod.rs\<close>), waiting for children and threads and the
  other system calls of \<^verbatim>\<open>syscall/process.rs\<close> and \<^verbatim>\<open>syscall/thread.rs\<close>.  The functions use
  the whole kernel state: address spaces, frames, kernel stacks, queues and descriptor tables.
\<close>

unbundle bit_operations_syntax

section \<open>Creating processes and threads\<close>

text \<open>\<^verbatim>\<open>fork\<close>; \<open>cwd\<close> is the descriptor that opening the root directory gives.\<close>

definition fork_child :: "nat \<Rightarrow> 'f FileDescriptor \<Rightarrow> MemorySet \<Rightarrow> 'f ProcessControlBlock \<Rightarrow> 'f ProcessControlBlock" where
  "fork_child ppid cwd ms p =
    \<lparr>is_zombie = False, memory_set = ms, parent = Some ppid, children = [], exit_code = 0,
     fd_table = FdTable_new (inner (fd_table p)), working_inode = cwd, signals_pending = signals_pending p, signal_mask = 0,
     tasks = [], task_res_allocator = ra_new, heap_base = heap_base p, heap_end = heap_base p,
     signal_actions = SignalActions_default, tms = Times_new, exit_signal = SIGCHLD, futex = [],
     self_exe = self_exe p, rusage = Rusage_new\<rparr>"

definition fork :: "linker_symbols \<Rightarrow> 'f FileDescriptor \<Rightarrow> nat \<Rightarrow> 'f kernel \<Rightarrow> (nat \<times> 'f kernel) run" where
  "fork ls cwd ppid k = do {
     p \<leftarrow> procs k ppid;
     rust_assert (thread_count p = 1);
     (ms, m) \<leftarrow> from_existed_user ls (memory_set p) (km k);
     let (pid, a) = ra_alloc (pid_allocator k);
     let k = k\<lparr>km := m, pid_allocator := a, procs := (procs k)(pid \<mapsto> fork_child ppid cwd ms p)\<rparr>;
     let k = upd_proc ppid (\<lambda>p. p\<lparr>children := vec_push (children p) pid\<rparr>) k;
     t0 \<leftarrow> get_task 0 p;
     res \<leftarrow> task_res (tcb k t0);
     (t, k) \<leftarrow> TaskControlBlock_new pid (res_ustack_top res) False False k;
     let k = upd_proc pid (\<lambda>p. p\<lparr>tasks := vec_push (tasks p) (Some t)\<rparr>) k;
     let k = put_trap_cx t (set_reg 10 0 ((get_trap_cx t k)\<lparr>tc_kernel_sp := kstack_top (task_kstack (tcb k t))\<rparr>)) k;
     ret (pid, add_task t (insert_into_pid2process pid k)) }"

text \<open>A new thread goes into the slot of its number, which is filled up with empty slots.\<close>

definition put_thread :: "nat \<Rightarrow> nat \<Rightarrow> 'f ProcessControlBlock \<Rightarrow> 'f ProcessControlBlock" where
  "put_thread tid t p =
    (let ts = tasks p @ replicate (tid + 1 - length (tasks p)) None in p\<lparr>tasks := ts[tid := Some t]\<rparr>)"

definition clone2 :: "usize \<Rightarrow> usize \<Rightarrow> 'f kernel \<Rightarrow> (nat \<times> 'f kernel) run" where
  "clone2 stack_ptr tls k = do {
     t \<leftarrow> current k;
     (pid, _) \<leftarrow> current_process k;
     thread_stack \<leftarrow> (if stack_ptr \<noteq> 0 then ret stack_ptr else map_option res_ustack_top (task_res (tcb k t)));
     (n, k) \<leftarrow> TaskControlBlock_new pid thread_stack True False k;
     res \<leftarrow> task_res (tcb k n);
     let k = upd_proc pid (put_thread (res_tid res) n) k;
     let cx = set_reg 4 tls (set_reg 10 0 (get_trap_cx t k));
     let cx = (set_sp (res_ustack_top res) cx)\<lparr>tc_kernel_sp := kstack_top (task_kstack (tcb k n))\<rparr>;
     ret (n, add_task n (put_trap_cx n cx k)) }"

definition CLONE_THREAD :: u32 where "CLONE_THREAD = 0x00010000"
definition CLONE_PARENT_SETTID :: u32 where "CLONE_PARENT_SETTID = 0x00100000"
definition CLONE_CHILD_CLEARTID :: u32 where "CLONE_CHILD_CLEARTID = 0x00200000"
definition CLONE_CHILD_SETTID :: u32 where "CLONE_CHILD_SETTID = 0x01000000"

text \<open>\<^verbatim>\<open>CloneFlags\<close> has all the bits from 8 to 31, and higher bits are cut off.  The values stored through
  \<open>ptid\<close> and \<open>ctid\<close> are returned.\<close>

definition sys_clone :: "linker_symbols \<Rightarrow> 'f FileDescriptor \<Rightarrow> usize \<Rightarrow> usize \<Rightarrow> usize \<Rightarrow> usize \<Rightarrow> usize \<Rightarrow> 'f kernel \<Rightarrow>
    (int \<times> nat option \<times> nat option \<times> 'f kernel) run" where
  "sys_clone ls cwd flags stack_ptr ptid tls ctid k = do {
     (pid, _) \<leftarrow> current_process k;
     let clone_signals = (ucast (flags AND NOT 0xff) :: u32);
     if \<not> flag_contains clone_signals CLONE_THREAD then do {
       rust_assert (stack_ptr = 0);
       (child, k) \<leftarrow> fork ls cwd pid k;
       ret (int child, None, None, k) }
     else do {
       (n, k) \<leftarrow> clone2 stack_ptr tls k;
       tid \<leftarrow> gettid (tcb k n);
       let ttid = (if tid = pid then 0 else tid);
       let k = (if flag_contains clone_signals CLONE_CHILD_CLEARTID then upd_task n (\<lambda>c. c\<lparr>clear_child_tid := ctid\<rparr>) k else k);
       ret (int ttid, (if flag_contains clone_signals CLONE_PARENT_SETTID \<and> ptid \<noteq> 0 then Some ttid else None),
         (if flag_contains clone_signals CLONE_CHILD_SETTID \<and> ctid \<noteq> 0 then Some ttid else None), k) } }"

definition sys_thread_create :: "usize \<Rightarrow> usize \<Rightarrow> usize \<Rightarrow> usize \<Rightarrow> 'f kernel \<Rightarrow> (int \<times> 'f kernel) run" where
  "sys_thread_create status trap_handler entry arg k = do {
     t \<leftarrow> current k;
     (pid, _) \<leftarrow> current_process k;
     top \<leftarrow> map_option res_ustack_top (task_res (tcb k t));
     (n, k) \<leftarrow> TaskControlBlock_new pid top True True k;
     let k = add_task n k;
     res \<leftarrow> task_res (tcb k n);
     let k = upd_proc pid (put_thread (res_tid res) n) k;
     let cx = app_init_context status entry (res_ustack_top res) (ms_token (kernel_space k)) (kstack_top (task_kstack (tcb k n))) trap_handler;
     ret (int (res_tid res), put_trap_cx n (set_reg 10 arg cx) k) }"

section \<open>Exit\<close>

datatype 'k exit_result = Shutdown bool | Continue 'k

text \<open>The parent is sent the exit signal, and its first task is woken when it is blocked.\<close>

definition notify_parent :: "nat \<Rightarrow> 'f kernel \<Rightarrow> 'f kernel run" where
  "notify_parent pid k = do {
     p \<leftarrow> procs k pid;
     if exit_signal p \<noteq> 0 then do {
       ppid \<leftarrow> parent p;
       pp \<leftarrow> procs k ppid;
       let k = upd_proc ppid (\<lambda>q. q\<lparr>signals_pending := signals_pending q OR exit_signal p\<rparr>) k;
       t \<leftarrow> get_task 0 pp;
       if task_status (tcb k t) = Blocked then ret (unblock_task t k) else ret k }
     else ret k }"

text \<open>\<^verbatim>\<open>INITPROC\<close> is the first process that is created.\<close>

definition INITPROC :: nat where "INITPROC = IDLE_PID"

definition adopt :: "nat \<Rightarrow> 'f kernel \<Rightarrow> 'f kernel" where
  "adopt child k =
    upd_proc INITPROC (\<lambda>q. q\<lparr>children := vec_push (children q) child\<rparr>) (upd_proc child (\<lambda>c. c\<lparr>parent := Some INITPROC\<rparr>) k)"

fun take_resources :: "nat list \<Rightarrow> 'f kernel \<Rightarrow> TaskUserRes list \<times> 'f kernel" where
  "take_resources [] k = ([], k)"
| "take_resources (t # ts) k =
    (let k = remove_inactive_task t k;
         r = task_res (tcb k t);
         (rs, k) = take_resources ts (upd_task t (\<lambda>c. c\<lparr>task_res := None\<rparr>) k)
     in (case r of Some r \<Rightarrow> r # rs | None \<Rightarrow> rs, k))"

text \<open>What \<^verbatim>\<open>exit_current_and_run_next\<close> does for the first thread of a process.\<close>

definition terminate_process :: "nat \<Rightarrow> int \<Rightarrow> 'f kernel \<Rightarrow> 'f kernel run" where
  "terminate_process pid code k = do {
     k \<leftarrow> remove_from_pid2process pid k;
     p \<leftarrow> procs k pid;
     let k = upd_proc pid (\<lambda>p. p\<lparr>is_zombie := True, exit_code := code\<rparr>) k;
     _ \<leftarrow> procs k INITPROC;
     let k = fold adopt (children p) k;
     let (rs, k) = take_resources (List.map_filter id (tasks p)) k;
     k \<leftarrow> for_each (TaskUserRes_drop pid) rs k;
     let k = upd_proc pid (\<lambda>p. p\<lparr>children := []\<rparr>) k;
     k \<leftarrow> with_memory pid recycle_data_pages k;
     let k = upd_proc pid (\<lambda>p. p\<lparr>fd_table := clear_inner (fd_table p), tasks := []\<rparr>) k;
     for_each release_task (List.map_filter id (tasks p)) k }"

definition exit_current_and_run_next :: "int \<Rightarrow> 'f kernel \<Rightarrow> 'f kernel exit_result run" where
  "exit_current_and_run_next code k = do {
     let (task, k) = take_current_task k;
     t \<leftarrow> task;
     let pid = task_process (tcb k t);
     k \<leftarrow> notify_parent pid k;
     res \<leftarrow> task_res (tcb k t);
     let k = upd_task t (\<lambda>c. c\<lparr>task_exit_code := Some code, task_res := None\<rparr>) k;
     k \<leftarrow> TaskUserRes_drop pid res k;
     if res_tid res \<noteq> 0 then ret (Continue k)
     else if pid = IDLE_PID then ret (Shutdown (code \<noteq> 0))
     else map_option Continue (terminate_process pid code k) }"

text \<open>The argument of \<^verbatim>\<open>sys_exit\<close> is an \<^verbatim>\<open>i32\<close>.\<close>

definition sys_exit :: "32 word \<Rightarrow> 'f kernel \<Rightarrow> 'f kernel exit_result run" where
  "sys_exit code k = exit_current_and_run_next (sint ((code AND 0xff) * 256)) k"

text \<open>\<^verbatim>\<open>sys_yield\<close>: the task leaves the processor; when it runs again the call goes on to \<^verbatim>\<open>panic!\<close>.\<close>

definition sys_yield :: "'f kernel \<Rightarrow> 'f kernel run" where
  "sys_yield k = suspend_current_and_run_next k"

definition sys_yield_resumed :: "'f kernel \<Rightarrow> (int \<times> 'f kernel) run" where
  "sys_yield_resumed k = panic"

section \<open>Waiting\<close>

text \<open>Dropping a control block gives back the identifier and all frames.\<close>

definition ms_drop :: "MemorySet \<Rightarrow> kmem \<Rightarrow> kmem run" where
  "ms_drop ms m = do {
     m \<leftarrow> for_each FrameTracker_drop (pt_frames (page_table ms)) m;
     m \<leftarrow> for_each (\<lambda>area. drop_frames (data_frames area)) (areas ms) m;
     m \<leftarrow> drop_frames (heap_area ms) m;
     drop_frames (mmap_area ms) m }"

definition ProcessControlBlock_drop :: "nat \<Rightarrow> 'f ProcessControlBlock \<Rightarrow> 'f kernel \<Rightarrow> 'f kernel run" where
  "ProcessControlBlock_drop pid p k = do {
     a \<leftarrow> ra_dealloc (pid_allocator k) pid;
     m \<leftarrow> ms_drop (memory_set p) (km k);
     ret (k\<lparr>pid_allocator := a, km := m, procs := (procs k)(pid := None)\<rparr>) }"

definition WNOHANG :: u32 where "WNOHANG = 1"
definition WAIT_OPTIONS :: u32 where "WAIT_OPTIONS = 0x100000f"

text \<open>One round of the loop of \<^verbatim>\<open>sys_wait4\<close>: the result with the exit code that is stored, or nothing when
  the task was blocked and the loop goes on after it was woken.  The only strong references to an
  exited child are those in the map of processes and in lists of children.\<close>

definition wait4_round :: "int \<Rightarrow> u32 \<Rightarrow> 'f kernel \<Rightarrow> ((int \<times> int option) option \<times> 'f kernel) run" where
  "wait4_round pid opts k = do {
     rust_assert (opts AND NOT WAIT_OPTIONS = 0);
     (self, p) \<leftarrow> current_process k;
     let matches = (\<lambda>c. pid = -1 \<or> pid = int c);
     if \<not> list_ex matches (children p) then ret (Some (ECHILD, None), k)
     else case find (\<lambda>c. (case procs k c of Some cp \<Rightarrow> is_zombie cp | None \<Rightarrow> False) \<and> matches c) (children p) of
       Some c \<Rightarrow> do {
         let rest = remove1 c (children p);
         let k = upd_proc self (\<lambda>p. p\<lparr>children := rest\<rparr>) k;
         rust_assert (c \<notin> set (pid2pcb k) \<and> c \<notin> set rest);
         cp \<leftarrow> procs k c;
         k \<leftarrow> ProcessControlBlock_drop c cp k;
         ret (Some (int c, Some (exit_code cp)), k) }
     | None \<Rightarrow>
         (if flag_contains opts WNOHANG then ret (Some (SUCCESS, None), k)
          else do {
            k \<leftarrow> block_current_and_run_next k;
            ret (None, k) }) }"

definition sys_waittid :: "nat \<Rightarrow> 'f kernel \<Rightarrow> (int \<times> 'f kernel) run" where
  "sys_waittid tid k = do {
     t \<leftarrow> current k;
     (pid, p) \<leftarrow> current_process k;
     self \<leftarrow> gettid (tcb k t);
     if self = tid then ret (-1, k)
     else do {
       waited \<leftarrow> vec_get (tasks p) tid;
       case waited of
         None \<Rightarrow> ret (-1, k)
       | Some w \<Rightarrow>
           (case task_exit_code (tcb k w) of
              None \<Rightarrow> ret (-2, k)
            | Some code \<Rightarrow> do {
                k \<leftarrow> release_task w (upd_proc pid (\<lambda>p. p\<lparr>tasks := (tasks p)[tid := None]\<rparr>) k);
                ret (code, k) }) } }"

section \<open>Other system calls\<close>

definition sys_getpid :: "'f kernel \<Rightarrow> int run" where
  "sys_getpid k = map_option (\<lambda>(pid, _). int pid) (current_process k)"

definition sys_getppid :: "'f kernel \<Rightarrow> int run" where
  "sys_getppid k = do {
     (_, p) \<leftarrow> current_process k;
     ppid \<leftarrow> parent p;
     _ \<leftarrow> procs k ppid;
     ret (int ppid) }"

definition sys_gettid :: "'f kernel \<Rightarrow> int run" where
  "sys_gettid k = do { t \<leftarrow> current k; tid \<leftarrow> gettid (tcb k t); ret (int tid) }"

definition sys_set_tid_address :: "usize \<Rightarrow> 'f kernel \<Rightarrow> (int \<times> 'f kernel) run" where
  "sys_set_tid_address tid_ptr k = do {
     t \<leftarrow> current k;
     let k = upd_task t (\<lambda>c. c\<lparr>clear_child_tid := tid_ptr\<rparr>) k;
     tid \<leftarrow> gettid (tcb k t);
     ret (int tid, k) }"

definition sys_times :: "usize \<Rightarrow> 'f kernel \<Rightarrow> (int \<times> Times) run" where
  "sys_times time k = do {
     (_, p) \<leftarrow> current_process k;
     let usec = get_time_us time;
     ret (SUCCESS, (tms p)\<lparr>tms_stime := usec, tms_utime := usec, tms_cstime := usec, tms_cutime := usec\<rparr>) }"

text \<open>The heap grows page by page; the outer option of \<^verbatim>\<open>map_heap\<close> is its fuel.\<close>

definition sys_brk :: "nat \<Rightarrow> usize \<Rightarrow> 'f kernel \<Rightarrow> (int \<times> 'f kernel) run option" where
  "sys_brk fuel addr k =
    (case current_process k of
       None \<Rightarrow> Some panic
     | Some (pid, p) \<Rightarrow>
         if addr = 0 then Some (ret (sint (va0 (heap_end p)), k))
         else if addr < va0 (heap_base p) then Some (ret (EINVAL, k))
         else let align_addr = align_up addr;
                  align_end = align_up (va0 (heap_end p))
              in if addr \<le> align_end then Some (ret (sint align_addr, upd_proc pid (\<lambda>p. p\<lparr>heap_end := va_from addr\<rparr>) k))
                 else map_option (map_option (\<lambda>(_, ms, m).
                        (sint addr, k\<lparr>km := m, procs := (procs k)(pid \<mapsto> p\<lparr>memory_set := ms, heap_end := va_from align_addr\<rparr>)\<rparr>)))
                      (map_heap fuel (heap_end p) (va_from align_addr) (memory_set p, km k)))"

definition FUTEX_WAIT :: usize where "FUTEX_WAIT = 0"
definition FUTEX_WAKE :: usize where "FUTEX_WAKE = 1"
definition FUTEX_PRIVATE_FLAG :: usize where "FUTEX_PRIVATE_FLAG = 128"
definition FUTEX_CMD_MASK :: usize where "FUTEX_CMD_MASK = NOT (128 OR 256)"

definition sys_futex :: "usize \<Rightarrow> u32 \<Rightarrow> usize \<Rightarrow> u32 \<Rightarrow> 'f kernel \<Rightarrow> (int \<times> 'f kernel) run" where
  "sys_futex uaddr futex_word futex_op val k = do {
     rust_assert (futex_op AND FUTEX_PRIVATE_FLAG \<noteq> 0);
     (pid, p) \<leftarrow> current_process k;
     let cmd = futex_op AND FUTEX_CMD_MASK;
     if cmd = FUTEX_WAIT then do {
       (r, k, f) \<leftarrow> futex_wait uaddr futex_word val (k, futex p);
       ret (r, upd_proc pid (\<lambda>p. p\<lparr>futex := f\<rparr>) k) }
     else if cmd = FUTEX_WAKE then
       (let (r, k, f) = futex_signal uaddr val (k, futex p) in ret (r, upd_proc pid (\<lambda>p. p\<lparr>futex := f\<rparr>) k))
     else panic }"

text \<open>\<^verbatim>\<open>sys_setitimer\<close> reads the new value through the pointer to the old one, after the current value was
  stored there, and assigns it to a local copy; a null pointer there panics.\<close>

definition sys_getitimer :: "int \<Rightarrow> bool \<Rightarrow> 'f kernel \<Rightarrow> (int \<times> ITimerVal option) run" where
  "sys_getitimer which curr_value k = do {
     rust_assert (which = 0);
     if curr_value then do { t \<leftarrow> current k; ret (SUCCESS, Some (itimer (tcb k t))) }
     else ret (EINVAL, None) }"

definition sys_setitimer :: "int \<Rightarrow> bool \<Rightarrow> bool \<Rightarrow> 'f kernel \<Rightarrow> (int \<times> ITimerVal option \<times> 'f kernel) run" where
  "sys_setitimer which new_value old_value k = do {
     rust_assert (which = 0);
     t \<leftarrow> current k;
     rust_assert (new_value \<longrightarrow> old_value);
     ret (SUCCESS, (if old_value then Some (itimer (tcb k t)) else None), k) }"

end
