(* ===== verification/Process_Tree.thy ===== *)
theory Process_Tree
  imports Process
begin

text \<open>
  The tree of processes.  The kernel state is projected to the parent, the children, the
  state and the exit code of every process; \<^verbatim>\<open>fork\<close>, \<^verbatim>\<open>exit\<close> and \<^verbatim>\<open>wait4\<close> refine
  operations on such trees, whatever they do to memory, descriptors and queues.
\<close>

section \<open>Trees\<close>

record pnode =
  pn_parent :: "nat option"
  pn_children :: "nat list"
  pn_zombie :: bool
  pn_code :: int
  pn_threads :: nat

type_synonym ptree = "nat \<Rightarrow> pnode option"

definition pnode_of :: "'f ProcessControlBlock \<Rightarrow> pnode" where
  "pnode_of p = \<lparr>pn_parent = parent p, pn_children = children p, pn_zombie = is_zombie p, pn_code = exit_code p, pn_threads = thread_count p\<rparr>"

definition ptree_of :: "'f kernel \<Rightarrow> ptree" where
  "ptree_of k = (\<lambda>pid. map_option pnode_of (procs k pid))"

text \<open>The tree with the allocator of identifiers and the map of processes.\<close>

definition pview :: "'f kernel \<Rightarrow> ptree \<times> RecycleAllocator \<times> nat list" where
  "pview k = (ptree_of k, pid_allocator k, pid2pcb k)"

definition upd_node :: "nat \<Rightarrow> (pnode \<Rightarrow> pnode) \<Rightarrow> ptree \<Rightarrow> ptree" where
  "upd_node pid f T = T(pid := map_option f (T pid))"

definition t_fork :: "nat \<Rightarrow> nat \<Rightarrow> ptree \<Rightarrow> ptree" where
  "t_fork ppid pid T =
    upd_node ppid (\<lambda>n. n\<lparr>pn_children := pn_children n @ [pid]\<rparr>)
      (T(pid \<mapsto> \<lparr>pn_parent = Some ppid, pn_children = [], pn_zombie = False, pn_code = 0, pn_threads = 1\<rparr>))"

definition t_adopt :: "nat \<Rightarrow> ptree \<Rightarrow> ptree" where
  "t_adopt c T = upd_node INITPROC (\<lambda>n. n\<lparr>pn_children := pn_children n @ [c]\<rparr>) (upd_node c (\<lambda>n. n\<lparr>pn_parent := Some INITPROC\<rparr>) T)"

definition t_exit :: "nat \<Rightarrow> int \<Rightarrow> nat list \<Rightarrow> ptree \<Rightarrow> ptree" where
  "t_exit pid code cs T =
    upd_node pid (\<lambda>n. n\<lparr>pn_children := [], pn_threads := 0\<rparr>) (fold t_adopt cs (upd_node pid (\<lambda>n. n\<lparr>pn_zombie := True, pn_code := code\<rparr>) T))"

definition t_wait :: "nat \<Rightarrow> nat \<Rightarrow> ptree \<Rightarrow> ptree" where
  "t_wait self c T = (upd_node self (\<lambda>n. n\<lparr>pn_children := remove1 c (pn_children n)\<rparr>) T)(c := None)"

section \<open>What leaves the tree alone\<close>

named_theorems ptree_simps

lemma ptree_scheduler [ptree_simps]:
  "pview (unblock_task t k) = pview k" "pview (add_task t k) = pview k" "pview (upd_task t f k) = pview k"
  "pview (remove_inactive_task t k) = pview k" "pview (put_trap_cx t cx k) = pview k"
  "pview (k\<lparr>current := c\<rparr>) = pview k"
  "pview (k\<lparr>km := m\<rparr>) = pview k"
  by (simp_all add: pview_def ptree_of_def unblock_task_def Let_def set_status_def add_task_def upd_task_def remove_inactive_task_def remove_timer_def
      remove_task_def put_trap_cx_def)

lemma ptree_upd_proc: "(\<And>p. pnode_of (f p) = g (pnode_of p)) \<Longrightarrow> pview (upd_proc pid f k) = apfst (upd_node pid g) (pview k)"
  by (auto simp: pview_def ptree_of_def upd_proc_def upd_node_def fun_eq_iff option.map_comp comp_def)

lemma upd_node_id [simp]: "upd_node pid (\<lambda>n. n) T = T"
  by (simp add: upd_node_def option.map_id0 [unfolded id_def])

lemma apfst_upd_node_id [simp]: "apfst (upd_node pid (\<lambda>n. n)) v = v"
  by (cases v) simp

lemma ptree_put_same: "procs k pid = Some p \<Longrightarrow> pnode_of p' = pnode_of p \<Longrightarrow> pview (k\<lparr>procs := (procs k)(pid \<mapsto> p')\<rparr>) = pview k"
  by (auto simp: pview_def ptree_of_def fun_eq_iff)

lemma ptree_upd_proc_same: "(\<And>p. pnode_of (f p) = pnode_of p) \<Longrightarrow> pview (upd_proc pid f k) = pview k"
  using ptree_upd_proc [of f "\<lambda>n. n" pid k] by simp

lemma ptree_upd_same [ptree_simps]: "pview (upd_proc pid (\<lambda>p. p\<lparr>signals_pending := f p\<rparr>) k) = pview k"
  by (simp add: ptree_upd_proc_same pnode_of_def thread_count_def)

lemma upd_node_upd_node [simp]: "upd_node pid f (upd_node pid g T) = upd_node pid (\<lambda>n. f (g n)) T"
  by (simp add: upd_node_def option.map_comp comp_def)

lemma ptree_TaskUserRes_drop [ptree_simps]: "TaskUserRes_drop pid res k = Some k' \<Longrightarrow> pview k' = pview k"
  by (auto simp: TaskUserRes_drop_def pview_def ptree_of_def fun_eq_iff pnode_of_def thread_count_def elim!: bind_eq_SomeE)

lemma ptree_for_each: "(\<And>x k k'. f x k = Some k' \<Longrightarrow> pview k' = pview k) \<Longrightarrow> for_each f xs k = Some k' \<Longrightarrow> pview k' = pview k"
  by (induction xs arbitrary: k) (auto elim!: bind_eq_SomeE)

lemma ptree_kstack_drop: "kstack_drop i k = Some k' \<Longrightarrow> pview k' = pview k"
  by (auto simp: kstack_drop_def pview_def ptree_of_def elim!: bind_eq_SomeE)

lemma ptree_release_task: "release_task t k = Some k' \<Longrightarrow> pview k' = pview k"
  by (auto simp: release_task_def split: if_splits option.splits elim!: bind_eq_SomeE dest!: ptree_kstack_drop ptree_TaskUserRes_drop)

lemma ptree_with_memory: "with_memory pid f k = Some k' \<Longrightarrow> pview k' = pview k"
  by (auto simp: with_memory_def pview_def ptree_of_def fun_eq_iff pnode_of_def thread_count_def elim!: bind_eq_SomeE)

lemma ptree_notify_parent: "notify_parent pid k = Some k' \<Longrightarrow> pview k' = pview k"
  by (auto simp: notify_parent_def Let_def ptree_simps split: if_splits elim!: bind_eq_SomeE)

lemma ptree_take_resources: "take_resources ts k = (rs, k') \<Longrightarrow> pview k' = pview k"
  by (induction ts arbitrary: k rs k') (auto simp: Let_def ptree_simps split: prod.splits)

lemma ptree_remove_from_pid2process:
  "remove_from_pid2process pid k = Some k' \<Longrightarrow> pview k' = (ptree_of k, pid_allocator k, removeAll pid (pid2pcb k))"
  by (auto simp: remove_from_pid2process_def pview_def ptree_of_def elim!: bind_eq_SomeE)

section \<open>The operations refine those on trees\<close>

lemma ptree_adopt: "pview (adopt c k) = apfst (t_adopt c) (pview k)"
  unfolding adopt_def t_adopt_def [abs_def]
  by (subst ptree_upd_proc [where g = "\<lambda>n. n\<lparr>pn_children := pn_children n @ [c]\<rparr>"], simp add: pnode_of_def thread_count_def vec_push_def,
      subst ptree_upd_proc [where g = "\<lambda>n. n\<lparr>pn_parent := Some INITPROC\<rparr>"], simp_all add: pnode_of_def thread_count_def pview_def)

lemma ptree_fold_adopt: "pview (fold adopt cs k) = apfst (fold t_adopt cs) (pview k)"
  by (induction cs arbitrary: k) (simp_all add: ptree_adopt apfst_compose)

lemma ptree_terminate_process:
  assumes "terminate_process pid code k = Some k'"
  obtains p where "procs k pid = Some p" and "pview k' = (t_exit pid code (children p) (ptree_of k), pid_allocator k, removeAll pid (pid2pcb k))"
proof -
  obtain k1 p where k1: "remove_from_pid2process pid k = Some k1" and p: "procs k1 pid = Some p"
    using assms by (auto simp: terminate_process_def elim!: bind_eq_SomeE)
  let ?k2 = "upd_proc pid (\<lambda>p. p\<lparr>is_zombie := True, exit_code := code\<rparr>) k1" and ?ts = "List.map_filter id (tasks p)"
  obtain rs k3 where k3: "take_resources ?ts (fold adopt (children p) ?k2) = (rs, k3)" by (metis surj_pair)
  obtain k4 where k4: "for_each (TaskUserRes_drop pid) rs k3 = Some k4"
    using assms k1 p k3 by (auto simp: terminate_process_def Let_def elim!: bind_eq_SomeE)
  let ?k4 = "upd_proc pid (\<lambda>p. p\<lparr>children := []\<rparr>) k4"
  obtain k5 where k5: "with_memory pid recycle_data_pages ?k4 = Some k5"
    using assms k1 p k3 k4 by (auto simp: terminate_process_def Let_def elim!: bind_eq_SomeE)
  have k6: "for_each release_task ?ts (upd_proc pid (\<lambda>p. p\<lparr>fd_table := clear_inner (fd_table p), tasks := []\<rparr>) k5) = Some k'"
    using assms k1 p k3 k4 k5 by (auto simp: terminate_process_def Let_def elim!: bind_eq_SomeE)
  let ?k5 = "upd_proc pid (\<lambda>p. p\<lparr>fd_table := clear_inner (fd_table p), tasks := []\<rparr>) k5"
  have "pview k' = pview ?k5" using ptree_for_each [OF ptree_release_task k6] .
  also have "\<dots> = apfst (upd_node pid (\<lambda>n. n\<lparr>pn_threads := 0\<rparr>)) (pview k5)" by (rule ptree_upd_proc) (simp add: pnode_of_def thread_count_def)
  also have "pview k5 = pview ?k4" using k5 by (rule ptree_with_memory)
  also have "\<dots> = apfst (upd_node pid (\<lambda>n. n\<lparr>pn_children := []\<rparr>)) (pview k4)" by (rule ptree_upd_proc) (simp add: pnode_of_def thread_count_def)
  also have "pview k4 = apfst (fold t_adopt (children p)) (pview ?k2)"
    using ptree_for_each [OF ptree_TaskUserRes_drop k4] ptree_take_resources [OF k3] by (simp add: ptree_fold_adopt)
  also have "pview ?k2 = apfst (upd_node pid (\<lambda>n. n\<lparr>pn_zombie := True, pn_code := code\<rparr>)) (pview k1)"
    by (rule ptree_upd_proc) (simp add: pnode_of_def thread_count_def)
  also have "pview k1 = (ptree_of k, pid_allocator k, removeAll pid (pid2pcb k))" using k1 by (rule ptree_remove_from_pid2process)
  finally have eq: "pview k' = (t_exit pid code (children p) (ptree_of k), pid_allocator k, removeAll pid (pid2pcb k))" by (simp add: t_exit_def)
  have "procs k pid = Some p" using k1 p by (auto simp: remove_from_pid2process_def elim!: bind_eq_SomeE)
  then show thesis using eq by (rule that)
qed

lemma ptree_exit:
  assumes "exit_current_and_run_next code k = Some (Continue k')"
  obtains t res where "current k = Some t" and "task_res (tcb k t) = Some res"
    and "res_tid res \<noteq> 0 \<Longrightarrow> pview k' = pview k"
    and "res_tid res = 0 \<Longrightarrow> task_process (tcb k t) \<noteq> INITPROC \<and> (\<exists>n. ptree_of k (task_process (tcb k t)) = Some n
      \<and> pview k' = (t_exit (task_process (tcb k t)) code (pn_children n) (ptree_of k), pid_allocator k,
          removeAll (task_process (tcb k t)) (pid2pcb k)))"
proof -
  obtain t where t: "current k = Some t"
    using assms by (auto simp: exit_current_and_run_next_def take_current_task_def Let_def elim!: bind_eq_SomeE)
  let ?pid = "task_process (tcb k t)"
  obtain k1 where k1: "notify_parent ?pid (k\<lparr>current := None\<rparr>) = Some k1"
    using assms t by (auto simp: exit_current_and_run_next_def take_current_task_def Let_def elim!: bind_eq_SomeE)
  have tc: "task_res (tcb k1 t) = task_res (tcb k t)"
    using k1 by (auto simp: notify_parent_def Let_def unblock_task_def set_status_def upd_proc_def split: if_splits elim!: bind_eq_SomeE)
  obtain res where res: "task_res (tcb k1 t) = Some res"
    using assms t k1 by (auto simp: exit_current_and_run_next_def take_current_task_def Let_def elim!: bind_eq_SomeE)
  let ?k2 = "upd_task t (\<lambda>c. c\<lparr>task_exit_code := Some code, task_res := None\<rparr>) k1"
  obtain k2 where k2: "TaskUserRes_drop ?pid res ?k2 = Some k2"
    using assms t k1 res by (auto simp: exit_current_and_run_next_def take_current_task_def Let_def elim!: bind_eq_SomeE)
  have v: "pview k2 = pview k"
    using ptree_TaskUserRes_drop [OF k2] ptree_notify_parent [OF k1] by (simp add: ptree_simps)
  have fin: "(if res_tid res \<noteq> 0 then Some (Continue k2) else if ?pid = IDLE_PID then Some (Shutdown (code \<noteq> 0))
      else map_option Continue (terminate_process ?pid code k2)) = Some (Continue k')"
    using assms t k1 res k2 by (simp add: exit_current_and_run_next_def take_current_task_def Let_def cong: if_cong)
  show thesis
  proof (rule that [OF t])
    show "task_res (tcb k t) = Some res" using res tc by simp
    show "pview k' = pview k" if "res_tid res \<noteq> 0" using fin that v by simp
    show "?pid \<noteq> INITPROC \<and> (\<exists>n. ptree_of k ?pid = Some n
      \<and> pview k' = (t_exit ?pid code (pn_children n) (ptree_of k), pid_allocator k, removeAll ?pid (pid2pcb k)))"
      if tid: "res_tid res = 0"
    proof -
      have ne: "?pid \<noteq> INITPROC" using fin tid by (auto simp: INITPROC_def split: if_splits)
      have "terminate_process ?pid code k2 = Some k'" using fin tid ne by (auto simp: INITPROC_def split: if_splits)
      then obtain p where p: "procs k2 ?pid = Some p"
        "pview k' = (t_exit ?pid code (children p) (ptree_of k2), pid_allocator k2, removeAll ?pid (pid2pcb k2))"
        by (rule ptree_terminate_process)
      have "ptree_of k = ptree_of k2" using v by (simp add: pview_def)
      then have "ptree_of k ?pid = Some (pnode_of p)" using p(1) by (simp add: ptree_of_def)
      then show ?thesis using ne p(2) v by (auto simp: pview_def pnode_of_def thread_count_def)
    qed
  qed
qed

lemma ptree_TaskControlBlock_new: "TaskControlBlock_new pid sp b1 b2 k = Some (t, k') \<Longrightarrow> pview k' = pview k"
  by (auto simp: TaskControlBlock_new_def TaskUserRes_new_def kstack_alloc_def Let_def pview_def ptree_of_def fun_eq_iff pnode_of_def thread_count_def
      split: prod.splits elim!: bind_eq_SomeE)

lemma ptree_fork:
  assumes "fork ls cwd ppid k = Some (pid, k')"
  obtains a n where "ra_alloc (pid_allocator k) = (pid, a)" and "ptree_of k ppid = Some n" and "pn_threads n = 1"
    and "pview k' = (t_fork ppid pid (ptree_of k), a, List.insert pid (pid2pcb k))"
proof -
  obtain p where p: "procs k ppid = Some p" using assms by (auto simp: fork_def elim!: bind_eq_SomeE)
  obtain pid' a where a: "ra_alloc (pid_allocator k) = (pid', a)" by (metis surj_pair)
  obtain ms m where m: "from_existed_user ls (memory_set p) (km k) = Some (ms, m)"
    using assms p by (auto simp: fork_def elim!: bind_eq_SomeE)
  let ?k1 = "k\<lparr>km := m, pid_allocator := a, procs := (procs k)(pid' \<mapsto> fork_child ppid cwd ms p)\<rparr>"
  let ?k2 = "upd_proc ppid (\<lambda>p. p\<lparr>children := vec_push (children p) pid'\<rparr>) ?k1"
  obtain sp t k3 cx where k3: "TaskControlBlock_new pid' sp False False ?k2 = Some (t, k3)" and pid: "pid = pid'"
    and k': "k' = add_task t (insert_into_pid2process pid' (put_trap_cx t cx (upd_proc pid' (\<lambda>p. p\<lparr>tasks := vec_push (tasks p) (Some t)\<rparr>) k3)))"
    using assms p a m by (auto simp: fork_def Let_def elim!: bind_eq_SomeE)
  let ?k4 = "upd_proc pid' (\<lambda>p. p\<lparr>tasks := vec_push (tasks p) (Some t)\<rparr>) k3"
  have k'': "pview k' = (ptree_of ?k4, pid_allocator ?k4, List.insert pid' (pid2pcb ?k4))"
    by (simp add: k' pview_def insert_into_pid2process_def put_trap_cx_def add_task_def ptree_of_def)
  have "pview ?k4 = apfst (upd_node pid' (\<lambda>n. n\<lparr>pn_threads := pn_threads n + 1\<rparr>)) (pview k3)"
    by (rule ptree_upd_proc) (simp add: pnode_of_def thread_count_def vec_push_def)
  also have "pview k3 = pview ?k2" by (rule ptree_TaskControlBlock_new [OF k3])
  also have "\<dots> = apfst (upd_node ppid (\<lambda>n. n\<lparr>pn_children := pn_children n @ [pid']\<rparr>)) (pview ?k1)"
    by (rule ptree_upd_proc) (simp add: pnode_of_def thread_count_def vec_push_def)
  also have "pview ?k1 = ((ptree_of k)(pid' \<mapsto> \<lparr>pn_parent = Some ppid, pn_children = [], pn_zombie = False, pn_code = 0, pn_threads = 0\<rparr>), a, pid2pcb k)"
    by (auto simp: pview_def ptree_of_def fork_child_def pnode_of_def thread_count_def fun_eq_iff)
  also have "apfst (upd_node pid' (\<lambda>n. n\<lparr>pn_threads := pn_threads n + 1\<rparr>)) (apfst (upd_node ppid (\<lambda>n. n\<lparr>pn_children := pn_children n @ [pid']\<rparr>))
      ((ptree_of k)(pid' \<mapsto> \<lparr>pn_parent = Some ppid, pn_children = [], pn_zombie = False, pn_code = 0, pn_threads = 0\<rparr>), a, pid2pcb k))
    = (t_fork ppid pid' (ptree_of k), a, pid2pcb k)"
    by (auto simp: t_fork_def upd_node_def fun_eq_iff)
  finally have "pview k' = (t_fork ppid pid (ptree_of k), a, List.insert pid (pid2pcb k))"
    unfolding k'' using pid by (simp add: pview_def)
  moreover have "ptree_of k ppid = Some (pnode_of p)" using p by (simp add: ptree_of_def)
  moreover have "thread_count p = 1" using assms p by (auto simp: fork_def elim!: bind_eq_SomeE)
  ultimately show thesis using a pid that by (simp add: pnode_of_def)
qed

lemma ptree_wait:
  assumes "wait4_round pid opts k = Some (r, k')"
  obtains "pview k' = pview k" | self n c m a where "ptree_of k self = Some n" and "c \<in> set (pn_children n)" and "ptree_of k c = Some m"
    and "pn_zombie m" and "r = Some (int c, Some (pn_code m))" and "ra_dealloc (pid_allocator k) c = Some a"
    and "pview k' = (t_wait self c (ptree_of k), a, pid2pcb k)"
proof -
  obtain self p where p: "current_process k = Some (self, p)"
    using assms by (auto simp: wait4_round_def elim!: bind_eq_SomeE)
  then have ps: "procs k self = Some p" by (auto simp: current_process_def elim!: bind_eq_SomeE)
  let ?m = "\<lambda>c. pid = -1 \<or> pid = int c"
  let ?f = "find (\<lambda>c. (case procs k c of Some cp \<Rightarrow> is_zombie cp | None \<Rightarrow> False) \<and> ?m c) (children p)"
  show thesis
  proof (cases "list_ex ?m (children p) \<and> ?f \<noteq> None")
    case False
    then have "pview k' = pview k" using assms p
      by (auto simp: wait4_round_def Let_def block_current_and_run_next_def take_current_task_def block_task_def set_status_def pview_def
          ptree_of_def split: if_splits option.splits elim!: bind_eq_SomeE)
    then show thesis by (rule that(1))
  next
    case True
    then obtain c where c: "?f = Some c" by blast
    let ?k1 = "upd_proc self (\<lambda>p. p\<lparr>children := remove1 c (children p)\<rparr>) k"
    have k1: "upd_proc self (\<lambda>q. q\<lparr>children := remove1 c (children p)\<rparr>) k = ?k1" by (simp add: upd_proc_def ps)
    obtain cp where cp: "procs k c = Some cp" "is_zombie cp" "c \<in> set (children p)"
      using c by (auto simp: find_Some_iff split: option.splits)
    obtain cp1 k2 where cp1: "procs ?k1 c = Some cp1" "ProcessControlBlock_drop c cp1 ?k1 = Some k2"
      and r: "r = Some (int c, Some (exit_code cp1))" "k' = k2"
      using assms p True c by (auto simp: wait4_round_def Let_def k1 elim!: bind_eq_SomeE split: if_splits)
    have ec: "exit_code cp1 = exit_code cp" using cp1(1) cp(1) by (auto simp: upd_proc_def split: if_splits)
    obtain a m where a: "ra_dealloc (pid_allocator k) c = Some a" and k2: "k2 = ?k1\<lparr>pid_allocator := a, km := m, procs := (procs ?k1)(c := None)\<rparr>"
      using cp1(2) by (auto simp: ProcessControlBlock_drop_def elim!: bind_eq_SomeE) (simp add: upd_proc_def)
    have "pview ?k1 = apfst (upd_node self (\<lambda>n. n\<lparr>pn_children := remove1 c (pn_children n)\<rparr>)) (pview k)"
      by (rule ptree_upd_proc) (simp add: pnode_of_def thread_count_def)
    then have "pview k' = (t_wait self c (ptree_of k), a, pid2pcb k)"
      by (auto simp: r(2) k2 pview_def t_wait_def ptree_of_def fun_eq_iff)
    then show thesis using that(2) [of self "pnode_of p" c "pnode_of cp" a] ps cp r(1) ec a by (simp add: ptree_of_def pnode_of_def)
  qed
qed

section \<open>The invariant\<close>

definition parent_of :: "ptree \<Rightarrow> nat \<Rightarrow> nat \<Rightarrow> bool" where
  "parent_of T x y \<longleftrightarrow> (\<exists>n. T x = Some n \<and> pn_parent n = Some y)"

text \<open>Parents and children agree, an exited process has no children and no threads, and every process descends from
  the first one; the live identifiers are those of the existing processes, and the map holds those that run.\<close>

definition node_ok :: "ptree \<Rightarrow> nat \<Rightarrow> pnode \<Rightarrow> bool" where
  "node_ok T pid n \<longleftrightarrow> distinct (pn_children n) \<and> (\<forall>c \<in> set (pn_children n). parent_of T c pid)
    \<and> (\<forall>q. pn_parent n = Some q \<longrightarrow> q \<noteq> pid \<and> (\<exists>m. T q = Some m \<and> pid \<in> set (pn_children m)))
    \<and> (pn_zombie n \<longrightarrow> pn_children n = [] \<and> pn_threads n = 0) \<and> (parent_of T)\<^sup>*\<^sup>* pid INITPROC"

definition tree_ok :: "ptree \<times> RecycleAllocator \<times> nat list \<Rightarrow> bool" where
  "tree_ok v \<longleftrightarrow> (case v of (T, a, M) \<Rightarrow>
     (\<forall>pid n. T pid = Some n \<longrightarrow> node_ok T pid n) \<and> (\<exists>r. T INITPROC = Some r \<and> pn_parent r = None \<and> \<not> pn_zombie r)
     \<and> ra_invar a \<and> dom T = ra_live a \<and> set M = {pid. \<exists>n. T pid = Some n \<and> \<not> pn_zombie n})"

lemma node_okD:
  assumes "node_ok T pid n"
  shows "distinct (pn_children n)" and "c \<in> set (pn_children n) \<Longrightarrow> parent_of T c pid"
    and "pn_parent n = Some q \<Longrightarrow> q \<noteq> pid" and "pn_parent n = Some q \<Longrightarrow> \<exists>m. T q = Some m \<and> pid \<in> set (pn_children m)"
    and "pn_zombie n \<Longrightarrow> pn_children n = []" and "pn_zombie n \<Longrightarrow> pn_threads n = 0" and "(parent_of T)\<^sup>*\<^sup>* pid INITPROC"
  using assms by (auto simp: node_ok_def)

lemma tree_okD:
  assumes "tree_ok (T, a, M)"
  shows "T pid = Some n \<Longrightarrow> node_ok T pid n" and "\<exists>r. T INITPROC = Some r \<and> pn_parent r = None \<and> \<not> pn_zombie r"
    and "ra_invar a" and "dom T = ra_live a" and "set M = {pid. \<exists>n. T pid = Some n \<and> \<not> pn_zombie n}"
  using assms by (auto simp: tree_ok_def)

lemma child_parent:
  assumes "tree_ok (T, a, M)" and "T pid = Some n" and "c \<in> set (pn_children n)"
  shows "c \<noteq> pid" and "c \<noteq> INITPROC" and "\<exists>m. T c = Some m \<and> pn_parent m = Some pid"
proof -
  show p: "\<exists>m. T c = Some m \<and> pn_parent m = Some pid"
    using node_okD(2) [OF tree_okD(1) [OF assms(1,2)] assms(3)] by (simp add: parent_of_def)
  then show "c \<noteq> pid" using node_okD(3) [OF tree_okD(1) [OF assms(1)]] by blast
  show "c \<noteq> INITPROC" using p tree_okD(2) [OF assms(1)] by auto
qed

lemma fork_keeps_tree:
  assumes ok: "tree_ok (T, a, M)" and pid: "ra_alloc a = (pid, a')" and n: "T ppid = Some n" "pn_threads n = 1"
  shows "tree_ok (t_fork ppid pid T, a', List.insert pid M)"
proof -
  note t = tree_okD [OF ok]
  have al: "ra_invar a'" "pid \<notin> ra_live a" "ra_live a' = insert pid (ra_live a)" using ra_alloc_spec [OF t(3) pid] by simp_all
  have new: "T pid = None" using al(2) t(4) by (auto simp: dom_def)
  have z: "\<not> pn_zombie n" using node_okD(6) [OF t(1) [OF n(1)]] n(2) by auto
  have ne: "pid \<noteq> ppid" using new n(1) by auto
  let ?T = "t_fork ppid pid T" and ?new = "\<lparr>pn_parent = Some ppid, pn_children = [], pn_zombie = False, pn_code = 0, pn_threads = 1\<rparr>"
  have T: "?T = T(pid \<mapsto> ?new, ppid \<mapsto> n\<lparr>pn_children := pn_children n @ [pid]\<rparr>)"
    using n ne by (auto simp: t_fork_def upd_node_def fun_eq_iff)
  have par: "parent_of ?T x y \<longleftrightarrow> parent_of T x y \<or> x = pid \<and> y = ppid" for x y
    using new n ne by (auto simp: T parent_of_def)
  have up: "(parent_of ?T)\<^sup>*\<^sup>* x INITPROC" if "(parent_of T)\<^sup>*\<^sup>* x INITPROC" for x
    using that by (rule rtranclp_mono [THEN predicate2D, rotated]) (simp add: par le_fun_def)
  have fresh: "pid \<notin> set (pn_children m)" if "T q = Some m" for q m
    using child_parent(3) [OF ok that, of pid] new by auto
  have "node_ok ?T x m" if m: "?T x = Some m" for x m
  proof (cases "x = pid")
    case True
    then have "m = ?new" using m ne by (simp add: T)
    moreover have "(parent_of ?T)\<^sup>*\<^sup>* pid INITPROC"
      using converse_rtranclp_into_rtranclp [of "parent_of ?T" pid ppid] up [OF node_okD(7) [OF t(1) [OF n(1)]]] par by blast
    ultimately show ?thesis using True ne by (auto simp: node_ok_def T)
  next
    case False
    then obtain m0 where m0: "T x = Some m0" "m = (if x = ppid then m0\<lparr>pn_children := pn_children m0 @ [pid]\<rparr> else m0)"
      using m n by (auto simp: T split: if_splits)
    note d = t(1) [OF m0(1)]
    have "\<exists>m'. ?T q = Some m' \<and> x \<in> set (pn_children m')" if "pn_parent m = Some q" for q
    proof -
      have "pn_parent m0 = Some q" using that m0 by (auto split: if_splits)
      then obtain m' where "T q = Some m'" "x \<in> set (pn_children m')" using node_okD(4) [OF d] by blast
      then show ?thesis using new n by (auto simp: T)
    qed
    then show ?thesis using node_okD(1-3,5-7) [OF d] up m0 fresh [OF m0(1)] z n by (auto simp: node_ok_def par)
  qed
  moreover have "\<exists>r. ?T INITPROC = Some r \<and> pn_parent r = None \<and> \<not> pn_zombie r" using t(2) new n z by (auto simp: T)
  moreover have "dom ?T = ra_live a'" using al(3) t(4) n by (auto simp: T)
  moreover have "set (List.insert pid M) = {x. \<exists>m. ?T x = Some m \<and> \<not> pn_zombie m}" using t(5) n z ne new by (auto simp: T)
  ultimately show ?thesis using al(1) by (simp add: tree_ok_def)
qed

lemma fold_t_adopt:
  "distinct cs \<Longrightarrow> INITPROC \<notin> set cs \<Longrightarrow> fold t_adopt cs T x =
    (if x = INITPROC then map_option (\<lambda>m. m\<lparr>pn_children := pn_children m @ cs\<rparr>) (T x)
     else if x \<in> set cs then map_option (\<lambda>m. m\<lparr>pn_parent := Some INITPROC\<rparr>) (T x) else T x)"
  by (induction cs arbitrary: T) (auto simp: t_adopt_def upd_node_def option.map_comp comp_def option.map_id0 [unfolded id_def])

lemma exit_keeps_tree:
  assumes ok: "tree_ok (T, a, M)" and pid: "T pid = Some n" "pid \<noteq> INITPROC"
  shows "tree_ok (t_exit pid code (pn_children n) T, a, removeAll pid M)"
proof -
  note t = tree_okD [OF ok] and d = tree_okD(1) [OF ok pid(1)] and ch = child_parent [OF ok pid(1)]
  let ?T = "t_exit pid code (pn_children n) T" and ?cs = "pn_children n"
  let ?dead = "n\<lparr>pn_zombie := True, pn_code := code, pn_children := [], pn_threads := 0\<rparr>"
  have T: "?T x = (if x = pid then Some ?dead
      else if x = INITPROC then map_option (\<lambda>m. m\<lparr>pn_children := pn_children m @ ?cs\<rparr>) (T x)
      else if x \<in> set ?cs then map_option (\<lambda>m. m\<lparr>pn_parent := Some INITPROC\<rparr>) (T x) else T x)" for x
  proof -
    have "INITPROC \<notin> set ?cs" "pid \<notin> set ?cs" using ch(1,2) by blast+
    then show ?thesis using node_okD(1) [OF d] pid by (auto simp: t_exit_def upd_node_def fold_t_adopt)
  qed
  have par: "parent_of ?T x y \<longleftrightarrow> (if x \<in> set ?cs then y = INITPROC else parent_of T x y)" for x y
    using ch [of x] pid by (auto simp: parent_of_def T)
  have up: "(parent_of ?T)\<^sup>*\<^sup>* x INITPROC" if "(parent_of T)\<^sup>*\<^sup>* x INITPROC" for x
    using that
  proof (induction rule: converse_rtranclp_induct)
    case (step x y)
    then show ?case using par [of x] by (cases "x \<in> set ?cs") (auto intro: converse_rtranclp_into_rtranclp)
  qed simp
  obtain r where r: "T INITPROC = Some r" "pn_parent r = None" "\<not> pn_zombie r" using t(2) by blast
  have disj: "c \<notin> set (pn_children m)" if "T q = Some m" "q \<noteq> pid" "c \<in> set ?cs" for q m c
    using child_parent(3) [OF ok that(1)] ch(3) [OF that(3)] that(2) by fastforce
  have "node_ok ?T x m" if m: "?T x = Some m" for x m
  proof -
    obtain m0 where m0: "T x = Some m0" using m pid(1) by (auto simp: T split: if_splits)
    note d0 = t(1) [OF m0]
    have kids: "set (pn_children m) = (if x = pid then {} else if x = INITPROC then set (pn_children m0) \<union> set ?cs else set (pn_children m0))"
      using m m0 by (auto simp: T split: if_splits)
    have "distinct (pn_children m)" using m m0 node_okD(1) [OF d0] node_okD(1) [OF d] disj [OF m0] by (auto simp: T split: if_splits)
    moreover have "\<forall>c \<in> set (pn_children m). parent_of ?T c x"
      using node_okD(2) [OF d0] disj [OF m0] unfolding kids par by auto
    moreover have "\<forall>q. pn_parent m = Some q \<longrightarrow> q \<noteq> x \<and> (\<exists>m'. ?T q = Some m' \<and> x \<in> set (pn_children m'))"
    proof (intro allI impI)
      fix q assume q: "pn_parent m = Some q"
      show "q \<noteq> x \<and> (\<exists>m'. ?T q = Some m' \<and> x \<in> set (pn_children m'))"
      proof (cases "x \<in> set ?cs")
        case True
        then have "q = INITPROC" "x \<noteq> INITPROC" using q m m0 ch by (auto simp: T)
        then show ?thesis using True pid(2) r(1) by (auto simp: T)
      next
        case False
        then have q0: "pn_parent m0 = Some q" using q m m0 pid by (auto simp: T split: if_splits)
        obtain m' where m': "T q = Some m'" "x \<in> set (pn_children m')" using node_okD(4) [OF d0 q0] by blast
        have "q \<noteq> pid" using m' False pid(1) by auto
        then show ?thesis using node_okD(3) [OF d0 q0] m' by (auto simp: T)
      qed
    qed
    moreover have "pn_zombie m \<longrightarrow> pn_children m = [] \<and> pn_threads m = 0"
      using m m0 r node_okD(5,6) [OF d0] by (auto simp: T split: if_splits)
    ultimately show ?thesis using up [OF node_okD(7) [OF d0]] by (simp add: node_ok_def)
  qed
  moreover have "dom ?T = ra_live a" using t(4) pid(1) by (auto simp: T dom_def split: if_splits)
  moreover have "set (removeAll pid M) = {x. \<exists>m. ?T x = Some m \<and> \<not> pn_zombie m}" using t(5) by (auto simp: T split: if_splits)
  moreover have "\<exists>r. ?T INITPROC = Some r \<and> pn_parent r = None \<and> \<not> pn_zombie r" using r pid(2) by (simp add: T)
  ultimately show ?thesis using t(3) by (simp add: tree_ok_def)
qed

lemma wait_keeps_tree:
  assumes ok: "tree_ok (T, a, M)" and self: "T self = Some n" "c \<in> set (pn_children n)" and c: "T c = Some m" "pn_zombie m"
    and a': "ra_dealloc a c = Some a'"
  shows "tree_ok (t_wait self c T, a', M)"
proof -
  note t = tree_okD [OF ok] and ch = child_parent [OF ok self]
  have al: "ra_invar a'" "ra_live a' = ra_live a - {c}" 
  proof -
    have "c \<in> ra_live a" using t(4) c(1) by blast
    then show "ra_invar a'" "ra_live a' = ra_live a - {c}" using ra_dealloc_spec [OF t(3), of c] a' by auto
  qed
  let ?T = "t_wait self c T"
  have T: "?T x = (if x = c then None else if x = self then Some (n\<lparr>pn_children := remove1 c (pn_children n)\<rparr>) else T x)" for x
    using self ch by (auto simp: t_wait_def upd_node_def)
  have par: "parent_of ?T x y \<longleftrightarrow> x \<noteq> c \<and> parent_of T x y" for x y using self by (auto simp: parent_of_def T)
  have leaf: "\<not> parent_of T x c" for x
    using node_okD(4) [OF t(1)] node_okD(5) [OF t(1) [OF c(1)] c(2)] c(1) by (fastforce simp: parent_of_def)
  have up: "(parent_of ?T)\<^sup>*\<^sup>* x INITPROC" if "(parent_of T)\<^sup>*\<^sup>* x INITPROC" "x \<noteq> c" for x
    using that
  proof (induction rule: converse_rtranclp_induct)
    case (step x y)
    then have "y \<noteq> c" "parent_of ?T x y" using leaf by (auto simp: par)
    then show ?case using step.IH by (meson converse_rtranclp_into_rtranclp)
  qed simp
  have "node_ok ?T x k" if k: "?T x = Some k" for x k
  proof -
    obtain k0 where k0: "T x = Some k0" "x \<noteq> c" "k = (if x = self then k0\<lparr>pn_children := remove1 c (pn_children k0)\<rparr> else k0)"
      using k self by (auto simp: T split: if_splits)
    note d = t(1) [OF k0(1)]
    have "c \<notin> set (pn_children k)"
      using k0 child_parent(3) [OF ok k0(1), of c] ch(3) node_okD(1) [OF d] by (auto split: if_splits)
    moreover have "\<exists>m'. ?T q = Some m' \<and> x \<in> set (pn_children m')" if "pn_parent k = Some q" for q
    proof -
      have q: "pn_parent k0 = Some q" using that k0 by (auto split: if_splits)
      then obtain m' where m': "T q = Some m'" "x \<in> set (pn_children m')" using node_okD(4) [OF d] by blast
      have "q \<noteq> c" using q k0(1) leaf by (auto simp: parent_of_def)
      then show ?thesis using m' k0(2) self by (auto simp: T in_set_remove1)
    qed
    ultimately show ?thesis
      using k0 node_okD(1-3,5-7) [OF d] up [OF node_okD(7) [OF d] k0(2)] set_remove1_subset [of c "pn_children k0"]
      by (auto simp: node_ok_def par distinct_remove1)
  qed
  moreover have "\<exists>r. ?T INITPROC = Some r \<and> pn_parent r = None \<and> \<not> pn_zombie r" using t(2) c self by (auto simp: T)
  moreover have "dom ?T = ra_live a'" using al(2) t(4) self by (auto simp: T dom_def split: if_splits)
  moreover have "set M = {x. \<exists>k. ?T x = Some k \<and> \<not> pn_zombie k}" using t(5) c self by (auto simp: T split: if_splits)
  ultimately show ?thesis using al(1) by (simp add: tree_ok_def)
qed

section \<open>All executions\<close>

text \<open>The running process forks, exits or waits; any other step leaves the processes alone.\<close>

inductive proc_step :: "linker_symbols \<Rightarrow> 'f FileDescriptor \<Rightarrow> 'f kernel \<Rightarrow> 'f kernel \<Rightarrow> bool" for ls cwd where
  forks: "current_process k = Some (ppid, p) \<Longrightarrow> fork ls cwd ppid k = Some (pid, k') \<Longrightarrow> proc_step ls cwd k k'"
| exits: "exit_current_and_run_next code k = Some (Continue k') \<Longrightarrow> proc_step ls cwd k k'"
| waits: "wait4_round pid opts k = Some (r, k') \<Longrightarrow> proc_step ls cwd k k'"
| other: "pview k' = pview k \<Longrightarrow> proc_step ls cwd k k'"

lemma proc_step_keeps:
  assumes "proc_step ls cwd k k'" and ok: "tree_ok (pview k)"
  shows "tree_ok (pview k')"
  using assms(1)
proof cases
  case (forks ppid p pid)
  from forks(2) show ?thesis
    by (rule ptree_fork) (use fork_keeps_tree ok in \<open>simp add: pview_def\<close>)
next
  case (exits code)
  from exits show ?thesis
  proof (rule ptree_exit)
    fix t res
    assume e: "res_tid res \<noteq> 0 \<Longrightarrow> pview k' = pview k"
      "res_tid res = 0 \<Longrightarrow> task_process (tcb k t) \<noteq> INITPROC \<and> (\<exists>n. ptree_of k (task_process (tcb k t)) = Some n
        \<and> pview k' = (t_exit (task_process (tcb k t)) code (pn_children n) (ptree_of k), pid_allocator k,
            removeAll (task_process (tcb k t)) (pid2pcb k)))"
    show ?thesis
    proof (cases "res_tid res = 0")
      case True
      then show ?thesis using e(2) exit_keeps_tree [of "ptree_of k" "pid_allocator k" "pid2pcb k"] ok by (auto simp: pview_def)
    next
      case False
      then show ?thesis using e(1) ok by simp
    qed
  qed
next
  case (waits pid opts r)
  from waits show ?thesis
  proof (rule ptree_wait)
    fix self n c m a
    assume "ptree_of k self = Some n" "c \<in> set (pn_children n)" "ptree_of k c = Some m" "pn_zombie m"
      "ra_dealloc (pid_allocator k) c = Some a" "pview k' = (t_wait self c (ptree_of k), a, pid2pcb k)"
    then show ?thesis using wait_keeps_tree [of "ptree_of k" "pid_allocator k" "pid2pcb k"] ok by (simp add: pview_def)
  qed (use ok in simp)
qed (use ok in simp)

end
