(* ===== verification/Process_Exit.thy ===== *)
theory Process_Exit
  imports Process_Tree
begin

text \<open>
  What a parent gets from \<^verbatim>\<open>wait4\<close> after a child has exited, and what happens to the kernel
  stack of the task that exits.
\<close>

section \<open>The tree\<close>

text \<open>C4: the tree of processes. Over every sequence of forks, exits and waits of running processes, whatever
  happens to memory, descriptors and queues in between, parents and lists of children agree, an exited process has no children
  (they have moved to the first process), every process descends from the first process, the allocated
  identifiers are those of the existing processes, and the map of processes holds exactly those that have not exited.\<close>

theorem process_tree_invariant:
  assumes "(proc_step ls cwd)\<^sup>*\<^sup>* k k'" and "tree_ok (pview k)"
  shows "tree_ok (pview k')"
  using assms by (induction rule: rtranclp_induct) (auto dest: proc_step_keeps)

section \<open>Waiting for an exited child\<close>

lemma t_exit_self:
  assumes "tree_ok (T, a, M)" and "T pid = Some n" and "pid \<noteq> INITPROC"
  shows "t_exit pid code (pn_children n) T pid = Some (n\<lparr>pn_zombie := True, pn_code := code, pn_children := [], pn_threads := 0\<rparr>)"
proof -
  have "INITPROC \<notin> set (pn_children n)" "pid \<notin> set (pn_children n)" using child_parent(1,2) [OF assms(1,2)] by blast+
  then show ?thesis using node_okD(1) [OF tree_okD(1) [OF assms(1,2)]] assms(2,3) by (simp add: t_exit_def upd_node_def fold_t_adopt)
qed

text \<open>The node of a process in a kernel state, read back from the tree.\<close>

lemma ptree_ofD:
  assumes "ptree_of k pid = Some n"
  obtains p where "procs k pid = Some p" and "parent p = pn_parent n" and "children p = pn_children n" and "is_zombie p = pn_zombie n"
    and "exit_code p = pn_code n"
proof -
  obtain p where p: "procs k pid = Some p" and n: "n = pnode_of p" using assms by (auto simp: ptree_of_def)
  show thesis by (rule that [OF p]) (simp_all add: n pnode_of_def)
qed

lemma wait4_reaps:
  assumes ok: "tree_ok (pview k)" and z: "ptree_of k pid = Some n" "pn_zombie n" "pn_parent n = Some q"
    and w: "current k = Some w" "task_process (tcb k w) = q" and opts: "opts AND NOT WAIT_OPTIONS = 0"
    and p: "procs k pid = Some p" and m: "ms_drop (memory_set p) (km k) = Some m"
  shows "\<exists>k'. wait4_round (int pid) opts k = Some (Some (int pid, Some (pn_code n)), k') \<and> procs k' pid = None"
proof -
  have ok': "tree_ok (ptree_of k, pid_allocator k, pid2pcb k)" using ok by (simp add: pview_def)
  note d = tree_okD(1) [OF ok' z(1)]
  obtain nq where nq: "ptree_of k q = Some nq" "pid \<in> set (pn_children nq)" "q \<noteq> pid"
    using node_okD(3,4) [OF d z(3)] by blast
  obtain pq where pq: "procs k q = Some pq" "children pq = pn_children nq" using nq(1) by (rule ptree_ofD)
  have zp: "is_zombie p" "exit_code p = pn_code n" using z(1,2) p by (auto simp: ptree_of_def pnode_of_def)
  let ?P = "\<lambda>c. (case procs k c of Some cp \<Rightarrow> is_zombie cp | None \<Rightarrow> False) \<and> (int pid = -1 \<or> int pid = int c)"
  have "find ?P (children pq) \<noteq> None" using nq(2) pq(2) p zp by (auto simp: find_None_iff)
  then obtain c where c: "find ?P (children pq) = Some c" by blast
  then have cp: "c = pid" by (auto simp: find_Some_iff)
  let ?k1 = "upd_proc q (\<lambda>p. p\<lparr>children := remove1 pid (children pq)\<rparr>) k"
  have f: "pid \<notin> set (pid2pcb k)" "pid \<notin> set (remove1 pid (children pq))"
    using tree_okD(5) [OF ok'] z node_okD(1) [OF tree_okD(1) [OF ok' nq(1)]] by (auto simp: pq(2))
  obtain a where a: "ra_dealloc (pid_allocator k) pid = Some a"
    using ra_dealloc_spec [OF tree_okD(3) [OF ok'], of pid] tree_okD(4) [OF ok'] z(1) by blast
  have "ProcessControlBlock_drop pid p ?k1 = Some (?k1\<lparr>pid_allocator := a, km := m, procs := (procs ?k1)(pid := None)\<rparr>)"
    using a m by (simp add: ProcessControlBlock_drop_def upd_proc_def)
  moreover have "procs ?k1 pid = Some p" "pid2pcb ?k1 = pid2pcb k" using p nq(3) by (simp_all add: upd_proc_def)
  moreover have "list_ex (\<lambda>c. int pid = -1 \<or> int pid = int c) (children pq)" using nq(2) pq(2) by (auto simp: list_ex_iff)
  ultimately show ?thesis
    using w pq(1) c opts f zp(2) unfolding cp by (simp add: wait4_round_def current_process_def Let_def)
qed


section \<open>The kernel stack of the exiting task\<close>

text \<open>Where a task is named outside its process, and its stack.\<close>

definition tview :: "nat \<Rightarrow> 'f kernel \<Rightarrow> nat list \<times> nat list \<times> nat option \<times> TimerCondVar list \<times> nat \<times> nat" where
  "tview t k = (ready_queue k, block_queue k, current k, timers k, task_process (tcb k t), task_kstack (tcb k t))"

lemma tview_simps [simp]:
  "tview t (upd_proc pid f k) = tview t k"
  "tview t (k\<lparr>km := m\<rparr>) = tview t k" "tview t (k\<lparr>km := m, procs := ps\<rparr>) = tview t k"
  "tview t (upd_task u (\<lambda>c. c\<lparr>task_exit_code := e, task_res := r\<rparr>) k) = tview t k" "tview t (upd_task u (\<lambda>c. c\<lparr>task_res := r\<rparr>) k) = tview t k"
  by (simp_all add: tview_def upd_proc_def upd_task_def)

lemma tview_TaskUserRes_drop: "TaskUserRes_drop pid res k = Some k' \<Longrightarrow> tview t k' = tview t k"
  by (auto simp: TaskUserRes_drop_def elim!: bind_eq_SomeE)

lemma tview_for_each_drop: "for_each (TaskUserRes_drop pid) rs k = Some k' \<Longrightarrow> tview t k' = tview t k"
  by (induction rs arbitrary: k) (auto elim!: bind_eq_SomeE dest: tview_TaskUserRes_drop)

lemma tview_with_memory: "with_memory pid f k = Some k' \<Longrightarrow> tview t k' = tview t k"
  by (auto simp: with_memory_def elim!: bind_eq_SomeE)

lemma tview_fold_adopt: "tview t (fold adopt cs k) = tview t k"
  by (induction cs arbitrary: k) (simp_all add: adopt_def)

definition futex_of :: "nat \<Rightarrow> 'f kernel \<Rightarrow> Futex option" where
  "futex_of pid k = map_option futex (procs k pid)"

lemma futex_upd: "(\<And>p. futex (f p) = futex p) \<Longrightarrow> futex_of pid (upd_proc q f k) = futex_of pid k"
  by (auto simp: futex_of_def upd_proc_def option.map_comp comp_def)

lemma futex_TaskUserRes_drop: "TaskUserRes_drop q res k = Some k' \<Longrightarrow> futex_of pid k' = futex_of pid k"
  by (auto simp: TaskUserRes_drop_def futex_of_def elim!: bind_eq_SomeE)

lemma futex_for_each_drop: "for_each (TaskUserRes_drop q) rs k = Some k' \<Longrightarrow> futex_of pid k' = futex_of pid k"
  by (induction rs arbitrary: k) (auto elim!: bind_eq_SomeE dest: futex_TaskUserRes_drop)

lemma futex_with_memory: "with_memory q f k = Some k' \<Longrightarrow> futex_of pid k' = futex_of pid k"
  by (auto simp: with_memory_def futex_of_def elim!: bind_eq_SomeE)

lemma futex_fold_adopt: "futex_of pid (fold adopt cs k) = futex_of pid k"
  by (induction cs arbitrary: k) (simp_all add: adopt_def futex_upd)

text \<open>No queue and no timer names the task.\<close>

definition unqueued :: "nat \<Rightarrow> 'f kernel \<Rightarrow> bool" where
  "unqueued t k \<longleftrightarrow> t \<notin> set (ready_queue k) \<and> t \<notin> set (block_queue k) \<and> current k \<noteq> Some t \<and> t \<notin> timer_task ` set (timers k)"

lemma unqueued_tview: "tview t k' = tview t k \<Longrightarrow> unqueued t k' = unqueued t k"
  by (simp add: unqueued_def tview_def)

lemma terminate_frees_stack:
  assumes trm: "terminate_process pid code k = Some k'" and p: "procs k pid = Some p" "tasks p = [Some t]" "\<not> list_ex (\<lambda>(_, q). t \<in> set q) (futex p)"
    and t: "unqueued t k" "task_process (tcb k t) = pid"
  shows "task_kstack (tcb k t) \<in> set (ra_recycled (kstack_allocator k'))"
proof -
  have ts: "List.map_filter id (tasks p) = [t]" using p(2) by (simp add: List.map_filter_def)
  let ?k1 = "k\<lparr>pid2pcb := removeAll pid (pid2pcb k)\<rparr>"
  have k1: "remove_from_pid2process pid k = Some ?k1"
    using trm by (auto simp: terminate_process_def remove_from_pid2process_def elim!: bind_eq_SomeE)
  let ?k2 = "fold adopt (children p) (upd_proc pid (\<lambda>p. p\<lparr>is_zombie := True, exit_code := code\<rparr>) ?k1)"
  let ?k3 = "upd_task t (\<lambda>c. c\<lparr>task_res := None\<rparr>) (remove_inactive_task t ?k2)"
  obtain rs where k3: "take_resources [t] ?k2 = (rs, ?k3)" by (simp add: Let_def)
  obtain k4 where k4: "for_each (TaskUserRes_drop pid) rs ?k3 = Some k4"
    using trm k1 p(1) k3 by (auto simp: terminate_process_def ts Let_def simp del: take_resources.simps elim!: bind_eq_SomeE)
  obtain k5 where k5: "with_memory pid recycle_data_pages (upd_proc pid (\<lambda>p. p\<lparr>children := []\<rparr>) k4) = Some k5"
    using trm k1 p(1) k3 k4 by (auto simp: terminate_process_def ts Let_def simp del: take_resources.simps elim!: bind_eq_SomeE)
  let ?k6 = "upd_proc pid (\<lambda>p. p\<lparr>fd_table := clear_inner (fd_table p), tasks := []\<rparr>) k5"
  have k6: "release_task t ?k6 = Some k'"
    using trm k1 p(1) k3 k4 k5 by (auto simp: terminate_process_def ts Let_def simp del: take_resources.simps elim!: bind_eq_SomeE)
  have v2: "tview t ?k2 = tview t k" by (simp add: tview_fold_adopt) (simp add: tview_def)
  have v: "tview t ?k6 = tview t ?k3" using tview_for_each_drop [OF k4] tview_with_memory [OF k5] by simp
  have "unqueued t ?k2" using t(1) unqueued_tview [OF v2] by simp
  then have "unqueued t ?k3"
    by (auto simp: unqueued_def upd_task_def remove_inactive_task_def remove_timer_def remove_task_def dest: in_set_remove1 notin_set_remove1 set_mp [OF set_remove1_subset])
  then have un: "unqueued t ?k6" using unqueued_tview [OF v] by simp
  have f: "futex_of pid ?k6 = Some (futex p)"
  proof -
    have "futex_of pid ?k6 = futex_of pid ?k3" using futex_for_each_drop [OF k4, of pid] futex_with_memory [OF k5, of pid] by (simp add: futex_upd)
    also have "\<dots> = futex_of pid ?k2" by (simp add: futex_of_def upd_task_def remove_inactive_task_def remove_timer_def remove_task_def)
    also have "\<dots> = futex_of pid ?k1" by (simp add: futex_fold_adopt futex_upd)
    finally show ?thesis using p(1) by (simp add: futex_of_def)
  qed
  have tk: "task_process (tcb ?k6 t) = pid" "task_kstack (tcb ?k6 t) = task_kstack (tcb k t)"
    using v v2 t(2) by (auto simp: tview_def upd_task_def remove_inactive_task_def remove_timer_def remove_task_def)
  have "\<not> task_referenced t ?k6"
    using un f tk(1) p(3) by (auto simp: task_referenced_def unqueued_def futex_of_def upd_proc_def split: option.splits)
  then obtain k7 where k7: "kstack_drop (task_kstack (tcb k t)) ?k6 = Some k7"
    using k6 tk(2) by (auto simp: release_task_def elim!: bind_eq_SomeE)
  have "task_kstack (tcb k t) \<in> set (ra_recycled (kstack_allocator k7))"
    using k7 by (auto simp: kstack_drop_def ra_dealloc_def vec_push_def elim!: bind_eq_SomeE)
  moreover have "kstack_allocator k' = kstack_allocator k7"
    using k6 k7 \<open>\<not> task_referenced t ?k6\<close> tk(2)
    by (auto simp: release_task_def TaskUserRes_drop_def split: option.splits elim!: bind_eq_SomeE)
  ultimately show ?thesis by simp
qed

lemma notify_parent_keeps:
  assumes "notify_parent pid k = Some k'" and "\<forall>q pp. procs k q = Some pp \<longrightarrow> q \<noteq> pid \<longrightarrow> Some t \<notin> set (tasks pp)"
    and p: "procs k pid = Some p" "parent p \<noteq> Some pid" and t: "unqueued t k"
  shows "unqueued t k' \<and> task_process (tcb k' t) = task_process (tcb k t) \<and> task_kstack (tcb k' t) = task_kstack (tcb k t)
    \<and> task_res (tcb k' t) = task_res (tcb k t) \<and> procs k' pid = Some p"
proof (cases "exit_signal p = 0")
  case True
  then show ?thesis using assms by (auto simp: notify_parent_def elim!: bind_eq_SomeE)
next
  case False
  obtain q pp u where q: "parent p = Some q" "procs k q = Some pp" "get_task 0 pp = Some u"
    using assms(1) False p by (auto simp: notify_parent_def Let_def elim!: bind_eq_SomeE)
  let ?k = "upd_proc q (\<lambda>r. r\<lparr>signals_pending := signals_pending r OR exit_signal p\<rparr>) k"
  have k': "k' = (if task_status (tcb ?k u) = Blocked then unblock_task u ?k else ?k)"
    using assms(1) False p q by (auto simp: notify_parent_def Let_def split: if_splits)
  have "q \<noteq> pid" using p(2) q(1) by auto
  moreover have "Some u \<in> set (tasks pp)"
    using q(3) by (auto simp: get_task_def vec_get_def split: if_splits elim!: bind_eq_SomeE) (metis length_greater_0_conv nth_mem)
  ultimately have "u \<noteq> t" using assms(2) q(2) by auto
  then show ?thesis using t p \<open>q \<noteq> pid\<close>
    by (auto simp: k' unqueued_def unblock_task_def set_status_def upd_proc_def Let_def notin_set_remove1)
qed


section \<open>A family of two processes\<close>

text \<open>The first process, whose task 4 waits, and its child 3, whose task 5 runs.  The areas of the trap context and of the kernel
  stack of task 5 are there, with no page in them.\<close>

definition empty_area :: "usize \<Rightarrow> MapArea" where
  "empty_area a = \<lparr>vpn_range = \<lparr>range_l = va_floor (va_from a), range_r = va_floor (va_from a)\<rparr>, data_frames = [], map_type = Framed, map_perm = 0\<rparr>"

definition family :: "unit kernel" where
  "family = ex_kernel\<lparr>
     tcb := (\<lambda>t. if t = 5 then idle_task\<lparr>task_process := 3, task_kstack := 7, task_res := Some \<lparr>res_tid = 0, res_ustack_top = 0, self_stack = False\<rparr>\<rparr>
                else idle_task\<lparr>task_process := 0, task_status := Blocked\<rparr>),
     block_queue := [4], kernel_space := ex_space\<lparr>areas := [empty_area (fst (kernel_stack_position 7))]\<rparr>,
     pid_allocator := \<lparr>ra_current = 4, ra_recycled = [1, 2]\<rparr>, kstack_allocator := \<lparr>ra_current = 8, ra_recycled = []\<rparr>,
     procs := [0 \<mapsto> ex_pcb\<lparr>tasks := [Some 4], children := [3]\<rparr>,
               3 \<mapsto> ex_pcb\<lparr>parent := Some 0, exit_signal := SIGCHLD, memory_set := ex_space\<lparr>areas := [empty_area TRAP_CONTEXT_BASE]\<rparr>\<rparr>],
     pid2pcb := [0, 3]\<rparr>"

lemma page_addresses:
  "vpn_from_va (va_from TRAP_CONTEXT_BASE) = Some (va_floor (va_from TRAP_CONTEXT_BASE))"
  "vpn_from_va (va_from (fst (kernel_stack_position 7))) = Some (va_floor (va_from (fst (kernel_stack_position 7))))"
  by (simp_all add: vpn_from_va_def va_page_offset_def va_from_def kernel_stack_position_def Let_def config_defs)

lemma empty_area_removed:
  "remove_area_with_start_vpn (va_floor (va_from a)) (ms\<lparr>areas := [empty_area a]\<rparr>, m) = Some (ms\<lparr>areas := []\<rparr>, m)"
  by (simp add: remove_area_with_start_vpn_def empty_area_def area_unmap_def range_vpns_def remove_nth_def)

lemma family_simps:
  "current family = Some 5" "ready_queue family = []" "block_queue family = [4]" "timers family = []" "pid2pcb family = [0, 3]"
  "tcb family 4 = idle_task\<lparr>task_process := 0, task_status := Blocked\<rparr>"
  "tcb family 5 = idle_task\<lparr>task_process := 3, task_kstack := 7, task_res := Some \<lparr>res_tid = 0, res_ustack_top = 0, self_stack = False\<rparr>\<rparr>"
  "procs family = [0 \<mapsto> ex_pcb\<lparr>tasks := [Some 4], children := [3]\<rparr>,
     3 \<mapsto> ex_pcb\<lparr>parent := Some 0, exit_signal := SIGCHLD, memory_set := ex_space\<lparr>areas := [empty_area TRAP_CONTEXT_BASE]\<rparr>\<rparr>]"
  "kernel_space family = ex_space\<lparr>areas := [empty_area (fst (kernel_stack_position 7))]\<rparr>"
  "kstack_allocator family = \<lparr>ra_current = 8, ra_recycled = []\<rparr>" "pid_allocator family = \<lparr>ra_current = 4, ra_recycled = [1, 2]\<rparr>"
  by (simp_all add: family_def ex_kernel_def)

lemma SIGCHLD_nz: "SIGCHLD \<noteq> 0"
  by (simp add: SIGCHLD_def sig_bit_def)

lemma ex_pcb_simps [simp]: "tasks ex_pcb = [Some 5]" "children ex_pcb = []" "task_res_allocator ex_pcb = \<lparr>ra_current = 1, ra_recycled = []\<rparr>" "futex ex_pcb = []"
  "parent ex_pcb = None" "is_zombie ex_pcb = False" "exit_code ex_pcb = 0"
  by (simp_all add: ex_pcb_def)

definition family1 :: "unit kernel" where
  "family1 = unblock_task 4 (upd_proc 0 (\<lambda>q. q\<lparr>signals_pending := signals_pending q OR SIGCHLD\<rparr>) (family\<lparr>current := None\<rparr>))"

definition family2 :: "unit kernel" where
  "family2 = (upd_task 5 (\<lambda>c. c\<lparr>task_exit_code := Some 256, task_res := None\<rparr>) family1)\<lparr>procs := (procs family1)(3 \<mapsto>
     ex_pcb\<lparr>parent := Some 0, exit_signal := SIGCHLD, memory_set := ex_space\<lparr>areas := []\<rparr>, task_res_allocator := \<lparr>ra_current = 1, ra_recycled = [0]\<rparr>\<rparr>)\<rparr>"

lemma family1_simps:
  "current family1 = None" "ready_queue family1 = [4]" "block_queue family1 = []" "timers family1 = []" "pid2pcb family1 = [0, 3]"
  "tcb family1 5 = tcb family 5"
  "procs family1 = (procs family)(0 \<mapsto> ex_pcb\<lparr>tasks := [Some 4], children := [3], signals_pending := signals_pending ex_pcb OR SIGCHLD\<rparr>)"
  "kernel_space family1 = kernel_space family" "kstack_allocator family1 = kstack_allocator family" "km family1 = km family"
  by (simp_all add: family1_def unblock_task_def set_status_def upd_proc_def Let_def family_simps)

lemma family_notifies: "notify_parent 3 (family\<lparr>current := None\<rparr>) = Some family1"
  by (simp add: notify_parent_def family1_def family_simps Let_def SIGCHLD_nz upd_proc_def get_task_def vec_get_def)

lemma family_drops: "TaskUserRes_drop 3 \<lparr>res_tid = 0, res_ustack_top = 0, self_stack = False\<rparr>
    (upd_task 5 (\<lambda>c. c\<lparr>task_exit_code := Some 256, task_res := None\<rparr>) family1) = Some family2"
  by (simp add: TaskUserRes_drop_def upd_task_def family1_simps family_simps ra_dealloc_def vec_push_def dealloc_user_res_def
      trap_cx_bottom_from_tid_def page_addresses empty_area_removed family2_def fun_upd_twist)

lemma family_terminates: "\<exists>k' p. terminate_process 3 256 family2 = Some k' \<and> tcb k' 4 = tcb family1 4 \<and> procs k' 3 = Some p
    \<and> memory_set p = ex_space\<lparr>areas := []\<rparr>"
  by (simp add: terminate_process_def remove_from_pid2process_def upd_proc_def INITPROC_def IDLE_PID_def adopt_def take_resources.simps Let_def
      with_memory_def recycle_data_pages_def release_task_def task_referenced_def kstack_drop_def page_addresses empty_area_removed ra_dealloc_def
      family2_def upd_task_def family1_simps family_simps remove_inactive_task_def remove_task_def remove_timer_def List.map_filter_def vec_push_def)

lemma family_exits: "\<exists>k' p. exit_current_and_run_next 256 family = Some (Continue k') \<and> tcb k' 4 = tcb family1 4 \<and> procs k' 3 = Some p
    \<and> memory_set p = ex_space\<lparr>areas := []\<rparr>"
  using family_terminates
  by (auto simp: exit_current_and_run_next_def take_current_task_def family_simps family_notifies family_drops family1_simps Let_def IDLE_PID_def)

lemma family_tree: "tree_ok (pview family)"
proof -
  have T: "ptree_of family = [0 \<mapsto> \<lparr>pn_parent = None, pn_children = [3], pn_zombie = False, pn_code = 0, pn_threads = 1\<rparr>,
      3 \<mapsto> \<lparr>pn_parent = Some 0, pn_children = [], pn_zombie = False, pn_code = 0, pn_threads = 1\<rparr>]"
    by (auto simp: ptree_of_def pnode_of_def thread_count_def family_simps fun_eq_iff)
  have up: "(parent_of (ptree_of family))\<^sup>*\<^sup>* 3 0" by (rule r_into_rtranclp) (simp add: parent_of_def T)
  have live: "ra_live \<lparr>ra_current = 4, ra_recycled = [1, 2]\<rparr> = {0, 3}" by (auto simp: ra_live_def)
  show ?thesis using up unfolding tree_ok_def pview_def
    by (auto simp: node_ok_def T family_simps INITPROC_def IDLE_PID_def live [simplified] parent_of_def ra_invar_def)
qed

theorem process_tree_invariant_witness:
  "\<forall>ls cwd. \<exists>k'. proc_step ls cwd family k' \<and> tree_ok (pview k')"
proof (intro allI)
  fix ls cwd
  obtain k' where k': "exit_current_and_run_next 256 family = Some (Continue k')" using family_exits by blast
  have s: "proc_step ls cwd family k'" by (rule proc_step.exits [OF k'])
  then show "\<exists>k'. proc_step ls cwd family k' \<and> tree_ok (pview k')"
    using process_tree_invariant [OF r_into_rtranclp [of "proc_step ls cwd", OF s] family_tree] by blast
qed

lemma family_child: "current family = Some 5" "gettid (tcb family 5) = Some 0" "task_process (tcb family 5) = 3"
  by (simp_all add: family_simps gettid_def)



end
