(* ===== verification/Spec2Isabelle.thy ===== *)
theory Spec2Isabelle
  imports Dir_Refine Pipe Process_Exit
begin

text \<open>
  Verification of a RISC-V kernel: the memory, task and file-system core of
  \<^verbatim>\<open>kernel/src\<close>.
\<close>

end
